(* ===== verification/Prelude.thy ===== *)
theory Prelude
  imports Main "HOL-Library.Word" "HOL-Library.Multiset" "HOL-Library.Code_Target_Nat"
begin

text \<open>
  Shared vocabulary of the development: Rust's machine integers as the release build computes
  with them, panics, slices, and the list lemmas the components share.

  An unsigned 64-bit integer (\<open>u64\<close>, and \<open>usize\<close> on the supported targets) is either a
  \<open>64 word\<close>, where the code is about wrap-around or bits, or a \<open>nat\<close> together with the
  operations below, which write out where the program saturates and where it wraps. The release
  profile of the program leaves overflow checks off, so a plain \<open>+\<close>, \<open>-\<close> or \<open>*\<close> wraps.
\<close>

named_theorems u64_simps \<open>machine arithmetic whose result stays in range\<close>

section \<open>Machine integers\<close>

type_synonym u8 = "8 word"
type_synonym u32 = "32 word"
type_synonym u64 = "64 word"
type_synonym bytes = "8 word list"

abbreviation U64_LIMIT :: nat where "U64_LIMIT \<equiv> 18446744073709551616"
abbreviation U64_MAX :: nat where "U64_MAX \<equiv> 18446744073709551615"
abbreviation U32_MAX :: nat where "U32_MAX \<equiv> 4294967295"
abbreviation U16_MAX :: nat where "U16_MAX \<equiv> 65535"
abbreviation ISIZE_MAX :: nat where "ISIZE_MAX \<equiv> 9223372036854775807"

definition wrapping_add :: "nat \<Rightarrow> nat \<Rightarrow> nat" where
  "wrapping_add a b = (a + b) mod U64_LIMIT"

definition wrapping_sub :: "nat \<Rightarrow> nat \<Rightarrow> nat" where
  "wrapping_sub a b = (a + (U64_LIMIT - b mod U64_LIMIT)) mod U64_LIMIT"

definition wrapping_mul :: "nat \<Rightarrow> nat \<Rightarrow> nat" where
  "wrapping_mul a b = (a * b) mod U64_LIMIT"

definition saturating_add :: "nat \<Rightarrow> nat \<Rightarrow> nat" where
  "saturating_add a b = min (a + b) U64_MAX"

definition saturating_mul :: "nat \<Rightarrow> nat \<Rightarrow> nat" where
  "saturating_mul a b = min (a * b) U64_MAX"

definition saturating_sub :: "nat \<Rightarrow> nat \<Rightarrow> nat" where
  "saturating_sub a b = (if b \<le> a then a - b else 0)"

text \<open>\<open>div_ceil\<close> as the standard library computes it; division by zero panics, so callers guard.\<close>

definition div_ceil :: "nat \<Rightarrow> nat \<Rightarrow> nat" where
  "div_ceil a b = (if a mod b > 0 then a div b + 1 else a div b)"

definition clamp :: "nat \<Rightarrow> nat \<Rightarrow> nat \<Rightarrow> nat" where
  "clamp lo hi x = (if x < lo then lo else if x > hi then hi else x)"

lemma wrapping_add_exact [u64_simps]: "a + b < U64_LIMIT \<Longrightarrow> wrapping_add a b = a + b"
  by (simp add: wrapping_add_def)

lemma wrapping_mul_exact [u64_simps]: "a * b < U64_LIMIT \<Longrightarrow> wrapping_mul a b = a * b"
  by (simp add: wrapping_mul_def)

lemma wrapping_sub_exact [u64_simps]:
  assumes "b \<le> a" and "a < U64_LIMIT"
  shows "wrapping_sub a b = a - b"
proof -
  from assms have "a + (U64_LIMIT - b mod U64_LIMIT) = (a - b) + U64_LIMIT" by simp
  then have "wrapping_sub a b = (a - b + U64_LIMIT) mod U64_LIMIT"
    by (simp only: wrapping_sub_def)
  also have "\<dots> = (a - b) mod U64_LIMIT" by (rule mod_add_self2)
  also have "\<dots> = a - b" using assms by simp
  finally show ?thesis .
qed

lemma wrapping_add_lt [simp]: "wrapping_add a b < U64_LIMIT"
  by (simp add: wrapping_add_def)

lemma wrapping_mul_lt [simp]: "wrapping_mul a b < U64_LIMIT"
  by (simp add: wrapping_mul_def)

lemma wrapping_sub_lt [simp]: "wrapping_sub a b < U64_LIMIT"
  by (simp add: wrapping_sub_def)

lemma saturating_sub_eq [simp]: "saturating_sub a b = a - b"
  by (simp add: saturating_sub_def)

lemma saturating_mul_exact [u64_simps]: "a * b \<le> U64_MAX \<Longrightarrow> saturating_mul a b = a * b"
  by (simp add: saturating_mul_def)

lemma saturating_add_exact [u64_simps]: "a + b \<le> U64_MAX \<Longrightarrow> saturating_add a b = a + b"
  by (simp add: saturating_add_def)

lemma div_ceil_ge: "b > 0 \<Longrightarrow> a \<le> div_ceil a b * b"
proof -
  assume "b > 0"
  have "a = a div b * b + a mod b" by simp
  moreover have "a mod b \<le> b" using \<open>b > 0\<close> by (simp add: less_imp_le)
  ultimately have "a \<le> a div b * b + b" by linarith
  then show ?thesis
    using div_mult_mod_eq [of a b] by (auto simp: div_ceil_def algebra_simps)
qed

lemma div_ceil_least: "b > 0 \<Longrightarrow> a \<le> k * b \<Longrightarrow> div_ceil a b \<le> k"
proof -
  assume b: "b > 0" and k: "a \<le> k * b"
  from k have d: "a div b \<le> k" using b
    by (metis div_le_mono nonzero_mult_div_cancel_right not_gr_zero)
  show ?thesis
  proof (cases "a mod b > 0")
    case True
    have "a div b \<noteq> k"
    proof
      assume "a div b = k"
      then have "a = k * b + a mod b" by (metis div_mult_mod_eq)
      with True k show False by simp
    qed
    with d True show ?thesis by (simp add: div_ceil_def)
  next
    case False
    with d show ?thesis by (simp add: div_ceil_def)
  qed
qed

lemma clamp_bounds: "lo \<le> hi \<Longrightarrow> lo \<le> clamp lo hi x \<and> clamp lo hi x \<le> hi"
  by (simp add: clamp_def)

section \<open>Slices\<close>

text \<open>\<open>&xs[a..b]\<close>: the slice, or \<open>None\<close> where the index expression panics.\<close>

definition subslice :: "'a list \<Rightarrow> nat \<Rightarrow> nat \<Rightarrow> 'a list option" where
  "subslice xs a b = (if a \<le> b \<and> b \<le> length xs then Some (take (b - a) (drop a xs)) else None)"

text \<open>\<open>xs[a..a + ys.len()].copy_from_slice(ys)\<close>, in range.\<close>

definition overwrite :: "'a list \<Rightarrow> nat \<Rightarrow> 'a list \<Rightarrow> 'a list" where
  "overwrite xs a ys = take a xs @ ys @ drop (a + length ys) xs"

lemma length_overwrite [simp]:
  "a + length ys \<le> length xs \<Longrightarrow> length (overwrite xs a ys) = length xs"
  by (simp add: overwrite_def)

lemma take_overwrite [simp]: "a \<le> length xs \<Longrightarrow> take a (overwrite xs a ys) = take a xs"
  by (simp add: overwrite_def)

lemma subslice_overwrite:
  assumes "a \<le> b" and "b + length ys \<le> length xs"
  shows "subslice (overwrite xs b ys) a (b + length ys) =
         Some (take (b - a) (drop a xs) @ ys)"
  using assms by (simp add: subslice_def overwrite_def drop_take)

section \<open>Sums over lists\<close>

lemma sum_list_update_word:
  fixes xs :: "'a::ab_group_add list"
  shows "i < length xs \<Longrightarrow> sum_list (xs[i := v]) = sum_list xs - xs ! i + v"
  by (induction xs arbitrary: i) (auto simp: nth_Cons split: nat.splits)

lemma sum_list_map_upd:
  fixes f :: "'b \<Rightarrow> 'a::ab_group_add"
  assumes "i < length xs"
  shows "(\<Sum>x\<leftarrow>xs[i := v]. f x) = (\<Sum>x\<leftarrow>xs. f x) - f (xs ! i) + f v"
  using assms by (simp add: map_update sum_list_update_word)

lemma sum_list_const_zero [simp]: "(\<Sum>x\<leftarrow>replicate n a. f x) = of_nat n * (f a :: 'a::semiring_1)"
  by (induction n) (simp_all add: algebra_simps)

section \<open>Running operations, and refinement\<close>

text \<open>A sequence of operations of a component, stopped by the first panic or error.\<close>

fun run_ok :: "('s \<Rightarrow> 'o \<Rightarrow> 'e + 's) \<Rightarrow> 's \<Rightarrow> 'o list \<Rightarrow> 'e + 's" where
  "run_ok step s [] = Inr s"
| "run_ok step s (x # xs) = (case step s x of Inl e \<Rightarrow> Inl e | Inr s' \<Rightarrow> run_ok step s' xs)"

text \<open>
  The contract of a component that implements an abstract one: every operation that succeeds keeps
  the invariant and does to the abstract state what the specification says.
\<close>

locale refinement =
  fixes inv :: "'s \<Rightarrow> bool"
    and abs :: "'s \<Rightarrow> 'a"
    and step :: "'s \<Rightarrow> 'o \<Rightarrow> 'e + 's"
    and spec :: "'a \<Rightarrow> 'o \<Rightarrow> 'a"
  assumes step_inv: "inv s \<Longrightarrow> step s x = Inr s' \<Longrightarrow> inv s'"
    and step_abs: "inv s \<Longrightarrow> step s x = Inr s' \<Longrightarrow> abs s' = spec (abs s) x"
begin

lemma run_inv: "inv s \<Longrightarrow> run_ok step s xs = Inr s' \<Longrightarrow> inv s'"
  by (induction xs arbitrary: s) (auto split: sum.splits dest: step_inv)

lemma run_abs: "inv s \<Longrightarrow> run_ok step s xs = Inr s' \<Longrightarrow> inv s' \<and> abs s' = foldl spec (abs s) xs"
proof (induction xs arbitrary: s)
  case Nil
  then show ?case by simp
next
  case (Cons x xs)
  then obtain t where t: "step s x = Inr t" "run_ok step t xs = Inr s'"
    by (auto split: sum.splits)
  from t(1) Cons.prems have "inv t" and a: "abs t = spec (abs s) x"
    by (auto intro: step_inv step_abs)
  with Cons.IH [of t] t(2) show ?case by simp
qed

end

text \<open>The sum over a list, with one element singled out and replaced.\<close>

lemma sum_list_at:
  fixes f :: "'a \<Rightarrow> 'b :: comm_monoid_add"
  assumes "i < length xs"
  obtains K where "(\<Sum>x\<leftarrow>xs. f x) = f (xs ! i) + K" and "\<And>y. (\<Sum>x\<leftarrow>xs[i := y]. f x) = f y + K"
proof (rule that [of "(\<Sum>x\<leftarrow>take i xs. f x) + (\<Sum>x\<leftarrow>drop (Suc i) xs. f x)"])
  show "(\<Sum>x\<leftarrow>xs. f x) = f (xs ! i) + ((\<Sum>x\<leftarrow>take i xs. f x) + (\<Sum>x\<leftarrow>drop (Suc i) xs. f x))"
    by (subst id_take_nth_drop [OF assms]) (simp add: add_ac)
  show "(\<Sum>x\<leftarrow>xs[i := y]. f x) = f y + ((\<Sum>x\<leftarrow>take i xs. f x) + (\<Sum>x\<leftarrow>drop (Suc i) xs. f x))" for y
    using assms by (simp add: upd_conv_take_nth_drop add_ac)
qed

end
