(* ===== verification/Byte_Buffer.thy ===== *)
theory Byte_Buffer
  imports Prelude
begin

text \<open>
  The reusable network buffer (\<open>src/buffer/mod.rs\<close>): a fixed array with a read and a write
  position. The panics of its \<open>assert!\<close>s, of slice indexing and of the allocator are values of
  \<open>buffer_panic\<close>; the reader and the writer of \<open>read_from\<close> and \<open>write_to\<close> are arguments. The
  buffer is proved to be a byte queue: the contract is the locale \<open>byte_queue\<close>, interpreted on
  the operations of the code.
\<close>

section \<open>The buffer and its operations\<close>

datatype buffer_panic = ConsumeExceeds | AdvanceExceeds | ExtendExceeds | SliceRange | CapacityOverflow

datatype io_error = OutOfMemory | OtherIo string

record buffer =
  data :: bytes
  read_pos :: nat
  write_pos :: nat

abbreviation DEFAULT_BUFFER_SIZE :: nat where "DEFAULT_BUFFER_SIZE \<equiv> 65536"

definition with_capacity :: "nat \<Rightarrow> buffer_panic + buffer" where
  "with_capacity capacity =
     (if capacity > ISIZE_MAX then Inl CapacityOverflow
      else Inr \<lparr>data = replicate capacity 0, read_pos = 0, write_pos = 0\<rparr>)"

definition new_buffer :: "buffer_panic + buffer" where
  "new_buffer = with_capacity DEFAULT_BUFFER_SIZE"

definition buf_capacity :: "buffer \<Rightarrow> nat" where
  "buf_capacity b = length (data b)"

definition readable :: "buffer \<Rightarrow> nat" where
  "readable b = wrapping_sub (write_pos b) (read_pos b)"

definition writable :: "buffer \<Rightarrow> nat" where
  "writable b = wrapping_sub (length (data b)) (write_pos b)"

definition buf_is_empty :: "buffer \<Rightarrow> bool" where
  "buf_is_empty b \<longleftrightarrow> read_pos b = write_pos b"

definition as_slice :: "buffer \<Rightarrow> bytes option" where
  "as_slice b = subslice (data b) (read_pos b) (write_pos b)"

text \<open>The writable slice; writing to it is \<open>overwrite\<close> at the write position.\<close>

definition spare_mut :: "buffer \<Rightarrow> bytes option" where
  "spare_mut b = subslice (data b) (write_pos b) (length (data b))"

definition consume :: "buffer \<Rightarrow> nat \<Rightarrow> buffer_panic + buffer" where
  "consume b n =
     (if n > readable b then Inl ConsumeExceeds
      else let b = b\<lparr>read_pos := wrapping_add (read_pos b) n\<rparr>
           in if read_pos b = write_pos b then Inr (b\<lparr>read_pos := 0, write_pos := 0\<rparr>)
              else Inr b)"

definition advance :: "buffer \<Rightarrow> nat \<Rightarrow> buffer_panic + buffer" where
  "advance b n =
     (if n > writable b then Inl AdvanceExceeds
      else Inr (b\<lparr>write_pos := wrapping_add (write_pos b) n\<rparr>))"

definition compact :: "buffer \<Rightarrow> buffer_panic + buffer" where
  "compact b =
     (if read_pos b = 0 then Inr b
      else let r = readable b in
        if r > 0 then
          (case as_slice b of None \<Rightarrow> Inl SliceRange
           | Some live \<Rightarrow> Inr (b\<lparr>data := overwrite (data b) 0 live, read_pos := 0, write_pos := r\<rparr>))
        else Inr (b\<lparr>read_pos := 0, write_pos := r\<rparr>))"

definition clear :: "buffer \<Rightarrow> buffer" where
  "clear b = b\<lparr>read_pos := 0, write_pos := 0\<rparr>"

definition grow :: "buffer \<Rightarrow> nat \<Rightarrow> buffer_panic + buffer" where
  "grow b needed =
     (let r = readable b;
          min_capacity = wrapping_add r needed;
          new_capacity = max (wrapping_mul (buf_capacity b) 2) min_capacity
      in if new_capacity > ISIZE_MAX then Inl CapacityOverflow
         else let new_data = replicate new_capacity 0 in
           if r > 0 then
             (case as_slice b of None \<Rightarrow> Inl SliceRange
              | Some live \<Rightarrow>
                  if r > new_capacity then Inl SliceRange
                  else Inr \<lparr>data = overwrite new_data 0 live, read_pos = 0, write_pos = r\<rparr>)
           else Inr \<lparr>data = new_data, read_pos = 0, write_pos = r\<rparr>)"

definition extend_from_slice :: "buffer \<Rightarrow> bytes \<Rightarrow> buffer_panic + buffer" where
  "extend_from_slice b ds =
     (if length ds > writable b then Inl ExtendExceeds
      else case spare_mut b of None \<Rightarrow> Inl SliceRange
           | Some spare \<Rightarrow>
               if length ds > length spare then Inl SliceRange
               else advance (b\<lparr>data := overwrite (data b) (write_pos b) ds\<rparr>) (length ds))"

text \<open>
  \<open>reader.read(spare)\<close> is an argument: it may overwrite the slice it is given and returns a
  count or an error. The result of \<open>read_from\<close> is the new buffer (unchanged positions on an
  error) with the reader's result; an outer \<open>Inl\<close> is a panic.
\<close>

type_synonym reader = "bytes \<Rightarrow> bytes \<times> (io_error + nat)"
type_synonym writer = "bytes \<Rightarrow> io_error + nat"

definition read_from :: "buffer \<Rightarrow> reader \<Rightarrow> buffer_panic + (buffer \<times> (io_error + nat))" where
  "read_from b reader =
     (case (if writable b < buf_capacity b div 4 then compact b else Inr b) of
        Inl p \<Rightarrow> Inl p
      | Inr b \<Rightarrow>
          if writable b = 0 then Inr (b, Inl OutOfMemory)
          else (case spare_mut b of None \<Rightarrow> Inl SliceRange
                | Some spare \<Rightarrow>
                    let (filled, r) = reader spare;
                        b = b\<lparr>data := overwrite (data b) (write_pos b) filled\<rparr>
                    in (case r of Inl e \<Rightarrow> Inr (b, Inl e)
                        | Inr n \<Rightarrow> (case advance b n of Inl p \<Rightarrow> Inl p
                                   | Inr b \<Rightarrow> Inr (b, Inr n)))))"

definition write_to :: "buffer \<Rightarrow> writer \<Rightarrow> buffer_panic + (buffer \<times> (io_error + nat))" where
  "write_to b writer =
     (if buf_is_empty b then Inr (b, Inr 0)
      else case as_slice b of None \<Rightarrow> Inl SliceRange
           | Some live \<Rightarrow>
               (case writer live of Inl e \<Rightarrow> Inr (b, Inl e)
                | Inr n \<Rightarrow> (case consume b n of Inl p \<Rightarrow> Inl p | Inr b \<Rightarrow> Inr (b, Inr n))))"

record buffer_pair =
  send :: buffer
  recv :: buffer

definition pair_with_capacity :: "nat \<Rightarrow> nat \<Rightarrow> buffer_panic + buffer_pair" where
  "pair_with_capacity send_cap recv_cap =
     (case with_capacity send_cap of Inl p \<Rightarrow> Inl p
      | Inr s \<Rightarrow> (case with_capacity recv_cap of Inl p \<Rightarrow> Inl p
                 | Inr r \<Rightarrow> Inr \<lparr>send = s, recv = r\<rparr>))"

section \<open>Invariant\<close>

definition buffer_inv :: "buffer \<Rightarrow> bool" where
  "buffer_inv b \<longleftrightarrow> read_pos b \<le> write_pos b \<and> write_pos b \<le> length (data b) \<and>
                    length (data b) \<le> ISIZE_MAX"

text \<open>The bytes a reader of the buffer still sees.\<close>

definition contents :: "buffer \<Rightarrow> bytes" where
  "contents b = take (write_pos b - read_pos b) (drop (read_pos b) (data b))"

lemma buffer_invD:
  assumes "buffer_inv b"
  shows "read_pos b \<le> write_pos b" "write_pos b \<le> length (data b)" "length (data b) \<le> ISIZE_MAX"
  using assms by (simp_all add: buffer_inv_def)

lemma readable_eq [simp]: "buffer_inv b \<Longrightarrow> readable b = write_pos b - read_pos b"
  by (simp add: readable_def buffer_inv_def u64_simps)

lemma writable_eq [simp]: "buffer_inv b \<Longrightarrow> writable b = length (data b) - write_pos b"
  by (simp add: writable_def buffer_inv_def u64_simps)

lemma as_slice_eq [simp]: "buffer_inv b \<Longrightarrow> as_slice b = Some (contents b)"
  by (simp add: as_slice_def subslice_def contents_def buffer_inv_def)

lemma spare_mut_eq [simp]: "buffer_inv b \<Longrightarrow> spare_mut b = Some (drop (write_pos b) (data b))"
  by (simp add: spare_mut_def subslice_def buffer_inv_def)

lemma length_contents [simp]: "buffer_inv b \<Longrightarrow> length (contents b) = write_pos b - read_pos b"
  using buffer_invD [of b] by (simp add: contents_def)

lemma length_contents_le: "buffer_inv b \<Longrightarrow> length (contents b) \<le> length (data b)"
  using buffer_invD [of b] by simp

lemma is_empty_contents: "buffer_inv b \<Longrightarrow> buf_is_empty b \<longleftrightarrow> contents b = []"
  by (auto simp: buf_is_empty_def contents_def buffer_inv_def)

lemma with_capacity_ok:
  "n \<le> ISIZE_MAX \<Longrightarrow> \<exists>b. with_capacity n = Inr b \<and> buffer_inv b \<and> contents b = [] \<and>
     length (data b) = n"
  by (simp add: with_capacity_def buffer_inv_def contents_def)

lemma consume_cases:
  assumes inv: "buffer_inv b"
  shows "if n \<le> length (contents b)
         then \<exists>b'. consume b n = Inr b' \<and> buffer_inv b' \<and> contents b' = drop n (contents b) \<and>
                   length (data b') = length (data b)
         else consume b n = Inl ConsumeExceeds"
proof (cases "n \<le> write_pos b - read_pos b")
  case True
  then have le: "read_pos b + n \<le> write_pos b" using buffer_invD [OF inv] by linarith
  then have [simp]: "wrapping_add (read_pos b) n = read_pos b + n"
    using buffer_invD [OF inv] by (intro wrapping_add_exact) linarith
  from True le buffer_invD [OF inv] show ?thesis
    by (auto simp: inv consume_def Let_def buffer_inv_def contents_def drop_take add.commute)
next
  case False
  with inv show ?thesis by (auto simp: consume_def)
qed

lemma extend_cases:
  assumes inv: "buffer_inv b"
  shows "if length ds \<le> length (data b) - write_pos b
         then \<exists>b'. extend_from_slice b ds = Inr b' \<and> buffer_inv b' \<and> contents b' = contents b @ ds
                   \<and> length (data b') = length (data b)
         else extend_from_slice b ds = Inl ExtendExceeds"
proof (cases "length ds \<le> length (data b) - write_pos b")
  case True
  let ?b = "b\<lparr>data := overwrite (data b) (write_pos b) ds\<rparr>"
  let ?b' = "?b\<lparr>write_pos := write_pos b + length ds\<rparr>"
  note D = buffer_invD [OF inv]
  from True D have fits: "write_pos b + length ds \<le> length (data b)" by linarith
  with D have [simp]: "wrapping_add (write_pos b) (length ds) = write_pos b + length ds"
    by (intro wrapping_add_exact) linarith
  from fits D have invs: "buffer_inv ?b" "buffer_inv ?b'" by (simp_all add: buffer_inv_def)
  with True fits have adv: "advance ?b (length ds) = Inr ?b'" by (simp add: advance_def)
  from fits D have "contents ?b' = contents b @ ds"
    using subslice_overwrite [of "read_pos b" "write_pos b" ds "data b"]
    by (simp add: contents_def subslice_def split: if_splits)
  with True fits inv invs adv show ?thesis by (simp add: extend_from_slice_def)
next
  case False
  with inv show ?thesis by (simp add: extend_from_slice_def)
qed

lemma contents_overwrite_zero:
  "length ys \<le> length xs \<Longrightarrow>
   contents \<lparr>data = overwrite xs 0 ys, read_pos = 0, write_pos = length ys\<rparr> = ys"
  by (simp add: contents_def overwrite_def)

lemma compact_ok:
  assumes inv: "buffer_inv b"
  shows "\<exists>b'. compact b = Inr b' \<and> buffer_inv b' \<and> contents b' = contents b \<and>
              length (data b') = length (data b) \<and>
              writable b' = length (data b) - length (contents b)"
proof (cases "read_pos b = 0")
  case True
  with inv show ?thesis by (auto simp: compact_def)
next
  case False
  let ?b = "\<lparr>data = overwrite (data b) 0 (contents b), read_pos = 0, write_pos = length (contents b)\<rparr>"
  have le: "length (contents b) \<le> length (data b)" by (rule length_contents_le [OF inv])
  have b: "b\<lparr>data := d, read_pos := r, write_pos := w\<rparr> = \<lparr>data = d, read_pos = r, write_pos = w\<rparr>"
    for d r w by (cases b) simp
  show ?thesis
  proof (cases "contents b = []")
    case True
    with False inv show ?thesis
      using buffer_invD [OF inv]
      by (auto simp: compact_def Let_def buffer_inv_def contents_def)
  next
    case nonempty: False
    then have "readable b > 0" using inv by (simp add: contents_def)
    then have "compact b = Inr ?b"
      using False inv by (simp add: compact_def Let_def b)
    moreover have "buffer_inv ?b" using le buffer_invD [OF inv] by (simp add: buffer_inv_def)
    ultimately show ?thesis
      using le contents_overwrite_zero [OF le] by auto
  qed
qed

lemma grow_ok:
  assumes inv: "buffer_inv b" and small: "length (contents b) + needed \<le> ISIZE_MAX"
    and dbl: "2 * length (data b) \<le> ISIZE_MAX"
  shows "\<exists>b'. grow b needed = Inr b' \<and> buffer_inv b' \<and> contents b' = contents b \<and>
              needed \<le> writable b' \<and> 2 * length (data b) \<le> length (data b')"
proof -
  let ?r = "length (contents b)"
  let ?n = "max (length (data b) * 2) (?r + needed)"
  let ?d = "replicate ?n (0::u8)"
  let ?b = "\<lparr>data = overwrite ?d 0 (contents b), read_pos = 0, write_pos = ?r\<rparr>"
  have r: "readable b = ?r" using inv by simp
  have w: "wrapping_add ?r needed = ?r + needed" using small by (intro wrapping_add_exact) linarith
  have m: "wrapping_mul (buf_capacity b) 2 = length (data b) * 2"
    unfolding buf_capacity_def using dbl by (intro wrapping_mul_exact) linarith
  have le: "?r \<le> length ?d" by simp
  have n: "?n \<le> ISIZE_MAX" using small dbl by (simp add: mult.commute)
  have "overwrite ?d 0 (contents b) = ?d" if "?r = 0" using that by (simp add: overwrite_def)
  then have "grow b needed = Inr ?b"
    using n as_slice_eq [OF inv]
    by (auto simp: grow_def Let_def r w m not_less simp del: length_contents readable_eq)
  moreover have "buffer_inv ?b"
    using n by (simp add: buffer_inv_def del: length_contents)
  moreover from this have "needed \<le> writable ?b" "2 * length (data b) \<le> length (data ?b)"
    by (simp_all del: length_contents)
  ultimately show ?thesis
    using contents_overwrite_zero [OF le] by blast
qed

section \<open>The buffer is a byte queue\<close>

datatype buffer_op = Extend bytes | Consume nat | Compact | Clear | Grow nat

fun buffer_step :: "buffer \<Rightarrow> buffer_op \<Rightarrow> buffer_panic + buffer" where
  "buffer_step b (Extend ds) = extend_from_slice b ds"
| "buffer_step b (Consume n) = consume b n"
| "buffer_step b Compact = compact b"
| "buffer_step b Clear = Inr (clear b)"
| "buffer_step b (Grow n) = grow b n"

text \<open>What each operation does to the queue of unread bytes.\<close>

fun queue_step :: "bytes \<Rightarrow> buffer_op \<Rightarrow> bytes" where
  "queue_step q (Extend ds) = q @ ds"
| "queue_step q (Consume n) = drop n q"
| "queue_step q Compact = q"
| "queue_step q Clear = []"
| "queue_step q (Grow n) = q"

lemma grow_Inr:
  assumes inv: "buffer_inv b" and g: "grow b n = Inr b'"
  shows "buffer_inv b' \<and> contents b' = contents b"
proof -
  let ?r = "length (contents b)"
  let ?n = "max (wrapping_mul (buf_capacity b) 2) (wrapping_add ?r n)"
  let ?d = "replicate ?n (0::u8)"
  have r: "readable b = ?r" using inv by simp
  have n: "?n \<le> ISIZE_MAX" and le: "?r \<le> length ?d"
    using g inv by (auto simp: grow_def Let_def r not_less simp del: length_contents readable_eq
        split: if_splits)
  have "overwrite ?d 0 (contents b) = ?d" if "?r = 0" using that by (simp add: overwrite_def)
  then have b': "b' = \<lparr>data = overwrite ?d 0 (contents b), read_pos = 0, write_pos = ?r\<rparr>"
    using g inv by (auto simp: grow_def Let_def r simp del: length_contents readable_eq
        split: if_splits)
  then show ?thesis
    using n le contents_overwrite_zero [OF le]
    by (auto simp: buffer_inv_def simp del: length_contents)
qed

lemma buffer_step_sim:
  assumes "buffer_inv b" and "buffer_step b x = Inr b'"
  shows "buffer_inv b' \<and> contents b' = queue_step (contents b) x"
proof (cases x)
  case (Extend ds)
  with assms show ?thesis using extend_cases [of b ds] by (auto split: if_splits)
next
  case (Consume n)
  with assms show ?thesis using consume_cases [of b n] by (auto split: if_splits)
next
  case Compact
  with assms show ?thesis using compact_ok [of b] by auto
next
  case Clear
  with assms show ?thesis by (auto simp: clear_def buffer_inv_def contents_def)
next
  case (Grow n)
  with assms show ?thesis using grow_Inr [of b n b'] by simp
qed

interpretation buf: refinement buffer_inv contents buffer_step queue_step
  using buffer_step_sim by unfold_locales blast+

text \<open>
  C22. The buffer is a byte queue. Whatever sequence of \<open>extend_from_slice\<close>, \<open>consume\<close>,
  \<open>compact\<close>, \<open>clear\<close> and \<open>grow\<close> runs on a fresh buffer without panicking, \<open>as_slice\<close> then
  returns exactly the bytes appended and not yet consumed, in order: no byte is lost, repeated or
  exposed out of order by the position arithmetic, the compaction or the reallocation.
\<close>

theorem buffer_is_byte_queue:
  assumes "with_capacity cap = Inr b" and "run_ok buffer_step b ops = Inr b'"
  shows "as_slice b' = Some (foldl queue_step [] ops)"
proof -
  from assms(1) have b: "buffer_inv b" "contents b = []"
    using with_capacity_ok [of cap] by (auto simp: with_capacity_def split: if_splits)
  from buf.run_abs [OF b(1) assms(2)] b(2) show ?thesis by simp
qed

theorem buffer_is_byte_queue_witness:
  "as_slice \<lparr>data = [3, 4, 3, 4], read_pos = 0, write_pos = 2\<rparr> =
     Some (foldl queue_step [] [Extend [1, 2, 3], Consume 2, Extend [4], Compact])"
  by (rule buffer_is_byte_queue [where cap = 4 and
        b = "\<lparr>data = [0, 0, 0, 0], read_pos = 0, write_pos = 0\<rparr>"]) code_simp+

text \<open>A reader fills its slice in place and reports at most as many bytes as it was given.\<close>

definition reader_ok :: "reader \<Rightarrow> bool" where
  "reader_ok rd \<longleftrightarrow> (\<forall>s. length (fst (rd s)) = length s \<and> (\<forall>n. snd (rd s) = Inr n \<longrightarrow> n \<le> length s))"

lemma read_into_spare:
  assumes inv: "buffer_inv b" and len: "length filled = length (data b) - write_pos b"
    and n: "n \<le> length filled"
  shows "\<exists>b'. advance (b\<lparr>data := overwrite (data b) (write_pos b) filled\<rparr>) n = Inr b' \<and>
              buffer_inv b' \<and> contents b' = contents b @ take n filled"
proof -
  note D = buffer_invD [OF inv]
  let ?b = "b\<lparr>data := overwrite (data b) (write_pos b) filled\<rparr>"
  let ?b' = "?b\<lparr>write_pos := write_pos b + n\<rparr>"
  have fits: "write_pos b + length filled = length (data b)" using D len by linarith
  have [simp]: "wrapping_add (write_pos b) n = write_pos b + n"
    using D n fits by (intro wrapping_add_exact) linarith
  have inv': "buffer_inv ?b" "buffer_inv ?b'" using D n fits by (simp_all add: buffer_inv_def)
  then have "advance ?b n = Inr ?b'" using n fits by (simp add: advance_def)
  moreover have "contents ?b' = contents b @ take n filled"
    using D n fits by (simp add: contents_def overwrite_def drop_take)
  ultimately show ?thesis using inv' by blast
qed

text \<open>
  \<open>read_from\<close> never panics when the reader keeps to its contract: it either appends the
  first \<open>n\<close> bytes the reader produced to the unread bytes and reports \<open>n\<close>, or passes the
  reader's error on with the unread bytes intact, or, with a capacity of at least 4, reports
  \<open>OutOfMemory\<close> only when the whole capacity is unread bytes (space already consumed is reclaimed
  before the buffer is called full).
\<close>

theorem read_from_appends:
  assumes inv: "buffer_inv b" and rd: "reader_ok rd"
  shows "\<exists>b' r. read_from b rd = Inr (b', r) \<and> buffer_inv b' \<and>
     ((\<exists>s n. r = Inr n \<and> snd (rd s) = Inr n \<and> contents b' = contents b @ take n (fst (rd s))) \<or>
      (\<exists>e. r = Inl e \<and> contents b' = contents b \<and>
           ((\<exists>s. snd (rd s) = Inl e) \<or>
            e = OutOfMemory \<and> (4 \<le> buf_capacity b \<longrightarrow> length (contents b) = buf_capacity b))))"
proof -
  obtain b1 where b1: "(if writable b < buf_capacity b div 4 then compact b else Inr b) = Inr b1"
      "buffer_inv b1" "contents b1 = contents b"
    and full: "writable b1 = 0 \<Longrightarrow> 4 \<le> buf_capacity b \<Longrightarrow> length (contents b) = buf_capacity b"
    using compact_ok [OF inv] length_contents_le [OF inv] inv
    by (cases "writable b < buf_capacity b div 4") (auto simp: buf_capacity_def)
  show ?thesis
  proof (cases "writable b1 = 0")
    case True
    then have "read_from b rd = Inr (b1, Inl OutOfMemory)" using b1(1) by (simp add: read_from_def)
    with True b1 full show ?thesis by blast
  next
    case False
    let ?s = "drop (write_pos b1) (data b1)"
    obtain filled r where rs: "rd ?s = (filled, r)" by (cases "rd ?s")
    have len: "length filled = length (data b1) - write_pos b1"
      using rd rs by (metis reader_ok_def fst_conv length_drop)
    show ?thesis
    proof (cases r)
      case (Inl e)
      let ?b = "b1\<lparr>data := overwrite (data b1) (write_pos b1) filled\<rparr>"
      have "buffer_inv ?b" "contents ?b = contents b1"
        using buffer_invD [OF b1(2)] len
        by (simp_all add: buffer_inv_def contents_def overwrite_def drop_take)
      moreover have "read_from b rd = Inr (?b, Inl e)"
        using False Inl b1 rs by (simp add: read_from_def)
      moreover have "snd (rd ?s) = Inl e" using rs Inl by simp
      ultimately show ?thesis using b1(3) by metis
    next
      case (Inr n)
      with rd rs have "n \<le> length filled" by (metis len length_drop reader_ok_def snd_conv)
      from read_into_spare [OF b1(2) len this] obtain b' where b':
        "advance (b1\<lparr>data := overwrite (data b1) (write_pos b1) filled\<rparr>) n = Inr b'"
        "buffer_inv b'" "contents b' = contents b1 @ take n filled" by blast
      then have "read_from b rd = Inr (b', Inr n)"
        using False Inr b1 rs by (simp add: read_from_def)
      moreover have "snd (rd ?s) = Inr n" "fst (rd ?s) = filled" using rs Inr by simp_all
      ultimately show ?thesis using b' b1(3) by metis
    qed
  qed
qed

theorem read_from_appends_witness:
  "\<exists>b' r. read_from \<lparr>data = [7, 8, 0, 0], read_pos = 1, write_pos = 2\<rparr>
            (\<lambda>s. (replicate (length s) 9, Inr (min 1 (length s)))) = Inr (b', r) \<and> buffer_inv b'"
proof -
  have inv: "buffer_inv \<lparr>data = [7, 8, 0, 0], read_pos = 1, write_pos = 2\<rparr>"
    by (simp add: buffer_inv_def)
  have rd: "reader_ok (\<lambda>s. (replicate (length s) 9, Inr (min 1 (length s))))"
    by (simp add: reader_ok_def)
  show ?thesis using read_from_appends [OF inv rd] by blast
qed

end
