(* ===== verification/Counters.thy ===== *)
theory Counters
  imports Prelude
begin

text \<open>
  The sharded counters and gauges every other part records into (\<open>src/sharded_counter.rs\<close>), and
  the value reader that feeds one of them (\<open>src/read_values.rs\<close>). A thread writes to its own
  shard; a reader sums the shards. The contract clients rely on, whatever the threads and shards,
  is the locale \<open>accumulator\<close>; it is interpreted for counter slots and for gauges.

  Each atomic \<open>fetch_add\<close> is one step, so an interleaving of the threads is a list of steps.
  The address a thread without a shard id hashes is an argument (a field of \<open>thread\<close>).
\<close>

section \<open>The accumulator contract\<close>

locale accumulator =
  fixes good :: "'s \<Rightarrow> bool"
    and total :: "'s \<Rightarrow> 'v::comm_monoid_add"
    and apply_add :: "'s \<Rightarrow> 'u \<Rightarrow> 's option"
    and amount :: "'u \<Rightarrow> 'v"
  assumes add_good: "good s \<Longrightarrow> apply_add s u = Some s' \<Longrightarrow> good s'"
    and add_total: "good s \<Longrightarrow> apply_add s u = Some s' \<Longrightarrow> total s' = total s + amount u"
begin

lemma add_all_total:
  "good s \<Longrightarrow> run_ok (\<lambda>s u. case apply_add s u of None \<Rightarrow> Inl () | Some s' \<Rightarrow> Inr s') s us = Inr s' \<Longrightarrow>
   total s' = total s + (\<Sum>u\<leftarrow>us. amount u)"
proof (induction us arbitrary: s)
  case Nil
  then show ?case by simp
next
  case (Cons u us)
  then obtain t where "apply_add s u = Some t" by (auto split: option.splits)
  with Cons add_good [of s u t] add_total [of s u t] show ?case by (simp add: add.assoc)
qed

end

section \<open>Threads and shards\<close>

abbreviation NUM_SHARDS :: nat where "NUM_SHARDS \<equiv> 256"
abbreviation SLOTS :: nat where "SLOTS \<equiv> 16"

record thread =
  shard_id :: "nat option"
  tls_addr :: nat

definition set_thread_shard :: "thread \<Rightarrow> nat \<Rightarrow> thread" where
  "set_thread_shard t i = t\<lparr>shard_id := Some (i mod NUM_SHARDS)\<rparr>"

definition shard_index :: "thread \<Rightarrow> nat" where
  "shard_index t = (case shard_id t of Some i \<Rightarrow> i | None \<Rightarrow> tls_addr t mod NUM_SHARDS)"

text \<open>Shard ids are only ever set by \<open>set_thread_shard\<close>.\<close>

definition thread_ok :: "thread \<Rightarrow> bool" where
  "thread_ok t \<longleftrightarrow> (\<forall>i. shard_id t = Some i \<longrightarrow> i < NUM_SHARDS)"

lemma shard_index_lt [simp]: "thread_ok t \<Longrightarrow> shard_index t < NUM_SHARDS"
  by (auto simp: shard_index_def thread_ok_def split: option.splits)

lemma set_thread_shard_ok [simp]: "thread_ok (set_thread_shard t i)"
  by (simp add: thread_ok_def set_thread_shard_def)

section \<open>Counter groups\<close>

record shard =
  slots :: "u64 list"

record counter_group =
  shards :: "shard list"

definition group_new :: counter_group where
  "group_new = \<lparr>shards = replicate NUM_SHARDS \<lparr>slots = replicate SLOTS 0\<rparr>\<rparr>"

text \<open>\<open>None\<close> is the panic of an index out of range.\<close>

definition group_add :: "counter_group \<Rightarrow> thread \<Rightarrow> nat \<Rightarrow> u64 \<Rightarrow> counter_group option" where
  "group_add g t slot v =
     (let s = shard_index t in
      if s < length (shards g) \<and> slot < length (slots (shards g ! s))
      then Some (g\<lparr>shards := (shards g)[s := (shards g ! s)\<lparr>slots :=
              (slots (shards g ! s))[slot := slots (shards g ! s) ! slot + v]\<rparr>]\<rparr>)
      else None)"

definition group_increment :: "counter_group \<Rightarrow> thread \<Rightarrow> nat \<Rightarrow> counter_group option" where
  "group_increment g t slot = group_add g t slot 1"

definition group_value :: "counter_group \<Rightarrow> nat \<Rightarrow> u64" where
  "group_value g slot = (\<Sum>s\<leftarrow>shards g. slots s ! slot)"

definition group_ok :: "counter_group \<Rightarrow> bool" where
  "group_ok g \<longleftrightarrow> length (shards g) = NUM_SHARDS \<and> (\<forall>s\<in>set (shards g). length (slots s) = SLOTS)"

lemma group_new_ok [simp]: "group_ok group_new"
  by (simp add: group_ok_def group_new_def)

lemma group_new_value [simp]: "slot < SLOTS \<Longrightarrow> group_value group_new slot = 0"
  by (simp add: group_value_def group_new_def sum_list_replicate)

lemma group_add_defined:
  "group_ok g \<Longrightarrow> thread_ok t \<Longrightarrow> slot < SLOTS \<Longrightarrow> \<exists>g'. group_add g t slot v = Some g'"
  by (simp add: group_add_def group_ok_def Let_def)

lemma group_add_ok: "group_ok g \<Longrightarrow> group_add g t slot v = Some g' \<Longrightarrow> group_ok g'"
  by (auto simp: group_add_def group_ok_def Let_def split: if_splits
      dest!: set_update_subset_insert [THEN subsetD])

lemma group_add_value:
  assumes "group_add g t slot v = Some g'"
  shows "group_value g' slot' = group_value g slot' + (if slot' = slot then v else 0)"
proof -
  let ?i = "shard_index t"
  let ?s = "shards g ! ?i"
  from assms have i: "?i < length (shards g)" and sl: "slot < length (slots ?s)"
    and g': "shards g' = (shards g)[?i := ?s\<lparr>slots := (slots ?s)[slot := slots ?s ! slot + v]\<rparr>]"
    by (auto simp: group_add_def Let_def split: if_splits)
  show ?thesis
    using sl by (cases "slot' = slot")
      (simp_all add: group_value_def g' sum_list_map_upd [OF i])
qed

text \<open>A step of some thread: an add of a value to a slot of the group.\<close>

record add_step =
  by_thread :: thread
  to_slot :: nat
  added :: u64

definition add_step_ok :: "add_step \<Rightarrow> bool" where
  "add_step_ok u \<longleftrightarrow> thread_ok (by_thread u) \<and> to_slot u < SLOTS"

definition group_apply :: "counter_group \<Rightarrow> add_step \<Rightarrow> counter_group option" where
  "group_apply g u = group_add g (by_thread u) (to_slot u) (added u)"

definition step_amount :: "nat \<Rightarrow> add_step \<Rightarrow> u64" where
  "step_amount slot u = (if to_slot u = slot then added u else 0)"

interpretation slot_counter: accumulator group_ok "\<lambda>g. group_value g slot" group_apply "step_amount slot"
  for slot
  by unfold_locales (auto simp: group_apply_def step_amount_def group_add_value intro: group_add_ok)

text \<open>\<open>Counter\<close>: a slot of a group.\<close>

definition counter_increment :: "counter_group \<Rightarrow> thread \<Rightarrow> nat \<Rightarrow> counter_group option" where
  "counter_increment g t slot = group_increment g t slot"

definition counter_add :: "counter_group \<Rightarrow> thread \<Rightarrow> nat \<Rightarrow> u64 \<Rightarrow> counter_group option" where
  "counter_add g t slot v = group_add g t slot v"

definition counter_value :: "counter_group \<Rightarrow> nat \<Rightarrow> u64" where
  "counter_value g slot = group_value g slot"

abbreviation run_adds :: "counter_group \<Rightarrow> add_step list \<Rightarrow> unit + counter_group" where
  "run_adds g us \<equiv> run_ok (\<lambda>g u. case group_apply g u of None \<Rightarrow> Inl () | Some g' \<Rightarrow> Inr g') g us"

lemma run_adds_defined:
  "group_ok g \<Longrightarrow> \<forall>u\<in>set us. add_step_ok u \<Longrightarrow> \<exists>g'. run_adds g us = Inr g'"
proof (induction us arbitrary: g)
  case Nil
  then show ?case by simp
next
  case (Cons u us)
  then obtain g1 where g1: "group_apply g u = Some g1"
    using group_add_defined by (fastforce simp: group_apply_def add_step_ok_def)
  then have "group_ok g1" using Cons.prems(1) by (auto simp: group_apply_def intro: group_add_ok)
  with Cons g1 show ?case by simp
qed

text \<open>
  No update is lost and no slot leaks into another: after any interleaving of adds by any
  threads, sharing shards or not, no add panics and the value of every counter of the group is the
  sum (modulo 2 to the 64) of exactly the adds made to its slot.
\<close>

theorem counter_value_is_sum:
  assumes "\<forall>u\<in>set us. add_step_ok u" and "slot < SLOTS"
  shows "\<exists>g. run_adds group_new us = Inr g \<and> counter_value g slot = (\<Sum>u\<leftarrow>us. step_amount slot u)"
proof -
  obtain g where g: "run_adds group_new us = Inr g"
    using run_adds_defined [OF group_new_ok assms(1)] by blast
  then show ?thesis
    using slot_counter.add_all_total [OF group_new_ok g, of slot] assms(2)
    by (simp add: counter_value_def)
qed

theorem counter_value_is_sum_witness:
  "\<exists>g. run_adds group_new
        [\<lparr>by_thread = \<lparr>shard_id = Some 1, tls_addr = 0\<rparr>, to_slot = 2, added = 5\<rparr>,
         \<lparr>by_thread = \<lparr>shard_id = None, tls_addr = 257\<rparr>, to_slot = 2, added = 6\<rparr>,
         \<lparr>by_thread = \<lparr>shard_id = Some 3, tls_addr = 0\<rparr>, to_slot = 0, added = 7\<rparr>] = Inr g \<and>
       counter_value g 2 = 11"
proof -
  let ?us = "[\<lparr>by_thread = \<lparr>shard_id = Some 1, tls_addr = 0\<rparr>, to_slot = 2, added = 5\<rparr>,
         \<lparr>by_thread = \<lparr>shard_id = None, tls_addr = 257\<rparr>, to_slot = 2, added = 6\<rparr>,
         \<lparr>by_thread = \<lparr>shard_id = Some 3, tls_addr = 0\<rparr>, to_slot = 0, added = 7\<rparr>] :: add_step list"
  have "\<forall>u\<in>set ?us. add_step_ok u" by (simp add: add_step_ok_def thread_ok_def)
  from counter_value_is_sum [OF this, of 2] show ?thesis by (simp add: step_amount_def)
qed

section \<open>Gauges\<close>

record gauge =
  gauge_shards :: "u64 list"

definition gauge_new :: gauge where
  "gauge_new = \<lparr>gauge_shards = replicate NUM_SHARDS 0\<rparr>"

definition gauge_add :: "gauge \<Rightarrow> thread \<Rightarrow> u64 \<Rightarrow> gauge option" where
  "gauge_add g t delta =
     (let s = shard_index t in
      if s < length (gauge_shards g)
      then Some (g\<lparr>gauge_shards := (gauge_shards g)[s := gauge_shards g ! s + delta]\<rparr>)
      else None)"

definition gauge_increment :: "gauge \<Rightarrow> thread \<Rightarrow> gauge option" where
  "gauge_increment g t = gauge_add g t 1"

definition gauge_decrement :: "gauge \<Rightarrow> thread \<Rightarrow> gauge option" where
  "gauge_decrement g t = gauge_add g t (-1)"

text \<open>An \<open>i64\<close> is the word read as two's complement.\<close>

definition gauge_value :: "gauge \<Rightarrow> int" where
  "gauge_value g = sint (\<Sum>s\<leftarrow>gauge_shards g. s)"

definition gauge_ok :: "gauge \<Rightarrow> bool" where
  "gauge_ok g \<longleftrightarrow> length (gauge_shards g) = NUM_SHARDS"

datatype gauge_step = Up thread | Down thread

fun gauge_apply :: "gauge \<Rightarrow> gauge_step \<Rightarrow> gauge option" where
  "gauge_apply g (Up t) = gauge_increment g t"
| "gauge_apply g (Down t) = gauge_decrement g t"

fun gauge_amount :: "gauge_step \<Rightarrow> u64" where
  "gauge_amount (Up t) = 1"
| "gauge_amount (Down t) = -1"

fun gauge_signed :: "gauge_step \<Rightarrow> int" where
  "gauge_signed (Up t) = 1"
| "gauge_signed (Down t) = -1"

interpretation sharded_gauge: accumulator gauge_ok "\<lambda>g. \<Sum>s\<leftarrow>gauge_shards g. s" gauge_apply gauge_amount
proof unfold_locales
  fix g u g' assume "gauge_ok g" and a: "gauge_apply g u = Some g'"
  then show "gauge_ok g'"
    by (cases u) (auto simp: gauge_increment_def gauge_decrement_def gauge_add_def gauge_ok_def Let_def
        split: if_splits)
  from a show "(\<Sum>s\<leftarrow>gauge_shards g'. s) = (\<Sum>s\<leftarrow>gauge_shards g. s) + gauge_amount u"
    by (cases u) (auto simp: gauge_increment_def gauge_decrement_def gauge_add_def Let_def
        sum_list_update_word split: if_splits)
qed

abbreviation run_gauge :: "gauge \<Rightarrow> gauge_step list \<Rightarrow> unit + gauge" where
  "run_gauge g us \<equiv> run_ok (\<lambda>g u. case gauge_apply g u of None \<Rightarrow> Inl () | Some g' \<Rightarrow> Inr g') g us"

lemma sum_gauge_amount: "(\<Sum>u\<leftarrow>us. gauge_amount u) = word_of_int (\<Sum>u\<leftarrow>us. gauge_signed u)"
proof (induction us)
  case (Cons u us)
  then show ?case by (cases u) (simp_all add: wi_hom_syms)
qed simp

lemma abs_sum_gauge_signed: "\<bar>\<Sum>u\<leftarrow>us. gauge_signed u\<bar> \<le> int (length us)"
proof (induction us)
  case (Cons u us)
  then show ?case by (cases u) auto
qed simp

text \<open>
  A gauge reads the number of increments minus the number of decrements, on every
  interleaving: a thread may decrement what another incremented (the shards of a connection that
  opens on one thread and closes on another go negative and still sum to the right value), for
  any history of fewer than 2 to the 63 steps.
\<close>

theorem gauge_value_is_difference:
  assumes run: "run_gauge gauge_new us = Inr g" and short: "length us < 2 ^ 63"
  shows "gauge_value g = (\<Sum>u\<leftarrow>us. gauge_signed u)"
proof -
  have "gauge_ok gauge_new" by (simp add: gauge_ok_def gauge_new_def)
  from sharded_gauge.add_all_total [OF this run]
  have "(\<Sum>s\<leftarrow>gauge_shards g. s) = word_of_int (\<Sum>u\<leftarrow>us. gauge_signed u)"
    by (simp add: gauge_new_def sum_gauge_amount sum_list_replicate)
  moreover have "- (2 ^ 63) \<le> (\<Sum>u\<leftarrow>us. gauge_signed u)" "(\<Sum>u\<leftarrow>us. gauge_signed u) < 2 ^ 63"
    using abs_sum_gauge_signed [of us] short by simp_all
  ultimately show ?thesis
    by (simp add: gauge_value_def sint_sbintrunc' signed_take_bit_int_eq_self)
qed

theorem gauge_value_is_difference_witness:
  "\<exists>g. run_gauge gauge_new [Up \<lparr>shard_id = Some 1, tls_addr = 0\<rparr>,
         Down \<lparr>shard_id = Some 2, tls_addr = 0\<rparr>, Down \<lparr>shard_id = Some 1, tls_addr = 0\<rparr>] = Inr g \<and>
       gauge_value g = -1"
proof -
  let ?us = "[Up \<lparr>shard_id = Some 1, tls_addr = 0\<rparr>, Down \<lparr>shard_id = Some 2, tls_addr = 0\<rparr>,
         Down \<lparr>shard_id = Some 1, tls_addr = 0\<rparr>]"
  obtain g where g: "run_gauge gauge_new ?us = Inr g"
    by (simp add: gauge_increment_def gauge_decrement_def gauge_add_def gauge_new_def shard_index_def)
  from gauge_value_is_difference [OF g] have "gauge_value g = -1" by simp
  with g show ?thesis by blast
qed

section \<open>Reading values\<close>

text \<open>
  \<open>ValueReader\<close> folds the CRC-32c of every value it reads into a digest and counts the bytes. The
  checksum is the crate \<open>crc_fast\<close>'s: an argument.
\<close>

record value_reader =
  digest :: u32
  values_read_bytes :: u64

definition vr_new :: value_reader where
  "vr_new = \<lparr>digest = 0, values_read_bytes = 0\<rparr>"

definition vr_read :: "(bytes \<Rightarrow> u32) \<Rightarrow> value_reader \<Rightarrow> bytes \<Rightarrow> value_reader" where
  "vr_read crc32c r value =
     r\<lparr>digest := Bit_Operations.xor (word_rotl 1 (digest r)) (crc32c value),
       values_read_bytes := values_read_bytes r + of_nat (length value)\<rparr>"

end
