(* ===== verification/Keys.thy ===== *)
theory Keys
  imports Prelude
begin

unbundle bit_operations_syntax

text \<open>
  Keys and seeds (\<open>src/worker.rs\<close>, \<open>write_key\<close>, \<open>connection_seed\<close>, \<open>splitmix64\<close>): how a key id becomes
  the bytes of a key, and how a connection gets its random stream. Key ids are machine words as
  naturals, seeds are 64-bit words.
\<close>

section \<open>Rendering a key id\<close>

datatype key_format = Hex | Uuid

definition HEX :: "u8 list" where
  "HEX = [48, 49, 50, 51, 52, 53, 54, 55, 56, 57, 97, 98, 99, 100, 101, 102]"

text \<open>The two loops run over the buffer from its end; \<open>len\<close> is how much of it is still to be filled.\<close>

fun hex_fill :: "nat \<Rightarrow> nat \<Rightarrow> bytes" where
  "hex_fill 0 n = []"
| "hex_fill (Suc len) n = hex_fill len (n div 16) @ [HEX ! (n mod 16)]"

definition is_dash :: "nat \<Rightarrow> bool" where
  "is_dash i \<longleftrightarrow> i = 8 \<or> i = 13 \<or> i = 18 \<or> i = 23"

fun uuid_fill :: "nat \<Rightarrow> nat \<Rightarrow> bytes" where
  "uuid_fill 0 n = []"
| "uuid_fill (Suc i) n =
     (if is_dash i then uuid_fill i n @ [45] else uuid_fill i (n div 16) @ [HEX ! (n mod 16)])"

definition write_key :: "key_format \<Rightarrow> nat \<Rightarrow> nat \<Rightarrow> bytes" where
  "write_key fmt len key_id = (if fmt = Uuid \<and> len = 36 then uuid_fill len key_id else hex_fill len key_id)"

section \<open>Seeds\<close>

datatype seed_role = Reader | Append | Dispatcher

primrec role_as_u64 :: "seed_role \<Rightarrow> u64" where
  "role_as_u64 Reader = 0"
| "role_as_u64 Append = 1"
| "role_as_u64 Dispatcher = 2"

definition splitmix64 :: "u64 \<Rightarrow> u64" where
  "splitmix64 x =
     (let z = x + 0x9E3779B97F4A7C15;
          z = (z XOR drop_bit 30 z) * 0xBF58476D1CE4E5B9;
          z = (z XOR drop_bit 27 z) * 0x94D049BB133111EB
      in z XOR drop_bit 31 z)"

definition seed_position :: "seed_role \<Rightarrow> nat \<Rightarrow> nat \<Rightarrow> u64" where
  "seed_position role worker_id i =
     push_bit 62 (role_as_u64 role) XOR push_bit 32 (word_of_nat worker_id) XOR word_of_nat i"

definition connection_seed :: "u64 \<Rightarrow> seed_role \<Rightarrow> nat \<Rightarrow> nat \<Rightarrow> u64" where
  "connection_seed run_seed role worker_id i = splitmix64 (run_seed XOR splitmix64 (seed_position role worker_id i))"

section \<open>A key determines its id\<close>

text \<open>What a reader of the key recovers: the hexadecimal number, dashes skipped.\<close>

definition hex_val :: "u8 \<Rightarrow> nat" where
  "hex_val b = (if b \<le> 57 then unat b - 48 else unat b - 87)"

definition key_digit :: "nat \<Rightarrow> u8 \<Rightarrow> nat" where
  "key_digit acc b = (if b = 45 then acc else acc * 16 + hex_val b)"

definition read_key :: "bytes \<Rightarrow> nat" where
  "read_key bs = foldl key_digit 0 bs"

lemma hex_digit: "n < 16 \<Longrightarrow> hex_val (HEX ! n) = n \<and> HEX ! n \<noteq> 45"
proof -
  assume "n < 16"
  moreover have "\<forall>n\<in>set [0..<16]. hex_val (HEX ! n) = n \<and> HEX ! n \<noteq> 45" by code_simp
  ultimately show ?thesis by simp
qed

lemma read_key_snoc [simp]: "read_key (bs @ [b]) = key_digit (read_key bs) b"
  by (simp add: read_key_def)

lemma key_digit_hex: "m < 16 \<Longrightarrow> key_digit acc (HEX ! m) = acc * 16 + m"
  using hex_digit [of m] by (simp add: key_digit_def)

lemma div_mod_step: "(n div 16 mod 16 ^ k) * 16 + n mod 16 = n mod (16::nat) ^ Suc k"
  using mod_mult2_eq [of n 16 "16 ^ k"] by (simp add: mult.commute)

lemma hex_fill_spec: "length (hex_fill len n) = len \<and> read_key (hex_fill len n) = n mod 16 ^ len"
proof (induction len arbitrary: n)
  case 0
  then show ?case by (simp add: read_key_def)
next
  case (Suc len)
  then show ?case using div_mod_step [of n len] by (simp add: key_digit_hex)
qed

definition digits_below :: "nat \<Rightarrow> nat" where
  "digits_below i = length (filter (\<lambda>j. \<not> is_dash j) [0..<i])"

lemma uuid_fill_spec: "length (uuid_fill i n) = i \<and> read_key (uuid_fill i n) = n mod 16 ^ digits_below i"
proof (induction i arbitrary: n)
  case 0
  then show ?case by (simp add: read_key_def digits_below_def)
next
  case (Suc i)
  have d: "digits_below (Suc i) = (if is_dash i then digits_below i else Suc (digits_below i))"
    by (simp add: digits_below_def)
  show ?case
  proof (cases "is_dash i")
    case True
    then show ?thesis using Suc by (simp add: d key_digit_def)
  next
    case False
    then show ?thesis using Suc div_mod_step [of n "digits_below i"] by (simp add: d key_digit_hex)
  qed
qed

lemma digits_36: "digits_below 36 = 32"
  unfolding digits_below_def is_dash_def by code_simp

text \<open>
  C31. A key can be read back. The key of an id fills the buffer exactly and reads back as the id
  modulo 16 to the number of hexadecimal digits it has, in the plain form and in the UUID form (which
  has 32 digits and its dashes at the canonical positions). So two ids give the same key only if they
  agree modulo that power: distinct ids of a keyspace get distinct keys whenever the key is long
  enough for the keyspace, and always in the UUID form.
\<close>

theorem write_key_reads_back:
  defines "digits fmt len \<equiv> if fmt = Uuid \<and> len = 36 then 32 else len"
  shows "length (write_key fmt len k) = len \<and>
    read_key (write_key fmt len k) = k mod 16 ^ digits fmt len \<and>
    (write_key fmt len k = write_key fmt len j \<longrightarrow> k mod 16 ^ digits fmt len = j mod 16 ^ digits fmt len) \<and>
    (fmt = Uuid \<and> len = 36 \<longrightarrow> (\<forall>i\<in>{8, 13, 18, 23}. write_key fmt len k ! i = 45))"
proof -
  have spec: "length (write_key fmt len n) = len \<and> read_key (write_key fmt len n) = n mod 16 ^ digits fmt len" for n
    using hex_fill_spec [of len n] uuid_fill_spec [of 36 n] by (auto simp: write_key_def digits_def digits_36)
  have dash: "uuid_fill len n ! i = 45" if "is_dash i" "i < len" for len n i
    using that
  proof (induction len arbitrary: n)
    case (Suc len)
    then show ?case using uuid_fill_spec [of len] by (auto simp: nth_append less_Suc_eq)
  qed simp
  have "\<forall>i\<in>{8, 13, 18, 23}. write_key fmt len k ! i = 45" if "fmt = Uuid \<and> len = 36"
    using that dash [where len = 36] by (simp add: write_key_def is_dash_def)
  then show ?thesis using spec [of k] spec [of j] by metis
qed

theorem write_key_reads_back_witness:
  "write_key Hex 4 48879 = [98, 101, 101, 102] \<and> read_key (write_key Hex 4 48879) = 48879"
proof -
  have "read_key (write_key Hex 4 48879) = 48879" using write_key_reads_back [of Hex 4 48879 0] by simp
  moreover have "write_key Hex 4 48879 = [98, 101, 101, 102]" by code_simp
  ultimately show ?thesis by simp
qed

section \<open>Seeds do not collide\<close>

lemma xorshift_inj:
  fixes x y :: "'a::len word"
  assumes k: "0 < k" and eq: "x XOR drop_bit k x = y XOR drop_bit k y"
  shows "x = y"
proof -
  have "bit x n = bit y n" if "n < LENGTH('a)" for n
    using that
  proof (induction "LENGTH('a) - n" arbitrary: n rule: less_induct)
    case less
    have "bit x (n + k) = bit y (n + k)"
    proof (cases "n + k < LENGTH('a)")
      case True
      then show ?thesis using less k by simp
    next
      case False
      then show ?thesis by (meson bit_imp_le_length not_less)
    qed
    moreover have "bit (x XOR drop_bit k x) n = bit (y XOR drop_bit k y) n" using eq by simp
    ultimately show ?case by (auto simp: bit_simps add.commute)
  qed
  then show ?thesis by (rule bit_word_eqI)
qed

lemma mult_unit_inj: "(c * d :: 'a::len word) = 1 \<Longrightarrow> x * c = y * c \<Longrightarrow> x = y"
  by (metis mult.assoc mult.right_neutral)

lemma splitmix64_inj: "splitmix64 x = splitmix64 y \<Longrightarrow> x = y"
proof -
  assume eq: "splitmix64 x = splitmix64 y"
  have c1: "(0xBF58476D1CE4E5B9 * 10871156337175269513 :: u64) = 1" by simp
  have c2: "(0x94D049BB133111EB * 3573116690164977347 :: u64) = 1" by simp
  define f where "f x = (x + 0x9E3779B97F4A7C15 :: u64)" for x
  define g where "g x = (f x XOR drop_bit 30 (f x)) * 0xBF58476D1CE4E5B9" for x
  define h where "h x = (g x XOR drop_bit 27 (g x)) * 0x94D049BB133111EB" for x
  have "h x XOR drop_bit 31 (h x) = h y XOR drop_bit 31 (h y)"
    using eq by (simp only: splitmix64_def Let_def h_def g_def f_def)
  then have "h x = h y" using xorshift_inj [of 31] by simp
  then have "g x XOR drop_bit 27 (g x) = g y XOR drop_bit 27 (g y)" unfolding h_def by (rule mult_unit_inj [OF c2])
  then have "g x = g y" using xorshift_inj [of 27] by simp
  then have "f x XOR drop_bit 30 (f x) = f y XOR drop_bit 30 (f y)" unfolding g_def by (rule mult_unit_inj [OF c1])
  then have "f x = f y" using xorshift_inj [of 30] by simp
  then show "x = y" by (simp add: f_def)
qed

lemma nat_bits_high: "i < 2 ^ k \<Longrightarrow> k \<le> n \<Longrightarrow> \<not> bit (i::nat) n"
proof -
  assume "i < 2 ^ k" and "k \<le> n"
  then have "i < 2 ^ n" by (meson less_le_trans one_le_numeral power_increasing)
  then show ?thesis by (simp add: bit_iff_odd)
qed

lemma seed_position_bits:
  assumes "worker_id < 2 ^ 30" and "i < 2 ^ 32" and "n < 64"
  shows "bit (seed_position role worker_id i) n =
    (if n < 32 then bit i n else if n < 62 then bit worker_id (n - 32) else bit (role_as_u64 role) (n - 62))"
proof -
  have i: "\<not> bit i m" if "32 \<le> m" for m using nat_bits_high [OF assms(2) that] .
  have w: "\<not> bit worker_id m" if "30 \<le> m" for m using nat_bits_high [OF assms(1) that] .
  show ?thesis
    using assms(3) i [of n] w [of "n - 32"]
    by (auto simp: seed_position_def bit_simps)
qed

lemma role_bits: "role_as_u64 r = role_as_u64 r' \<longleftrightarrow> r = r'"
  by (cases r; cases r') simp_all

lemma seed_position_inj:
  assumes w: "w < 2 ^ 30" "w' < 2 ^ 30" and i: "i < 2 ^ 32" "i' < 2 ^ 32"
    and eq: "seed_position r w i = seed_position r' w' i'"
  shows "r = r' \<and> w = w' \<and> i = i'"
proof -
  have b: "bit (seed_position r w i) n = bit (seed_position r' w' i') n" for n using eq by simp
  note P = seed_position_bits [OF w(1) i(1)] seed_position_bits [OF w(2) i(2)]
  have "bit i n = bit i' n" for n
    using b [of n] P [of n] nat_bits_high [OF i(1), of n] nat_bits_high [OF i(2), of n] by (cases "n < 32") auto
  then have 1: "i = i'" by (rule bit_eqI)
  have "bit w n = bit w' n" for n
    using b [of "n + 32"] P [of "n + 32"] nat_bits_high [OF w(1), of n] nat_bits_high [OF w(2), of n]
    by (cases "n < 30") auto
  then have 2: "w = w'" by (rule bit_eqI)
  have "bit (role_as_u64 r) n = bit (role_as_u64 r') n" for n
  proof (cases "n < 2")
    case True
    then show ?thesis using b [of "n + 62"] P [of "n + 62"] by simp
  next
    case False
    have "\<not> bit (role_as_u64 q) n" for q
    proof -
      have "role_as_u64 q \<in> {0, 1, 2}" by (cases q) simp_all
      moreover have "\<not> bit (0::u64) n" "\<not> bit (1::u64) n" "\<not> bit (2::u64) n"
        using False by (auto simp: bit_simps bit_2_iff)
      ultimately show ?thesis by auto
    qed
    then show ?thesis by simp
  qed
  then have "role_as_u64 r = role_as_u64 r'" by (rule bit_eqI)
  then show ?thesis using 1 2 role_bits by simp
qed

text \<open>
  C32. No two connections of a run draw the same stream, and no position draws the same stream in
  two runs of different seed. For fewer than 2^30 workers and 2^32 connections per worker, seeds of
  one run are equal only for the same role, worker and index; and at one position, distinct run seeds
  give distinct seeds.
\<close>

theorem connection_seeds_distinct:
  assumes "w < 2 ^ 30" and "w' < 2 ^ 30" and "i < 2 ^ 32" and "i' < 2 ^ 32"
  shows "(connection_seed s r w i = connection_seed s r' w' i' \<longrightarrow> r = r' \<and> w = w' \<and> i = i') \<and>
    (connection_seed s r w i = connection_seed s' r w i \<longrightarrow> s = s')"
proof -
  have undo: "a XOR (a XOR b) = b" "(b XOR a) XOR a = b" for a b :: u64
    by (simp_all add: xor.assoc flip: xor.assoc [of a a])
  have cancel: "a XOR b = a XOR c \<Longrightarrow> b = c" "b XOR a = c XOR a \<Longrightarrow> b = c" for a b c :: u64
    using undo by metis+
  have "r = r' \<and> w = w' \<and> i = i'" if "connection_seed s r w i = connection_seed s r' w' i'"
  proof -
    have "s XOR splitmix64 (seed_position r w i) = s XOR splitmix64 (seed_position r' w' i')"
      using that unfolding connection_seed_def by (rule splitmix64_inj)
    then have "seed_position r w i = seed_position r' w' i'" using cancel(1) splitmix64_inj by blast
    then show ?thesis using seed_position_inj assms by blast
  qed
  moreover have "s = s'" if "connection_seed s r w i = connection_seed s' r w i"
    using that unfolding connection_seed_def by (rule cancel(2) [OF splitmix64_inj])
  ultimately show ?thesis by blast
qed

theorem connection_seeds_distinct_witness:
  "connection_seed 42 Reader 3 7 \<noteq> connection_seed 42 Append 3 7 \<and> connection_seed 1 Reader 0 0 \<noteq> connection_seed 2 Reader 0 0"
  using connection_seeds_distinct [of 3 3 7 7 42 Reader Append] connection_seeds_distinct [of 0 0 0 0 1 Reader Reader 2]
  by simp

end
