(* ===== verification/F64.thy ===== *)
theory F64
  imports Complex_Main Prelude
begin

text \<open>
  Rust's \<open>f64\<close> as far as the program uses it: IEEE 754 binary64 with round-to-nearest, ties to
  even, and the saturating \<open>as\<close> casts. A finite value is the rational number it denotes; the two
  zeros are one value, which no comparison, sum, product or cast of the program tells apart. Every
  operation rounds its exact result, so the model computes what the hardware computes.
\<close>

section \<open>Rounding\<close>

datatype f64 = NaN | Inf bool \<comment> \<open>\<open>Inf True\<close> is minus infinity\<close> | Fin rat

fun nat_bits :: "nat \<Rightarrow> nat" where
  "nat_bits n = (if n = 0 then 0 else Suc (nat_bits (n div 2)))"

declare nat_bits.simps [simp del]

definition pow2 :: "int \<Rightarrow> rat" where
  "pow2 k = (if 0 \<le> k then of_int (2 ^ nat k) else Fract 1 (2 ^ nat (- k)))"

text \<open>The exponent of a positive rational: the largest power of two not above it.\<close>

definition flog2 :: "rat \<Rightarrow> int" where
  "flog2 q = (let (n, d) = quotient_of q;
                  k = int (nat_bits (nat n)) - int (nat_bits (nat d))
              in if pow2 k \<le> q then k else k - 1)"

definition round_half_even :: "rat \<Rightarrow> int" where
  "round_half_even x =
     (let f = \<lfloor>x\<rfloor>; r = x - of_int f in
      if r < 1 / 2 then f else if r > 1 / 2 then f + 1 else if even f then f else f + 1)"

text \<open>
  Rounding to 53 significant bits, subnormals included. The quantum is two to the \<open>e - 52\<close>; a
  result of magnitude two to the 1024 or more is infinite.
\<close>

definition rnd :: "rat \<Rightarrow> f64" where
  "rnd q = (if q = 0 then Fin 0
            else let e = max (flog2 \<bar>q\<bar>) (-1022);
                     m = round_half_even (q / pow2 (e - 52))
                 in if e > 1023 \<or> e = 1023 \<and> \<bar>m\<bar> \<ge> 9007199254740992 then Inf (q < 0)
                    else Fin (of_int m * pow2 (e - 52)))"

section \<open>Operations\<close>

fun f_add :: "f64 \<Rightarrow> f64 \<Rightarrow> f64" where
  "f_add (Fin a) (Fin b) = rnd (a + b)"
| "f_add NaN _ = NaN"
| "f_add _ NaN = NaN"
| "f_add (Inf s) (Inf t) = (if s = t then Inf s else NaN)"
| "f_add (Inf s) (Fin _) = Inf s"
| "f_add (Fin _) (Inf s) = Inf s"

fun f_neg :: "f64 \<Rightarrow> f64" where
  "f_neg NaN = NaN"
| "f_neg (Inf s) = Inf (\<not> s)"
| "f_neg (Fin a) = Fin (- a)"

definition f_sub :: "f64 \<Rightarrow> f64 \<Rightarrow> f64" where
  "f_sub x y = f_add x (f_neg y)"

fun f_mul :: "f64 \<Rightarrow> f64 \<Rightarrow> f64" where
  "f_mul (Fin a) (Fin b) = rnd (a * b)"
| "f_mul NaN _ = NaN"
| "f_mul _ NaN = NaN"
| "f_mul (Inf s) (Inf t) = Inf (s \<noteq> t)"
| "f_mul (Inf s) (Fin b) = (if b = 0 then NaN else Inf (s \<noteq> (b < 0)))"
| "f_mul (Fin a) (Inf t) = (if a = 0 then NaN else Inf (t \<noteq> (a < 0)))"

text \<open>Division by zero follows the sign of the dividend (the program divides by non-negative values).\<close>

fun f_div :: "f64 \<Rightarrow> f64 \<Rightarrow> f64" where
  "f_div (Fin a) (Fin b) =
     (if b = 0 then (if a = 0 then NaN else Inf (a < 0)) else rnd (a / b))"
| "f_div NaN _ = NaN"
| "f_div _ NaN = NaN"
| "f_div (Inf s) (Inf t) = NaN"
| "f_div (Inf s) (Fin b) = Inf (s \<noteq> (b < 0))"
| "f_div (Fin a) (Inf t) = Fin 0"

fun f_lt :: "f64 \<Rightarrow> f64 \<Rightarrow> bool" where
  "f_lt (Fin a) (Fin b) = (a < b)"
| "f_lt NaN _ = False"
| "f_lt _ NaN = False"
| "f_lt (Inf s) (Inf t) = (s \<and> \<not> t)"
| "f_lt (Inf s) (Fin _) = s"
| "f_lt (Fin _) (Inf t) = (\<not> t)"

fun f_eq :: "f64 \<Rightarrow> f64 \<Rightarrow> bool" where
  "f_eq NaN _ = False"
| "f_eq _ NaN = False"
| "f_eq x y = (x = y)"

definition f_le :: "f64 \<Rightarrow> f64 \<Rightarrow> bool" where
  "f_le x y \<longleftrightarrow> f_lt x y \<or> f_eq x y"

fun is_finite :: "f64 \<Rightarrow> bool" where
  "is_finite (Fin _) = True"
| "is_finite _ = False"

definition f_of_nat :: "nat \<Rightarrow> f64" where
  "f_of_nat n = rnd (of_nat n)"

text \<open>\<open>x as u64\<close>: truncates towards zero, saturates at both ends, and sends NaN to 0.\<close>

fun f_as_u64 :: "f64 \<Rightarrow> nat" where
  "f_as_u64 NaN = 0"
| "f_as_u64 (Inf s) = (if s then 0 else U64_MAX)"
| "f_as_u64 (Fin q) = (if q \<le> 0 then 0 else min (nat \<lfloor>q\<rfloor>) U64_MAX)"

text \<open>
  \<open>Duration::from_secs_f64\<close>, in nanoseconds: rounds to the nearest, ties to even; \<open>None\<close> where it
  panics (negative, not finite or too large).
\<close>

abbreviation DURATION_MAX :: nat where "DURATION_MAX \<equiv> 18446744073709551615999999999"

fun duration_from_secs_f64 :: "f64 \<Rightarrow> nat option" where
  "duration_from_secs_f64 (Fin q) =
     (if q < 0 then None
      else let n = nat (round_half_even (q * 1000000000))
           in if n > DURATION_MAX then None else Some n)"
| "duration_from_secs_f64 _ = None"

section \<open>Rounding is faithful\<close>

lemma nat_bits_bounds: "n > 0 \<Longrightarrow> 2 ^ (nat_bits n - 1) \<le> n \<and> n < 2 ^ nat_bits n \<and> nat_bits n > 0"
proof (induction n rule: nat_bits.induct)
  case (1 n)
  show ?case
  proof (cases "n div 2 = 0")
    case True
    with 1 have "n = 1" by simp
    then show ?thesis using nat_bits.simps [of 1] nat_bits.simps [of 0] by simp
  next
    case False
    with 1 have IH: "2 ^ (nat_bits (n div 2) - 1) \<le> n div 2" "n div 2 < 2 ^ nat_bits (n div 2)"
      "nat_bits (n div 2) > 0" by simp_all
    have "(2::nat) ^ nat_bits (n div 2) = 2 * 2 ^ (nat_bits (n div 2) - 1)"
      using IH(3) by (metis power_eq_if not_gr_zero mult.commute)
    with IH show ?thesis using "1.prems" by (simp add: nat_bits.simps [of n]) linarith
  qed
qed

lemma pow2_pos [simp]: "pow2 k > 0"
  by (simp add: pow2_def zero_less_Fract_iff)

lemma pow2_nonneg [simp]: "0 \<le> pow2 k"
  by (rule less_imp_le) simp

lemma pow2_nonzero [simp]: "pow2 k \<noteq> 0"
  using pow2_pos [of k] by linarith

lemma round_half_even_int [simp]: "round_half_even (of_int n) = n"
  by (simp add: round_half_even_def)

lemma round_half_even_near: "\<bar>of_int (round_half_even x) - x\<bar> \<le> 1 / 2"
proof -
  define f where "f = \<lfloor>x\<rfloor>"
  have "of_int f \<le> x" "x < of_int f + 1" unfolding f_def by linarith+
  then show ?thesis
    unfolding round_half_even_def Let_def abs_if f_def [symmetric] by (auto split: if_splits)
qed

lemma round_half_even_mono: "x \<le> y \<Longrightarrow> round_half_even x \<le> round_half_even y"
proof -
  assume le: "x \<le> y"
  show ?thesis
  proof (cases "\<lfloor>x\<rfloor> = \<lfloor>y\<rfloor>")
    case True
    with le show ?thesis by (auto simp: round_half_even_def Let_def)
  next
    case False
    with le have "\<lfloor>x\<rfloor> + 1 \<le> \<lfloor>y\<rfloor>" using floor_mono [OF le] by linarith
    then show ?thesis by (auto simp: round_half_even_def Let_def)
  qed
qed

lemma pow2_nat: "pow2 (int k) = 2 ^ k"
  by (simp add: pow2_def)

lemma pow2_minus: "pow2 (- k) = 1 / pow2 k"
  by (auto simp: pow2_def Fract_of_int_quotient)

lemma pow2_add_nat: "pow2 (k + int n) = pow2 k * 2 ^ n"
proof (cases "0 \<le> k")
  case True
  then show ?thesis by (simp add: pow2_def nat_add_distrib power_add)
next
  case False
  define j where "j = nat (- k)"
  with False have k: "k = - int j" by simp
  show ?thesis
  proof (cases "j \<le> n")
    case True
    then have "k + int n = int (n - j)" by (simp add: k of_nat_diff)
    then have "pow2 (k + int n) = 2 ^ (n - j)" by (simp only: pow2_nat)
    then show ?thesis using True by (simp add: k pow2_minus pow2_nat power_diff)
  next
    case False
    then have "k + int n = - int (j - n)" by (simp add: k of_nat_diff)
    then have "pow2 (k + int n) = 1 / 2 ^ (j - n)" by (simp only: pow2_minus pow2_nat)
    then show ?thesis using False by (simp add: k pow2_minus pow2_nat power_diff)
  qed
qed

lemma pow2_add: "pow2 (a + b) = pow2 a * pow2 b"
proof (cases "0 \<le> b")
  case True
  then show ?thesis using pow2_add_nat [of a "nat b"] by (simp add: pow2_def)
next
  case False
  then have "pow2 a = pow2 (a + b) * pow2 (- b)"
    using pow2_add_nat [of "a + b" "nat (- b)"] by (simp add: pow2_def)
  then show ?thesis by (simp add: pow2_minus)
qed

lemma pow2_mono: "a \<le> b \<Longrightarrow> pow2 a \<le> pow2 b"
  using pow2_add_nat [of a "nat (b - a)"] by simp

lemma pow2_less_cancel: "pow2 a < pow2 b \<Longrightarrow> a < b"
  using pow2_mono [of b a] by (meson leD not_le)

text \<open>\<open>flog2\<close> is the exponent of its argument.\<close>

lemma flog2_bounds:
  assumes "q > 0"
  shows "pow2 (flog2 q) \<le> q \<and> q < pow2 (flog2 q + 1)"
proof -
  obtain n d where nd: "quotient_of q = (n, d)" by (cases "quotient_of q")
  have d: "d > 0" using nd by (rule quotient_of_denom_pos)
  have q: "q = of_int n / of_int d" using nd by (rule quotient_of_div)
  have n: "n > 0" using assms d q by (simp add: zero_less_divide_iff)
  define bn bd where "bn = nat_bits (nat n)" and "bd = nat_bits (nat d)"
  have N: "2 ^ (bn - 1) \<le> nat n" "nat n < 2 ^ bn" "bn > 0"
    and D: "2 ^ (bd - 1) \<le> nat d" "nat d < 2 ^ bd" "bd > 0"
    using nat_bits_bounds [of "nat n"] nat_bits_bounds [of "nat d"] n d by (simp_all add: bn_def bd_def)
  have N': "pow2 (int bn - 1) \<le> of_int n" "of_int n < pow2 (int bn)"
    and D': "pow2 (int bd - 1) \<le> of_int d" "of_int d < pow2 (int bd)"
  proof -
    have e: "int b - 1 = int (b - 1)" if "b > 0" for b using that by simp
    have c: "(2::rat) ^ b \<le> of_int m \<longleftrightarrow> 2 ^ b \<le> nat m" "of_int m < (2::rat) ^ b \<longleftrightarrow> nat m < 2 ^ b"
      if "m > 0" for b m
    proof -
      have "(2::rat) ^ b = of_int (2 ^ b)" by simp
      then show "(2::rat) ^ b \<le> of_int m \<longleftrightarrow> 2 ^ b \<le> nat m" "of_int m < (2::rat) ^ b \<longleftrightarrow> nat m < 2 ^ b"
        using that by (simp_all only: of_int_le_iff of_int_less_iff)
          (simp_all add: nat_less_iff le_nat_iff)
    qed
    show "pow2 (int bn - 1) \<le> of_int n" "of_int n < pow2 (int bn)"
      using N c [OF n] by (simp_all only: e [OF N(3)] pow2_nat)
    show "pow2 (int bd - 1) \<le> of_int d" "of_int d < pow2 (int bd)"
      using D c [OF d] by (simp_all only: e [OF D(3)] pow2_nat)
  qed
  have d': "(of_int d :: rat) > 0" using d by simp
  have lo: "pow2 (int bn - int bd - 1) \<le> q"
  proof -
    have "pow2 (int bn - int bd - 1) * of_int d \<le> pow2 (int bn - int bd - 1) * pow2 (int bd)"
      using D'(2) by (intro mult_left_mono) auto
    also have "\<dots> = pow2 (int bn - 1)" by (simp add: pow2_add [symmetric])
    also have "\<dots> \<le> of_int n" by (rule N'(1))
    finally show ?thesis using d' by (simp add: q pos_le_divide_eq)
  qed
  have hi: "q < pow2 (int bn - int bd + 1)"
  proof -
    have "of_int n < pow2 (int bn)" by (rule N'(2))
    also have "\<dots> = pow2 (int bn - int bd + 1) * pow2 (int bd - 1)" by (simp add: pow2_add [symmetric])
    also have "\<dots> \<le> pow2 (int bn - int bd + 1) * of_int d"
      using D'(1) by (intro mult_left_mono) (auto intro: less_imp_le)
    finally show ?thesis using d' by (simp add: q pos_divide_less_eq)
  qed
  have "flog2 q = (if pow2 (int bn - int bd) \<le> q then int bn - int bd else int bn - int bd - 1)"
    by (simp add: flog2_def nd bn_def bd_def)
  then show ?thesis using lo hi by auto
qed

lemma flog2_nonneg: "1 \<le> q \<Longrightarrow> 0 \<le> flog2 q"
  using flog2_bounds [of q] pow2_less_cancel [of 0 "flog2 q + 1"] by (force simp: pow2_def)

lemma flog2_le: "0 < q \<Longrightarrow> q < pow2 k \<Longrightarrow> flog2 q < k"
  using flog2_bounds [of q] pow2_less_cancel [of "flog2 q" k] by linarith

text \<open>Integers of at most 53 bits are represented exactly.\<close>

lemma f_of_nat_exact:
  assumes "n \<le> 2 ^ 53"
  shows "f_of_nat n = Fin (of_nat n)"
proof (cases "n = 0")
  case True
  then show ?thesis by (simp add: f_of_nat_def rnd_def)
next
  case False
  let ?q = "of_nat n :: rat"
  let ?e = "flog2 ?q"
  have pos: "0 < ?q" and one: "1 \<le> ?q" using False by simp_all
  have e0: "0 \<le> ?e" using one by (rule flog2_nonneg)
  have qle: "?q \<le> 2 ^ 53" using assms by (metis of_nat_le_iff of_nat_numeral of_nat_power)
  then have "?q < pow2 54" by (simp add: pow2_def)
  then have e: "?e \<le> 53" using flog2_le [OF pos, of 54] by simp
  obtain k :: int where k: "?q = of_int k * pow2 (?e - 52)"
  proof (cases "?e \<le> 52")
    case True
    define j where "j = nat (52 - ?e)"
    then have j: "?e - 52 = - int j" using True by simp
    have "?q = of_int (int n * 2 ^ j) * pow2 (?e - 52)" by (simp add: j pow2_minus pow2_nat)
    then show ?thesis by (rule that)
  next
    case False
    then have e53: "?e = 53" using e by simp
    then have "2 ^ 53 \<le> ?q" using flog2_bounds [OF pos] by (simp add: pow2_def)
    then have "?q = of_int (2 ^ 52) * pow2 (53 - 52)" using qle by (simp add: pow2_def)
    moreover have "pow2 (?e - 52) = pow2 (53 - 52)" using e53 by (rule arg_cong)
    ultimately have "?q = of_int (2 ^ 52) * pow2 (?e - 52)" by (rule trans [OF _ arg_cong [OF sym]])
    then show ?thesis by (rule that)
  qed
  have "round_half_even (?q / pow2 (?e - 52)) = k" by (subst k) simp
  then have "rnd ?q = Fin (of_int k * pow2 (?e - 52))"
    using False e e0 by (simp add: rnd_def Let_def max_def)
  then show ?thesis using k by (simp add: f_of_nat_def)
qed

text \<open>Rounding does not fall below an integer of at most 53 bits.\<close>

definition f_ge_nat :: "nat \<Rightarrow> f64 \<Rightarrow> bool" where
  "f_ge_nat n x \<longleftrightarrow> x = Inf False \<or> (\<exists>r. x = Fin r \<and> of_nat n \<le> r)"

lemma rnd_ge_nat:
  assumes n: "n \<le> 2 ^ 53" and q: "of_nat n \<le> q" and pos: "0 < q"
  shows "f_ge_nat n (rnd q)"
proof (cases "n = 0")
  case True
  have "0 \<le> round_half_even (q / pow2 k)" for k
    using round_half_even_mono [of 0 "q / pow2 k"] round_half_even_int [of 0] pos by (simp add: less_imp_le)
  then have "0 \<le> of_int (round_half_even (q / pow2 k)) * pow2 k" for k by simp
  then show ?thesis using True pos unfolding f_ge_nat_def rnd_def by (auto simp: Let_def)
next
  case False
  define e where "e = flog2 q"
  define m where "m = round_half_even (q / pow2 (e - 52))"
  have "1 \<le> (of_nat n :: rat)" using False by simp
  then have one: "1 \<le> q" using q by linarith
  have e0: "0 \<le> e" unfolding e_def by (rule flog2_nonneg [OF one])
  have low: "pow2 e \<le> q" using flog2_bounds [OF pos] by (simp add: e_def)
  have key: "of_nat n \<le> of_int m * pow2 (e - 52)"
  proof (cases "e \<le> 52")
    case True
    define j where "j = nat (52 - e)"
    have "e - 52 = - int j" using True by (simp add: j_def)
    then have j: "pow2 (e - 52) = 1 / 2 ^ j" using pow2_minus [of "int j"] pow2_nat [of j] by simp
    have "of_int (int n * 2 ^ j) \<le> q / pow2 (e - 52)" using q by (simp add: j)
    then have "int n * 2 ^ j \<le> m" using round_half_even_mono unfolding m_def by (metis round_half_even_int)
    then have "of_int (int n * 2 ^ j) \<le> (of_int m :: rat)" by (simp only: of_int_le_iff)
    then show ?thesis by (simp add: j field_simps)
  next
    case False
    have "pow2 e = pow2 (e - 52) * 2 ^ 52" using pow2_add_nat [of "e - 52" 52] by simp
    then have "of_int (2 ^ 52) \<le> q / pow2 (e - 52)" using low by (simp add: field_simps)
    then have "2 ^ 52 \<le> m" using round_half_even_mono unfolding m_def by (metis round_half_even_int)
    then have "of_int (2 ^ 52) \<le> (of_int m :: rat)" by (simp only: of_int_le_iff)
    moreover have "pow2 1 \<le> pow2 (e - 52)" by (rule pow2_mono) (use False in simp)
    ultimately have "of_int (2 ^ 52) * pow2 1 \<le> of_int m * pow2 (e - 52)" by (intro mult_mono) simp_all
    moreover have "of_nat n \<le> (2 ^ 53 :: rat)" using n by (metis of_nat_le_iff of_nat_numeral of_nat_power)
    ultimately show ?thesis by (simp add: pow2_def)
  qed
  have "rnd q = (if e > 1023 \<or> e = 1023 \<and> \<bar>m\<bar> \<ge> 9007199254740992 then Inf False else Fin (of_int m * pow2 (e - 52)))"
    using pos e0 by (simp add: rnd_def Let_def max_absorb1 e_def [symmetric] m_def [symmetric])
  then show ?thesis using key by (auto simp: f_ge_nat_def)
qed

lemma f_ge_nat_as_u64: "f_ge_nat n x \<Longrightarrow> n \<le> U64_MAX \<Longrightarrow> n \<le> f_as_u64 x"
  unfolding f_ge_nat_def by (auto simp: le_nat_iff le_floor_iff)

lemma f_mul_ge_nat:
  assumes n: "n \<le> 2 ^ 53" and pos: "0 < n" and x: "x = Inf False \<or> (\<exists>m. x = Fin m \<and> 1 \<le> m)"
  shows "n \<le> f_as_u64 (f_mul (f_of_nat n) x)"
proof -
  have le: "n \<le> U64_MAX" using n by simp
  from x show ?thesis
  proof
    assume "x = Inf False"
    then show ?thesis using le pos by (simp add: f_of_nat_exact [OF n])
  next
    assume "\<exists>m. x = Fin m \<and> 1 \<le> m"
    then obtain m where m: "x = Fin m" "1 \<le> m" by auto
    have "(of_nat n :: rat) \<le> of_nat n * m" using m(2) by (simp add: mult_le_cancel_left1)
    moreover have "0 < (of_nat n :: rat) * m" using pos m(2) by simp
    ultimately have "f_ge_nat n (rnd (of_nat n * m))" using rnd_ge_nat [OF n] by blast
    then show ?thesis using f_ge_nat_as_u64 [OF _ le] m(1) by (simp add: f_of_nat_exact [OF n])
  qed
qed

end
