(* ===== verification/Shared_State.thy ===== *)
theory Shared_State
  imports Prelude
begin

text \<open>
  The test phase and the counters the main thread and the workers share (\<open>src/worker.rs\<close>,
  \<open>Phase\<close>, \<open>SharedState\<close>). Each field is an atomic integer; an operation here is one atomic access,
  and additions wrap at 64 bits as \<open>fetch_add\<close> does.
\<close>

datatype phase = Connect | Precheck | Prefill | Warmup | Running | Stop

primrec phase_as_u8 :: "phase \<Rightarrow> nat" where
  "phase_as_u8 Connect = 0"
| "phase_as_u8 Precheck = 1"
| "phase_as_u8 Prefill = 2"
| "phase_as_u8 Warmup = 3"
| "phase_as_u8 Running = 4"
| "phase_as_u8 Stop = 5"

definition phase_from_u8 :: "nat \<Rightarrow> phase" where
  "phase_from_u8 v =
     (if v = 0 then Connect else if v = 1 then Precheck else if v = 2 then Prefill
      else if v = 3 then Warmup else if v = 4 then Running else Stop)"

definition is_recording :: "phase \<Rightarrow> bool" where "is_recording p \<longleftrightarrow> p = Running"
definition should_stop :: "phase \<Rightarrow> bool" where "should_stop p \<longleftrightarrow> p = Stop"

lemma phase_round_trip [simp]: "phase_from_u8 (phase_as_u8 p) = p"
  by (cases p) (simp_all add: phase_from_u8_def)

record shared_state =
  sh_phase :: nat
  sh_workers_started :: nat
  sh_precheck_done :: nat
  sh_prefill_complete :: nat
  sh_prefill_confirmed :: nat
  sh_prefill_total :: nat
  sh_append_confirmed :: nat
  sh_append_total :: nat

definition shared_new :: shared_state where
  "shared_new = \<lparr>sh_phase = phase_as_u8 Connect, sh_workers_started = 0, sh_precheck_done = 0,
     sh_prefill_complete = 0, sh_prefill_confirmed = 0, sh_prefill_total = 0, sh_append_confirmed = 0,
     sh_append_total = 0\<rparr>"

definition shared_phase :: "shared_state \<Rightarrow> phase" where
  "shared_phase s = phase_from_u8 (sh_phase s)"

definition set_phase :: "phase \<Rightarrow> shared_state \<Rightarrow> shared_state" where
  "set_phase p s = s\<lparr>sh_phase := phase_as_u8 p\<rparr>"

lemma shared_phase_set [simp]: "shared_phase (set_phase p s) = p"
  by (simp add: shared_phase_def set_phase_def)

definition mark_worker_started :: "shared_state \<Rightarrow> shared_state" where
  "mark_worker_started s = s\<lparr>sh_workers_started := wrapping_add (sh_workers_started s) 1\<rparr>"

definition mark_precheck_complete :: "shared_state \<Rightarrow> shared_state" where
  "mark_precheck_complete s = s\<lparr>sh_precheck_done := wrapping_add (sh_precheck_done s) 1\<rparr>"

definition mark_prefill_complete :: "shared_state \<Rightarrow> shared_state" where
  "mark_prefill_complete s = s\<lparr>sh_prefill_complete := wrapping_add (sh_prefill_complete s) 1\<rparr>"

definition add_prefill_confirmed :: "nat \<Rightarrow> shared_state \<Rightarrow> shared_state" where
  "add_prefill_confirmed n s = s\<lparr>sh_prefill_confirmed := wrapping_add (sh_prefill_confirmed s) n\<rparr>"

definition add_prefill_total :: "nat \<Rightarrow> shared_state \<Rightarrow> shared_state" where
  "add_prefill_total n s = s\<lparr>sh_prefill_total := wrapping_add (sh_prefill_total s) n\<rparr>"

definition add_append_confirmed :: "nat \<Rightarrow> shared_state \<Rightarrow> shared_state" where
  "add_append_confirmed n s = s\<lparr>sh_append_confirmed := wrapping_add (sh_append_confirmed s) n\<rparr>"

definition add_append_total :: "nat \<Rightarrow> shared_state \<Rightarrow> shared_state" where
  "add_append_total n s = s\<lparr>sh_append_total := wrapping_add (sh_append_total s) n\<rparr>"

end
