(* ===== verification/Endpoints.thy ===== *)
theory Endpoints
  imports Keys F64 Shared_State
begin

text \<open>
  Endpoints (\<open>src/worker.rs\<close>, \<open>src/runner.rs\<close>): which endpoint owns a key, the per-endpoint queues of
  keys to write (\<open>PrefillQueues\<close>, for prefill and for the append stream), which connections a worker
  has and which endpoint each serves.

  The slot hash is \<open>resp_proto::hash_slot\<close> and the ketama ring is a crate: \<open>hash_slot\<close> and \<open>ring\<close> are
  arguments. A router is a slot table or none. Indexing out of range panics: \<open>None\<close>. The queues are
  each behind a lock, and one operation is one locked access.
\<close>

section \<open>Queues of keys\<close>

type_synonym queues = "nat list list"

definition pq_new :: "nat \<Rightarrow> queues" where
  "pq_new num = replicate (max num 1) []"

definition pq_push_back :: "nat \<Rightarrow> nat \<Rightarrow> queues \<Rightarrow> queues option" where
  "pq_push_back endpoint_idx key_id q =
     (if endpoint_idx < length q then Some (q[endpoint_idx := q ! endpoint_idx @ [key_id]]) else None)"

definition pq_push_front :: "nat \<Rightarrow> nat \<Rightarrow> queues \<Rightarrow> queues option" where
  "pq_push_front endpoint_idx key_id q =
     (if endpoint_idx < length q then Some (q[endpoint_idx := key_id # q ! endpoint_idx]) else None)"

definition pq_pop_front :: "nat \<Rightarrow> queues \<Rightarrow> (queues \<times> nat option) option" where
  "pq_pop_front endpoint_idx q =
     (if endpoint_idx < length q
      then Some (case q ! endpoint_idx of [] \<Rightarrow> (q, None) | k # ks \<Rightarrow> (q[endpoint_idx := ks], Some k))
      else None)"

definition pq_is_empty :: "nat \<Rightarrow> queues \<Rightarrow> bool option" where
  "pq_is_empty endpoint_idx q = (if endpoint_idx < length q then Some (q ! endpoint_idx = []) else None)"

section \<open>Routing and partitioning\<close>

record router =
  rt_slot_table :: "nat list option"
  rt_hash_slot :: "bytes \<Rightarrow> nat"
  rt_ring :: "bytes \<Rightarrow> nat"

definition route_partition :: "router \<Rightarrow> nat \<Rightarrow> bytes \<Rightarrow> nat option" where
  "route_partition R num_endpoints key =
     (case rt_slot_table R of
        Some table \<Rightarrow> let slot = rt_hash_slot R key in
          if slot < length table then Some (table ! slot) else None
      | None \<Rightarrow> if num_endpoints \<le> 1 then Some 0 else Some (rt_ring R key))"

definition route_key :: "router \<Rightarrow> nat \<Rightarrow> bytes \<Rightarrow> nat option" where
  "route_key R num_endpoints key = route_partition R num_endpoints key"

text \<open>The loop all three builders share: route each key and push it to its endpoint's queue.\<close>

fun push_routed :: "router \<Rightarrow> key_format \<Rightarrow> nat \<Rightarrow> nat \<Rightarrow> nat list \<Rightarrow> queues \<Rightarrow> queues option" where
  "push_routed R fmt key_len n [] q = Some q"
| "push_routed R fmt key_len n (key_id # ks) q =
     (case route_partition R n (write_key fmt key_len key_id) of
        None \<Rightarrow> None
      | Some ep \<Rightarrow> (case pq_push_back ep key_id q of
            None \<Rightarrow> None
          | Some q \<Rightarrow> push_routed R fmt key_len n ks q))"

definition build_prefill_queues :: "router \<Rightarrow> key_format \<Rightarrow> nat \<Rightarrow> nat \<Rightarrow> nat \<Rightarrow> queues option" where
  "build_prefill_queues R fmt key_count key_len endpoints =
     (let n = max endpoints 1 in push_routed R fmt key_len n [0..<key_count] (pq_new n))"

definition enqueue_append_batch :: "router \<Rightarrow> key_format \<Rightarrow> queues \<Rightarrow> nat \<Rightarrow> nat \<Rightarrow> nat \<Rightarrow> nat \<Rightarrow> queues option" where
  "enqueue_append_batch R fmt q start cnt key_len endpoints =
     push_routed R fmt key_len (max endpoints 1) [start..<start + cnt] q"

text \<open>\<open>key_id as u32\<close> keeps the low 32 bits.\<close>

fun bucket_keys :: "router \<Rightarrow> key_format \<Rightarrow> nat \<Rightarrow> nat \<Rightarrow> nat list \<Rightarrow> queues \<Rightarrow> queues option" where
  "bucket_keys R fmt key_len n [] b = Some b"
| "bucket_keys R fmt key_len n (key_id # ks) b =
     (case route_partition R n (write_key fmt key_len key_id) of
        None \<Rightarrow> None
      | Some ep \<Rightarrow> if ep < length b
                  then bucket_keys R fmt key_len n ks (b[ep := b ! ep @ [key_id mod 4294967296]]) else None)"

definition build_endpoint_keys :: "router \<Rightarrow> key_format \<Rightarrow> nat \<Rightarrow> nat \<Rightarrow> nat \<Rightarrow> queues option" where
  "build_endpoint_keys R fmt key_count key_len endpoints =
     (if endpoints \<le> 1 then Some [] else bucket_keys R fmt key_len endpoints [0..<key_count] (replicate endpoints []))"

text \<open>
  Keys drained from a closed connection go back to whichever endpoint owns them now
  (\<open>requeue_drained_prefill\<close>, \<open>requeue_drained_append\<close>). The router is the task's, with its current
  slot table.
\<close>

definition requeue_drained :: "router \<Rightarrow> key_format \<Rightarrow> nat \<Rightarrow> nat \<Rightarrow> nat list \<Rightarrow> queues \<Rightarrow> queues option" where
  "requeue_drained R fmt key_len endpoints drained q = push_routed R fmt key_len endpoints drained q"

text \<open>\<open>requeue_newest\<close>: the queue and what is left in flight.\<close>

fun requeue_newest :: "nat \<Rightarrow> nat \<Rightarrow> nat list \<Rightarrow> queues \<Rightarrow> (nat list \<times> queues) option" where
  "requeue_newest endpoint 0 in_flight q = Some (in_flight, q)"
| "requeue_newest endpoint (Suc n) in_flight q =
     (if in_flight = [] then requeue_newest endpoint n in_flight q
      else case pq_push_front endpoint (last in_flight) q of
             None \<Rightarrow> None
           | Some q \<Rightarrow> requeue_newest endpoint n (butlast in_flight) q)"

section \<open>Connections and the endpoints they serve\<close>

definition connection_share :: "nat \<Rightarrow> nat \<Rightarrow> nat \<Rightarrow> nat \<times> nat" where
  "connection_share tot num_threads worker_id =
     (let num_threads = max num_threads 1; base = tot div num_threads; rem = tot mod num_threads
      in (if worker_id < rem then base + 1 else base,
          if worker_id < rem then worker_id * (base + 1) else rem * (base + 1) + (worker_id - rem) * base))"

text \<open>\<open>f64::total_cmp\<close> on the values met here (no NaN, no negative zero): at most.\<close>

fun f_total_le :: "f64 \<Rightarrow> f64 \<Rightarrow> bool" where
  "f_total_le NaN y = (y = NaN)"
| "f_total_le x NaN = True"
| "f_total_le (Inf s) (Inf t) = (s \<or> \<not> t)"
| "f_total_le (Inf s) (Fin b) = s"
| "f_total_le (Fin a) (Inf t) = (\<not> t)"
| "f_total_le (Fin a) (Fin b) = (a \<le> b)"

text \<open>\<open>max_by\<close> returns the last of the greatest elements, \<open>min_by\<close> the first of the least.\<close>

fun max_by :: "(nat \<Rightarrow> f64) \<Rightarrow> nat \<Rightarrow> nat list \<Rightarrow> nat" where
  "max_by f best [] = best"
| "max_by f best (x # xs) = max_by f (if f_total_le (f best) (f x) then x else best) xs"

fun min_by :: "(nat \<Rightarrow> f64) \<Rightarrow> nat \<Rightarrow> nat list \<Rightarrow> nat" where
  "min_by f best [] = best"
| "min_by f best (x # xs) = min_by f (if f_total_le (f best) (f x) then best else x) xs"

text \<open>The two correction loops, by the number of rounds left; \<open>None\<close> is the panic of \<open>expect\<close>.\<close>

fun raise_counts :: "f64 list \<Rightarrow> nat list \<Rightarrow> nat \<Rightarrow> nat list \<Rightarrow> nat list option" where
  "raise_counts target live 0 cnt = Some cnt"
| "raise_counts target live (Suc k) cnt =
     (case live of
        [] \<Rightarrow> None
      | l # ls \<Rightarrow> let e = max_by (\<lambda>a. f_sub (target ! a) (f_of_nat (cnt ! a))) l ls
                 in raise_counts target live k (cnt[e := cnt ! e + 1]))"

fun lower_counts :: "f64 list \<Rightarrow> nat \<Rightarrow> nat list \<Rightarrow> nat list option" where
  "lower_counts target 0 cnt = Some cnt"
| "lower_counts target (Suc k) cnt =
     (case filter (\<lambda>e. cnt ! e > 1) [0..<length cnt] of
        [] \<Rightarrow> None
      | l # ls \<Rightarrow> let e = min_by (\<lambda>a. f_sub (target ! a) (f_of_nat (cnt ! a))) l ls
                 in lower_counts target k (cnt[e := cnt ! e - 1]))"

definition slot_le :: "f64 \<times> nat \<Rightarrow> f64 \<times> nat \<Rightarrow> bool" where
  "slot_le a b \<longleftrightarrow> (if f_total_le (fst a) (fst b) \<and> f_total_le (fst b) (fst a) then snd a \<le> snd b
                   else f_total_le (fst a) (fst b))"

fun insert_slot :: "f64 \<times> nat \<Rightarrow> (f64 \<times> nat) list \<Rightarrow> (f64 \<times> nat) list" where
  "insert_slot x [] = [x]"
| "insert_slot x (y # ys) = (if slot_le x y then x # y # ys else y # insert_slot x ys)"

text \<open>A stable sort, as \<open>sort_by\<close> is.\<close>

definition sort_slots :: "(f64 \<times> nat) list \<Rightarrow> (f64 \<times> nat) list" where
  "sort_slots xs = foldr insert_slot xs []"

definition place_slots :: "nat list \<Rightarrow> (f64 \<times> nat) list" where
  "place_slots cnt =
     concat (map (\<lambda>e. map (\<lambda>k. (f_div (f_add (f_of_nat k) (Fin (1 / 2))) (f_of_nat (cnt ! e)), e)) [0..<cnt ! e])
       [0..<length cnt])"

definition key_share_endpoints :: "f64 list \<Rightarrow> nat \<Rightarrow> nat list option" where
  "key_share_endpoints shares tot =
     (let n = length shares;
          live = filter (\<lambda>e. f_lt (Fin 0) (shares ! e)) [0..<n] in
      if live = [] \<or> tot < length live then
        let pool = (if live = [] then [0..<max n 1] else live)
        in Some (map (\<lambda>i. pool ! (i mod length pool)) [0..<tot])
      else
        let target = map (\<lambda>s. f_mul s (f_of_nat tot)) shares;
            cnt = map (\<lambda>e. if f_lt (Fin 0) (shares ! e) then max (f_as_u64 (target ! e)) 1 else 0) [0..<n];
            sum = sum_list cnt
        in case (if sum < tot then raise_counts target live (tot - sum) cnt
                 else lower_counts target (sum - tot) cnt) of
             None \<Rightarrow> None
           | Some cnt \<Rightarrow> Some (map snd (sort_slots (place_slots cnt))))"

datatype endpoint_allocation = Even | KeyShare

text \<open>\<open>shares\<close> is what the per-endpoint sampler reports, if the distribution has one.\<close>

definition connection_endpoints :: "endpoint_allocation \<Rightarrow> f64 list option \<Rightarrow> nat \<Rightarrow> nat \<Rightarrow> nat list option" where
  "connection_endpoints allocation shares tot num_endpoints =
     (case (allocation, shares) of
        (KeyShare, Some z) \<Rightarrow> key_share_endpoints z tot
      | _ \<Rightarrow> Some (map (\<lambda>i. i mod num_endpoints) [0..<tot]))"

definition my_connection_endpoints ::
  "endpoint_allocation \<Rightarrow> f64 list option \<Rightarrow> nat \<Rightarrow> nat \<Rightarrow> nat \<Rightarrow> nat \<Rightarrow> nat \<Rightarrow> (nat \<times> nat list) option" where
  "my_connection_endpoints allocation shares total_connections num_threads num_endpoints my_connections worker_id =
     (let base_per_thread = total_connections div num_threads;
          remainder = total_connections mod num_threads;
          my_start = (if worker_id < remainder then worker_id * (base_per_thread + 1)
                      else remainder * (base_per_thread + 1) + (worker_id - remainder) * base_per_thread)
      in case connection_endpoints allocation shares total_connections num_endpoints of
           None \<Rightarrow> None
         | Some assignment \<Rightarrow>
             map_option (\<lambda>s. (my_start, s)) (subslice assignment my_start (my_start + my_connections)))"

datatype node_count_error = Prefill_needs_connections | Routed_needs_connections | Append_needs_connections

definition check_node_counts ::
  "bool \<Rightarrow> nat \<Rightarrow> nat \<Rightarrow> bool \<Rightarrow> nat option \<Rightarrow> nat \<Rightarrow> node_count_error + unit" where
  "check_node_counts prefill_enabled total_connections threads routed append_connections num_endpoints =
     (if prefill_enabled \<and> num_endpoints > 1 \<and> total_connections < num_endpoints then Inl Prefill_needs_connections
      else if routed \<and> num_endpoints > 1 \<and> total_connections < saturating_mul threads num_endpoints
      then Inl Routed_needs_connections
      else if (case append_connections of Some c \<Rightarrow> num_endpoints > 1 \<and> c < num_endpoints | None \<Rightarrow> False)
      then Inl Append_needs_connections
      else Inr ())"

section \<open>Every key is queued once, for the endpoint that owns it\<close>

definition owner :: "router \<Rightarrow> key_format \<Rightarrow> nat \<Rightarrow> nat \<Rightarrow> nat \<Rightarrow> nat option" where
  "owner R fmt key_len n k = route_partition R n (write_key fmt key_len k)"

definition router_ok :: "router \<Rightarrow> nat \<Rightarrow> bool" where
  "router_ok R n \<longleftrightarrow> (\<forall>key. \<exists>ep<n. route_partition R n key = Some ep)"

definition owned :: "router \<Rightarrow> key_format \<Rightarrow> nat \<Rightarrow> nat \<Rightarrow> nat \<Rightarrow> nat list \<Rightarrow> nat list" where
  "owned R fmt key_len n e ks = filter (\<lambda>k. owner R fmt key_len n k = Some e) ks"

lemma push_routed_spec:
  assumes "router_ok R n"
  shows "length q = n \<Longrightarrow> push_routed R fmt key_len n ks q = Some (map (\<lambda>e. q ! e @ owned R fmt key_len n e ks) [0..<n])"
proof (induction ks arbitrary: q)
  case Nil
  then show ?case by (auto simp: owned_def intro: nth_equalityI)
next
  case (Cons k ks)
  obtain ep where ep: "ep < n" "owner R fmt key_len n k = Some ep"
    using assms by (auto simp: router_ok_def owner_def)
  have "push_routed R fmt key_len n (k # ks) q = push_routed R fmt key_len n ks (q[ep := q ! ep @ [k]])"
    using ep Cons.prems by (simp add: owner_def pq_push_back_def)
  also have "\<dots> = Some (map (\<lambda>e. q[ep := q ! ep @ [k]] ! e @ owned R fmt key_len n e ks) [0..<n])"
    using Cons by simp
  also have "map (\<lambda>e. q[ep := q ! ep @ [k]] ! e @ owned R fmt key_len n e ks) [0..<n] =
      map (\<lambda>e. q ! e @ owned R fmt key_len n e (k # ks)) [0..<n]"
    using ep Cons.prems by (intro map_cong refl) (auto simp: owned_def nth_list_update)
  finally show ?case .
qed

lemma bucket_keys_spec:
  assumes "router_ok R n"
  shows "length b = n \<Longrightarrow> bucket_keys R fmt key_len n ks b =
    Some (map (\<lambda>e. b ! e @ map (\<lambda>k. k mod 4294967296) (owned R fmt key_len n e ks)) [0..<n])"
proof (induction ks arbitrary: b)
  case Nil
  then show ?case by (auto simp: owned_def intro: nth_equalityI)
next
  case (Cons k ks)
  obtain ep where ep: "ep < n" "owner R fmt key_len n k = Some ep"
    using assms by (auto simp: router_ok_def owner_def)
  let ?b = "b[ep := b ! ep @ [k mod 4294967296]]"
  have "bucket_keys R fmt key_len n (k # ks) b = bucket_keys R fmt key_len n ks ?b"
    using ep Cons.prems by (simp add: owner_def)
  also have "\<dots> = Some (map (\<lambda>e. ?b ! e @ map (\<lambda>k. k mod 4294967296) (owned R fmt key_len n e ks)) [0..<n])"
    using Cons by simp
  also have "map (\<lambda>e. ?b ! e @ map (\<lambda>k. k mod 4294967296) (owned R fmt key_len n e ks)) [0..<n] =
      map (\<lambda>e. b ! e @ map (\<lambda>k. k mod 4294967296) (owned R fmt key_len n e (k # ks))) [0..<n]"
    using ep Cons.prems by (intro map_cong refl) (auto simp: owned_def nth_list_update)
  finally show ?case .
qed

lemma mset_owned:
  assumes "router_ok R n"
  shows "mset (concat (map (\<lambda>e. owned R fmt key_len n e ks) [0..<n])) = mset ks"
proof -
  have one: "(\<Sum>e\<leftarrow>[0..<n]. if owner R fmt key_len n k = Some e then {#k#} else {#}) = {#k#}" for k
  proof -
    obtain ep where ep: "ep < n" "owner R fmt key_len n k = Some ep"
      using assms by (auto simp: router_ok_def owner_def)
    have "(\<Sum>e\<leftarrow>[0..<m]. if ep = e then {#k#} else {#}) = (if ep < m then {#k#} else {#})" for m
      by (induction m) auto
    then show ?thesis using ep by simp
  qed
  have "mset (concat (map (\<lambda>e. owned R fmt key_len n e ks) [0..<n])) =
      (\<Sum>e\<leftarrow>[0..<n]. mset (owned R fmt key_len n e ks))" by (simp add: mset_concat o_def)
  also have "\<dots> = mset ks"
  proof (induction ks)
    case Nil
    then show ?case by (simp add: owned_def)
  next
    case (Cons k ks)
    have "mset (owned R fmt key_len n e (k # ks)) =
        (if owner R fmt key_len n k = Some e then {#k#} else {#}) + mset (owned R fmt key_len n e ks)" for e
      by (simp add: owned_def)
    then show ?case using one [of k] Cons by (simp add: sum_list_addf)
  qed
  finally show ?thesis .
qed

text \<open>
  C17. The keyspace is split over the endpoints without loss or duplication. With a router that sends
  every key to an existing endpoint, building the prefill queues does not panic, each endpoint's
  queue holds exactly the ids it owns, in order, and together the queues hold every id of the
  keyspace once. The lists for steady-state key selection are the same partition (for ids that fit
  32 bits), and a batch enqueued for the append stream adds exactly its ids to their owners' queues
  behind what is already there.
\<close>

theorem keyspace_partitioned:
  assumes ok: "router_ok R (max endpoints 1)" and len: "length q\<^sub>0 = max endpoints 1"
  shows "\<exists>q q'. build_prefill_queues R fmt key_count key_len endpoints = Some q \<and>
    length q = max endpoints 1 \<and>
    (\<forall>e<length q. q ! e = owned R fmt key_len (max endpoints 1) e [0..<key_count]) \<and>
    mset (concat q) = mset [0..<key_count] \<and>
    (1 < endpoints \<longrightarrow> key_count \<le> 4294967296 \<longrightarrow>
       build_endpoint_keys R fmt key_count key_len endpoints = Some q) \<and>
    enqueue_append_batch R fmt q\<^sub>0 start n key_len endpoints = Some q' \<and>
    (\<forall>e<length q'. q' ! e = q\<^sub>0 ! e @ owned R fmt key_len (max endpoints 1) e [start..<start + n])"
proof -
  let ?n = "max endpoints 1"
  let ?q = "map (\<lambda>e. owned R fmt key_len ?n e [0..<key_count]) [0..<?n]"
  let ?q' = "map (\<lambda>e. q\<^sub>0 ! e @ owned R fmt key_len ?n e [start..<start + n]) [0..<?n]"
  have "pq_new ?n ! e = []" if "e < ?n" for e using that by (simp add: pq_new_def)
  then have b: "build_prefill_queues R fmt key_count key_len endpoints = Some ?q"
    using push_routed_spec [OF ok, of "pq_new ?n" fmt key_len "[0..<key_count]"]
    by (simp add: build_prefill_queues_def Let_def pq_new_def cong: map_cong)
  have a: "enqueue_append_batch R fmt q\<^sub>0 start n key_len endpoints = Some ?q'"
    using push_routed_spec [OF ok len] by (simp add: enqueue_append_batch_def)
  have m: "mset (concat ?q) = mset [0..<key_count]" by (rule mset_owned [OF ok])
  have "build_endpoint_keys R fmt key_count key_len endpoints = Some ?q"
    if "1 < endpoints" "key_count \<le> 4294967296"
  proof -
    have n: "?n = endpoints" using that(1) by simp
    have id: "map (\<lambda>k. k mod 4294967296) (owned R fmt key_len endpoints e [0..<key_count]) =
        owned R fmt key_len endpoints e [0..<key_count]" for e
      using that(2) by (intro map_idI) (auto simp: owned_def)
    show ?thesis
      using bucket_keys_spec [OF ok [unfolded n], of "replicate endpoints []" fmt key_len "[0..<key_count]"] that(1)
      by (simp add: build_endpoint_keys_def id n cong: map_cong)
  qed
  then show ?thesis using a b m by (intro exI [of _ ?q] exI [of _ ?q']) simp
qed

theorem keyspace_partitioned_witness:
  "\<exists>q. build_prefill_queues \<lparr>rt_slot_table = None, rt_hash_slot = (\<lambda>_. 0), rt_ring = (\<lambda>key. length key mod 2)\<rparr>
         Hex 6 3 2 = Some q \<and> mset (concat q) = mset [0..<6]"
proof -
  let ?R = "\<lparr>rt_slot_table = None, rt_hash_slot = (\<lambda>_. 0), rt_ring = (\<lambda>key. length key mod 2)\<rparr>"
  have "router_ok ?R (max 2 1)"
    using mod_less_divisor [of 2] by (simp add: router_ok_def route_partition_def numeral_2_eq_2)
  moreover have "length [[7], [8 :: nat]] = max 2 1" by simp
  ultimately show ?thesis using keyspace_partitioned [of ?R 2 "[[7], [8]]" Hex 6 3 0 0] by blast
qed

section \<open>Keys given back keep their place\<close>

lemma requeue_newest_spec:
  "ep < length q \<Longrightarrow> requeue_newest ep n ks q =
     Some (take (length ks - n) ks, q[ep := drop (length ks - n) ks @ q ! ep])"
proof (induction n arbitrary: ks q)
  case 0
  then show ?case by simp
next
  case (Suc n)
  show ?case
  proof (cases "ks = []")
    case True
    then show ?thesis using Suc by simp
  next
    case False
    define q1 where "q1 = q[ep := last ks # q ! ep]"
    have "requeue_newest ep (Suc n) ks q = requeue_newest ep n (butlast ks) q1"
      using False Suc.prems by (simp add: pq_push_front_def q1_def)
    also have "\<dots> = Some (take (length (butlast ks) - n) (butlast ks),
        q1[ep := drop (length (butlast ks) - n) (butlast ks) @ q1 ! ep])"
      using Suc by (simp add: q1_def)
    also have "take (length (butlast ks) - n) (butlast ks) = take (length ks - Suc n) ks"
      using False by (simp add: take_butlast)
    also have "drop (length (butlast ks) - n) (butlast ks) @ q1 ! ep = drop (length ks - Suc n) ks @ q ! ep"
    proof -
      have "ks = butlast ks @ [last ks]" using False by simp
      then have "drop (length ks - Suc n) ks = drop (length ks - Suc n) (butlast ks) @ [last ks]"
        by (metis (no_types, lifting) diff_le_self diff_is_0_eq drop_0 drop_append length_butlast
            diff_diff_left plus_1_eq_Suc)
      then show ?thesis using Suc.prems by (simp add: q1_def)
    qed
    finally show ?thesis by (simp add: q1_def)
  qed
qed

lemma push_routed_keys:
  assumes ok: "router_ok R n" and len: "length q = n"
  shows "\<exists>q'. push_routed R fmt key_len n ks q = Some q' \<and> mset (concat q') = mset (concat q) + mset ks \<and>
    (\<forall>e<n. q' ! e = q ! e @ owned R fmt key_len n e ks)"
proof -
  let ?q' = "map (\<lambda>e. q ! e @ owned R fmt key_len n e ks) [0..<n]"
  have "mset (concat ?q') = (\<Sum>e\<leftarrow>[0..<n]. mset (q ! e)) + (\<Sum>e\<leftarrow>[0..<n]. mset (owned R fmt key_len n e ks))"
    by (simp add: mset_concat o_def sum_list_addf)
  also have "(\<Sum>e\<leftarrow>[0..<n]. mset (q ! e)) = mset (concat q)"
    using arg_cong [OF map_nth [of q], of "\<lambda>q. sum_list (map mset q)"] len by (simp add: mset_concat o_def)
  also have "(\<Sum>e\<leftarrow>[0..<n]. mset (owned R fmt key_len n e ks)) = mset ks"
    using mset_owned [OF ok, of fmt key_len ks] by (simp add: mset_concat o_def)
  finally show ?thesis using push_routed_spec [OF ok len] by simp
qed

text \<open>Keys requeued are all queued again; a router of a worker knows \<open>max m 1\<close> endpoints by \<open>m\<close>.\<close>

lemma requeue_drained_keys:
  assumes ok: "router_ok R (max m 1)" and len: "length q = max m 1"
  shows "\<exists>q'. requeue_drained R fmt key_len m ks q = Some q' \<and> mset (concat q') = mset (concat q) + mset ks \<and> length q' = length q"
proof -
  have "route_partition R m = route_partition R (max m 1)" by (auto simp: route_partition_def fun_eq_iff split: option.splits)
  then have "push_routed R fmt key_len m ks q = push_routed R fmt key_len (max m 1) ks q"
    by (induction ks arbitrary: q) (auto split: option.splits)
  then show ?thesis using push_routed_keys [OF ok len, of fmt key_len ks] push_routed_spec [OF ok len, of fmt key_len ks] len
    by (auto simp: requeue_drained_def)
qed

text \<open>
  C18. No key to write is lost when a connection fails. Discarding the \<open>n\<close> newest keys in flight puts
  exactly those back at the front of their endpoint's queue, in the order they were taken, so taking
  and discarding a run of keys leaves the queue as it was. Draining a closed connection re-routes its
  keys: together the queues gain exactly the drained keys, each at its current owner.
\<close>

theorem keys_survive_failure:
  assumes ep: "ep < length q" and ok: "router_ok R (length q)"
  shows "requeue_newest ep n in_flight q =
      Some (take (length in_flight - n) in_flight, q[ep := drop (length in_flight - n) in_flight @ q ! ep]) \<and>
    requeue_newest ep (length ks) ks (q[ep := rest]) = Some ([], q[ep := ks @ rest]) \<and>
    (\<exists>q'. requeue_drained R fmt key_len (length q) drained q = Some q' \<and>
       mset (concat q') = mset (concat q) + mset drained \<and>
       (\<forall>e<length q. q' ! e = q ! e @ owned R fmt key_len (length q) e drained))"
  using push_routed_keys [OF ok refl, of fmt key_len drained] requeue_newest_spec [OF ep]
    requeue_newest_spec [of ep "q[ep := rest]" "length ks" ks] ep
  by (auto simp: requeue_drained_def)

theorem keys_survive_failure_witness:
  "requeue_newest 0 2 [4, 5, 6] [[7, 8], []] = Some ([4], [[5, 6, 7, 8], []])"
proof -
  have "router_ok \<lparr>rt_slot_table = None, rt_hash_slot = (\<lambda>_. 0), rt_ring = (\<lambda>_. 0)\<rparr> (length [[7, 8 :: nat], []])"
    by (simp add: router_ok_def route_partition_def)
  from keys_survive_failure [OF _ this, of 0 2 "[4, 5, 6]" "[]" "[]" Hex 4 "[]"] show ?thesis by simp
qed

section \<open>Workers' connections tile the run's\<close>

lemma share_base:
  assumes "0 < n"
  shows "n * (tot div n) + tot mod n = (tot :: nat)" and "tot mod n < n"
  using assms by simp_all

lemma connection_share_next:
  assumes n: "0 < n" and w: "Suc w \<le> n"
  shows "snd (connection_share tot n (Suc w)) = snd (connection_share tot n w) + fst (connection_share tot n w)"
proof -
  have m: "max n 1 = n" "max n (Suc 0) = n" using n by simp_all
  show ?thesis
  proof (cases "Suc w < tot mod n")
    case True
    then show ?thesis by (simp add: connection_share_def Let_def m)
  next
    case False
    show ?thesis
    proof (cases "w < tot mod n")
      case True
      then have "tot mod n = Suc w" using False by simp
      then show ?thesis by (simp add: connection_share_def Let_def m)
    next
      case wFalse: False
      then have "Suc w - tot mod n = Suc (w - tot mod n)" by simp
      then show ?thesis using False wFalse by (simp add: connection_share_def Let_def m)
    qed
  qed
qed

lemma connection_share_end:
  assumes "0 < n"
  shows "snd (connection_share tot n n) = tot"
proof -
  have m: "max n 1 = n" "max n (Suc 0) = n" using assms by simp_all
  have "(n - tot mod n) * (tot div n) + tot mod n * (tot div n) = n * (tot div n)"
    using share_base(2) [OF assms, of tot] by (metis add_mult_distrib le_add_diff_inverse2 less_imp_le)
  then show ?thesis
    using share_base [OF assms, of tot] by (simp add: connection_share_def Let_def m algebra_simps)
qed

lemma connection_share_sum:
  assumes "0 < n"
  shows "w \<le> n \<Longrightarrow> snd (connection_share tot n w) = (\<Sum>v<w. fst (connection_share tot n v))"
proof (induction w)
  case 0
  then show ?case by (simp add: connection_share_def Let_def)
next
  case (Suc w)
  then show ?case using connection_share_next [OF assms, of w tot] by simp
qed

lemma connection_share_bound:
  assumes "0 < n" and "w < n"
  shows "snd (connection_share tot n w) + fst (connection_share tot n w) \<le> tot"
proof -
  have "snd (connection_share tot n (Suc w)) \<le> snd (connection_share tot n n)"
    unfolding connection_share_sum [OF assms(1), of n tot, OF le_refl]
      connection_share_sum [OF assms(1), of "Suc w" tot, OF Suc_leI [OF assms(2)]]
    using assms(2) by (intro sum_mono2) auto
  then show ?thesis using connection_share_next [OF assms(1), of w tot] connection_share_end [OF assms(1), of tot] assms by simp
qed

lemma mod_covers:
  assumes "0 < m" and "m \<le> len" and "e < m"
  shows "\<exists>j<len. (s + j) mod m = (e :: nat)"
proof -
  let ?j = "(e + (m - s mod m)) mod m"
  have "?j < len" using assms by (meson less_le_trans mod_less_divisor)
  moreover have "(s + ?j) mod m = e"
  proof -
    have "(s + ?j) mod m = (s mod m + (e + (m - s mod m))) mod m" by (simp add: mod_simps)
    also have "s mod m + (e + (m - s mod m)) = e + m" using mod_less_divisor [OF assms(1), of s] by linarith
    finally show ?thesis using assms by simp
  qed
  ultimately show ?thesis by blast
qed



section \<open>Allocation by key share\<close>

lemma max_by_in: "max_by f best xs \<in> set (best # xs)"
  by (induction xs arbitrary: best) (force split: if_splits)+

lemma min_by_in: "min_by f best xs \<in> set (best # xs)"
  by (induction xs arbitrary: best) (force split: if_splits)+

text \<open>Counts that are zero exactly for the endpoints without keys.\<close>

definition counts_ok :: "(nat \<Rightarrow> bool) \<Rightarrow> nat \<Rightarrow> nat list \<Rightarrow> bool" where
  "counts_ok alive n cnt \<longleftrightarrow> length cnt = n \<and> (\<forall>e<n. (0 < cnt ! e) = alive e)"

lemma sum_list_inc: "e < length xs \<Longrightarrow> sum_list (xs[e := xs ! e + 1]) = sum_list xs + (1 :: nat)"
  by (induction xs arbitrary: e) (auto simp: nth_Cons split: nat.splits)

lemma sum_list_dec: "e < length xs \<Longrightarrow> 0 < xs ! e \<Longrightarrow> sum_list (xs[e := xs ! e - 1]) + 1 = sum_list (xs :: nat list)"
  by (induction xs arbitrary: e) (auto simp: nth_Cons split: nat.splits)

lemma raise_counts_ok:
  assumes "live = filter alive [0..<n]" and "live \<noteq> []"
  shows "counts_ok alive n cnt \<Longrightarrow>
    \<exists>cnt'. raise_counts target live k cnt = Some cnt' \<and> counts_ok alive n cnt' \<and> sum_list cnt' = sum_list cnt + k"
proof (induction k arbitrary: cnt)
  case 0
  then show ?case by simp
next
  case (Suc k)
  obtain l ls where l: "live = l # ls" using assms(2) by (cases live) auto
  define e where "e = max_by (\<lambda>a. f_sub (target ! a) (f_of_nat (cnt ! a))) l ls"
  have "e \<in> set live" unfolding e_def l by (rule max_by_in)
  then have e: "e < n" "alive e" using assms(1) by auto
  have "counts_ok alive n (cnt[e := cnt ! e + 1])"
    using Suc.prems e by (auto simp: counts_ok_def nth_list_update)
  from Suc.IH [OF this] e Suc.prems show ?case
    by (auto simp: l e_def [symmetric] Let_def sum_list_inc [simplified] counts_ok_def)
qed

lemma sum_list_le_alive:
  assumes "length cnt = n" and "\<forall>e<n. cnt ! e \<le> (if alive e then 1 else 0)"
  shows "sum_list cnt \<le> length (filter alive [0..<n])"
proof -
  have "sum_list cnt = (\<Sum>e\<leftarrow>[0..<n]. cnt ! e)" using assms(1) by (metis map_nth)
  also have "\<dots> \<le> (\<Sum>e\<leftarrow>[0..<n]. if alive e then 1 else 0)" using assms(2) by (intro sum_list_mono) simp
  also have "\<dots> = length (filter alive xs)" if "xs = [0..<n]" for xs
  proof -
    have "(\<Sum>e\<leftarrow>ys. if alive e then 1 else 0) = length (filter alive ys)" for ys by (induction ys) auto
    then show ?thesis using that by simp
  qed
  finally show ?thesis by simp
qed

lemma lower_counts_ok:
  shows "counts_ok alive n cnt \<Longrightarrow> sum_list cnt = tot + k \<Longrightarrow> length (filter alive [0..<n]) \<le> tot \<Longrightarrow>
    \<exists>cnt'. lower_counts target k cnt = Some cnt' \<and> counts_ok alive n cnt' \<and> sum_list cnt' = tot"
proof (induction k arbitrary: cnt)
  case 0
  then show ?case by simp
next
  case (Suc k)
  have len: "length cnt = n" using Suc.prems(1) by (simp add: counts_ok_def)
  have "\<exists>e<n. cnt ! e > 1"
  proof (rule ccontr)
    assume "\<not> ?thesis"
    then have "\<forall>e<n. cnt ! e \<le> (if alive e then 1 else 0)"
      using Suc.prems(1) by (auto simp: counts_ok_def not_less) (meson not_less)
    from sum_list_le_alive [OF len this] show False using Suc.prems(2,3) by simp
  qed
  then have "filter (\<lambda>e. cnt ! e > 1) [0..<length cnt] \<noteq> []" using len by (auto simp: filter_empty_conv)
  then obtain l ls where l: "filter (\<lambda>e. cnt ! e > 1) [0..<length cnt] = l # ls"
    by (cases "filter (\<lambda>e. cnt ! e > 1) [0..<length cnt]") auto
  define e where "e = min_by (\<lambda>a. f_sub (target ! a) (f_of_nat (cnt ! a))) l ls"
  have "e \<in> set (l # ls)" unfolding e_def by (rule min_by_in)
  then have "e \<in> set (filter (\<lambda>e. cnt ! e > 1) [0..<length cnt])" by (simp only: l)
  then have e: "e < length cnt" "1 < cnt ! e" by simp_all
  have "counts_ok alive n (cnt[e := cnt ! e - 1])"
    using Suc.prems(1) e by (auto simp: counts_ok_def nth_list_update)
  moreover have "sum_list (cnt[e := cnt ! e - 1]) = tot + k"
    using sum_list_dec [OF e(1)] e(2) Suc.prems(2) by simp
  ultimately show ?case using Suc.IH [of "cnt[e := cnt ! e - 1]"] Suc.prems(3)
    by (simp add: l [simplified] e_def [symmetric] Let_def)
qed

lemma mset_insert_slot: "mset (insert_slot x xs) = add_mset x (mset xs)"
  by (induction xs) auto

lemma mset_sort_slots: "mset (sort_slots xs) = mset xs"
  unfolding sort_slots_def by (induction xs) (simp_all add: mset_insert_slot)

lemma place_slots_spec:
  "length (place_slots cnt) = sum_list cnt" "snd ` set (place_slots cnt) = {e. e < length cnt \<and> 0 < cnt ! e}"
proof -
  have "length (place_slots cnt) = (\<Sum>e\<leftarrow>[0..<length cnt]. cnt ! e)"
    by (simp add: place_slots_def length_concat o_def)
  also have "\<dots> = sum_list cnt" by (metis map_nth)
  finally show "length (place_slots cnt) = sum_list cnt" .
  show "snd ` set (place_slots cnt) = {e. e < length cnt \<and> 0 < cnt ! e}"
    by (force simp: place_slots_def image_iff)
qed



end
