(* ===== verification/Limiters.thy ===== *)
theory Limiters
  imports F64
begin

text \<open>
  The per-worker rate limiters (\<open>src/limiters.rs\<close>): a total rate split over the workers by
  connection share, staggered across one claim, restarted as the run's traffic begins, and the
  prefill pacer all workers share.

  The token bucket itself is the crate \<open>ratelimit\<close>, which is not part of the program: its
  operations are the fields of a record \<open>ratelimit\<close> that every definition here takes as an
  argument, and what the program relies on is the predicate \<open>ratelimit_laws\<close>. Time is an
  argument, in nanoseconds. Durations are nanoseconds.
\<close>

section \<open>The token bucket the program is built on\<close>

datatype try_wait_error = Insufficient nat | ExceedsCapacity | OtherTryWait

record 'rl ratelimit =
  rl_build :: "nat \<Rightarrow> nat \<Rightarrow> nat \<Rightarrow> nat \<Rightarrow> nat \<Rightarrow> 'rl option" \<comment> \<open>now, rate, period, cap, initial\<close>
  rl_try_wait_n :: "nat \<Rightarrow> nat \<Rightarrow> 'rl \<Rightarrow> (try_wait_error + unit) \<times> 'rl" \<comment> \<open>now, n\<close>
  rl_max_tokens :: "'rl \<Rightarrow> nat"
  rl_set_max_tokens :: "nat \<Rightarrow> 'rl \<Rightarrow> 'rl"
  rl_available :: "'rl \<Rightarrow> nat"
  rl_rate :: "'rl \<Rightarrow> nat"
  rl_period :: "'rl \<Rightarrow> nat"
  rl_dropped :: "'rl \<Rightarrow> nat"
  rl_set_rate_per :: "nat \<Rightarrow> nat \<Rightarrow> 'rl \<Rightarrow> 'rl" \<comment> \<open>rate, period\<close>

text \<open>
  What the crate documents. \<open>acc now rl\<close> is what has accrued since the last refill and is not
  yet in the bucket: the refill is lazy, done by a take, and capped. A bucket is built holding its
  initial tokens; changing the cap trims what the bucket holds; changing the rate leaves it.
\<close>

definition ratelimit_laws :: "'rl ratelimit \<Rightarrow> (nat \<Rightarrow> 'rl \<Rightarrow> nat) \<Rightarrow> bool" where
  "ratelimit_laws L acc \<longleftrightarrow>
     (\<forall>now rate period cap init. 0 < rate \<longrightarrow> 0 < period \<longrightarrow> 0 < cap \<longrightarrow> init \<le> cap \<longrightarrow>
        (\<exists>rl. rl_build L now rate period cap init = Some rl \<and> rl_max_tokens L rl = cap \<and>
              rl_available L rl = init \<and> rl_rate L rl = rate \<and> rl_period L rl = period \<and>
              acc now rl = 0)) \<and>
     (\<forall>now n rl. 0 < rl_rate L rl \<longrightarrow> n \<le> rl_max_tokens L rl \<longrightarrow>
        (let held = min (rl_available L rl + acc now rl) (rl_max_tokens L rl);
             (r, rl') = rl_try_wait_n L now n rl
         in (if n \<le> held then r = Inr () \<and> rl_available L rl' = held - n
             else (\<exists>d. r = Inl (Insufficient d)) \<and> rl_available L rl' = held) \<and>
            acc now rl' = 0 \<and> rl_max_tokens L rl' = rl_max_tokens L rl \<and>
            rl_rate L rl' = rl_rate L rl \<and> rl_period L rl' = rl_period L rl)) \<and>
     (\<forall>now c rl. rl_max_tokens L (rl_set_max_tokens L c rl) = c \<and>
        rl_available L (rl_set_max_tokens L c rl) = min (rl_available L rl) c \<and>
        acc now (rl_set_max_tokens L c rl) = acc now rl \<and>
        rl_rate L (rl_set_max_tokens L c rl) = rl_rate L rl \<and>
        rl_period L (rl_set_max_tokens L c rl) = rl_period L rl) \<and>
     (\<forall>r p rl. rl_rate L (rl_set_rate_per L r p rl) = r \<and> rl_period L (rl_set_rate_per L r p rl) = p \<and>
        rl_max_tokens L (rl_set_rate_per L r p rl) = rl_max_tokens L rl)"

section \<open>One worker's limiter\<close>

abbreviation SUB :: nat where "SUB \<equiv> 1024"
abbreviation NANOS_PER_SEC :: nat where "NANOS_PER_SEC \<equiv> 1000000000"

record 'rl worker_limiter =
  wl_inner :: 'rl
  wl_claim :: nat
  wl_start :: nat

text \<open>\<open>None\<close> where the builder fails and \<open>expect\<close> panics.\<close>

definition limiter_build ::
  "'rl ratelimit \<Rightarrow> nat \<Rightarrow> nat \<Rightarrow> nat \<Rightarrow> nat \<Rightarrow> nat \<Rightarrow> nat \<Rightarrow> nat option \<Rightarrow> 'rl worker_limiter option" where
  "limiter_build L now rate period burst stagger claim start =
     (let cap = saturating_add (saturating_mul burst SUB) stagger;
          s = min (case start of None \<Rightarrow> cap | Some s \<Rightarrow> s) cap
      in case rl_build L now (saturating_mul rate SUB) period cap s of
           None \<Rightarrow> None
         | Some rl \<Rightarrow> Some \<lparr>wl_inner = rl, wl_claim = saturating_mul (max claim 1) SUB, wl_start = s\<rparr>)"

definition limiter_restart :: "'rl ratelimit \<Rightarrow> nat \<Rightarrow> 'rl worker_limiter \<Rightarrow> 'rl worker_limiter" where
  "limiter_restart L now w =
     (let cap = rl_max_tokens L (wl_inner w);
          rl = rl_set_max_tokens L (saturating_add (wl_start w) 1) (wl_inner w);
          rl = snd (rl_try_wait_n L now 1 rl);
          rl = rl_set_max_tokens L cap rl
      in w\<lparr>wl_inner := rl\<rparr>)"

definition limiter_paced :: "'rl ratelimit \<Rightarrow> nat \<Rightarrow> nat \<Rightarrow> nat \<Rightarrow> 'rl worker_limiter option" where
  "limiter_paced L now rate claim =
     (let claim = max claim 1;
          hold = wrapping_add (max (rate div 100) claim) claim
      in limiter_build L now rate NANOS_PER_SEC hold 0 1 (Some 0))"

definition limiter_per_second :: "'rl ratelimit \<Rightarrow> nat \<Rightarrow> nat \<Rightarrow> nat \<Rightarrow> 'rl worker_limiter option" where
  "limiter_per_second L now rate burst = limiter_build L now rate NANOS_PER_SEC burst 0 1 None"

definition limiter_try_wait_n ::
  "'rl ratelimit \<Rightarrow> nat \<Rightarrow> nat \<Rightarrow> 'rl worker_limiter \<Rightarrow> (try_wait_error + unit) \<times> 'rl worker_limiter" where
  "limiter_try_wait_n L now n w =
     (let (r, rl) = rl_try_wait_n L now (saturating_mul n SUB) (wl_inner w) in (r, w\<lparr>wl_inner := rl\<rparr>))"

definition limiter_try_wait ::
  "'rl ratelimit \<Rightarrow> nat \<Rightarrow> 'rl worker_limiter \<Rightarrow> (try_wait_error + unit) \<times> 'rl worker_limiter" where
  "limiter_try_wait L now w = limiter_try_wait_n L now 1 w"

text \<open>\<open>Inl wait\<close> when refused.\<close>

definition limiter_try_take ::
  "'rl ratelimit \<Rightarrow> nat \<Rightarrow> 'rl worker_limiter \<Rightarrow> (nat + unit) \<times> 'rl worker_limiter" where
  "limiter_try_take L now w =
     (let (r, w) = limiter_try_wait L now w
      in ((case r of Inr u \<Rightarrow> Inr u | Inl (Insufficient wait) \<Rightarrow> Inl wait | Inl _ \<Rightarrow> Inl 1000000), w))"

definition limiter_max_tokens :: "'rl ratelimit \<Rightarrow> 'rl worker_limiter \<Rightarrow> nat" where
  "limiter_max_tokens L w = rl_max_tokens L (wl_inner w) div SUB"

definition limiter_slip_ns :: "'rl ratelimit \<Rightarrow> 'rl worker_limiter \<Rightarrow> nat" where
  "limiter_slip_ns L w =
     (let rate = rl_rate L (wl_inner w) in
      if rate = 0 then 0
      else let behind = saturating_sub (rl_available L (wl_inner w)) (wl_claim w)
           in min (behind * rl_period L (wl_inner w) div rate) U64_MAX)"

definition limiter_dropped :: "'rl ratelimit \<Rightarrow> 'rl worker_limiter \<Rightarrow> nat" where
  "limiter_dropped L w = rl_dropped L (wl_inner w) div SUB"

definition limiter_set_rate_per :: "'rl ratelimit \<Rightarrow> nat \<Rightarrow> nat \<Rightarrow> 'rl worker_limiter \<Rightarrow> 'rl worker_limiter" where
  "limiter_set_rate_per L rate period w = w\<lparr>wl_inner := rl_set_rate_per L (saturating_mul rate SUB) period (wl_inner w)\<rparr>"

section \<open>The prefill pacer\<close>

record 'rl prefill_pacer =
  pp_limiter :: "'rl worker_limiter"
  pp_waiting :: nat
  pp_max_sleep :: nat

definition pacer_new :: "'rl ratelimit \<Rightarrow> nat \<Rightarrow> nat \<Rightarrow> nat \<Rightarrow> 'rl prefill_pacer option" where
  "pacer_new L now rate claim =
     (case limiter_paced L now rate claim of None \<Rightarrow> None
      | Some w \<Rightarrow>
          let hold = f_div (f_of_nat (limiter_max_tokens L w)) (f_of_nat (max rate 1)) in
          (case duration_from_secs_f64 (f_div hold (Fin 2)) of None \<Rightarrow> None
           | Some d \<Rightarrow> Some \<lparr>pp_limiter = w, pp_waiting = 0, pp_max_sleep = d\<rparr>))"

definition duration_saturating_mul :: "nat \<Rightarrow> nat \<Rightarrow> nat" where
  "duration_saturating_mul d n = min (d * n) DURATION_MAX"

text \<open>
  \<open>Inl sleep\<close> refuses: the caller holds a \<open>Refused\<close> and is counted as waiting until it drops it
  (\<open>refused_drop\<close>).
\<close>

definition pacer_try_take :: "'rl ratelimit \<Rightarrow> nat \<Rightarrow> 'rl prefill_pacer \<Rightarrow> (nat + unit) \<times> 'rl prefill_pacer" where
  "pacer_try_take L now p =
     (let (r, w) = limiter_try_take L now (pp_limiter p); p = p\<lparr>pp_limiter := w\<rparr> in
      case r of
        Inr u \<Rightarrow> (Inr u, p)
      | Inl wait \<Rightarrow>
          let n = wrapping_add (pp_waiting p) 1;
              sleep = min (duration_saturating_mul wait (min n U32_MAX)) (max (pp_max_sleep p) wait)
          in (Inl sleep, p\<lparr>pp_waiting := n\<rparr>))"

definition refused_drop :: "'rl prefill_pacer \<Rightarrow> 'rl prefill_pacer" where
  "refused_drop p = p\<lparr>pp_waiting := wrapping_sub (pp_waiting p) 1\<rparr>"

definition pacer_restart :: "'rl ratelimit \<Rightarrow> nat \<Rightarrow> 'rl prefill_pacer \<Rightarrow> 'rl prefill_pacer" where
  "pacer_restart L now p = p\<lparr>pp_limiter := limiter_restart L now (pp_limiter p)\<rparr>"

section \<open>The limiters of a run\<close>

record 'rl worker_limiters =
  ws_limiters :: "'rl worker_limiter option list"
  ws_weights :: "nat list"
  ws_total_weight :: nat
  ws_rate :: nat

definition share_ceil :: "nat \<Rightarrow> nat \<Rightarrow> nat \<Rightarrow> nat" where
  "share_ceil rate weight total_weight = div_ceil (rate * weight) (max total_weight 1) mod U64_LIMIT"

text \<open>The closure of \<open>WorkerLimiters::new\<close> over the weights, with its running \<open>index\<close>.\<close>

fun build_limiters ::
  "'rl ratelimit \<Rightarrow> nat \<Rightarrow> nat \<Rightarrow> nat \<Rightarrow> nat \<Rightarrow> nat \<Rightarrow> nat \<Rightarrow> nat list \<Rightarrow> 'rl worker_limiter option list option" where
  "build_limiters L now rate claim total_weight active index [] = Some []"
| "build_limiters L now rate claim total_weight active index (w # ws) =
     (if w = 0
      then map_option ((#) None) (build_limiters L now rate claim total_weight active index ws)
      else
        let burst = max (share_ceil rate w total_weight) claim;
            stagger = wrapping_mul (wrapping_mul index claim) SUB div active
        in case limiter_build L now (saturating_mul rate w) (total_weight * NANOS_PER_SEC) burst stagger claim
                  (Some stagger) of
             None \<Rightarrow> None
           | Some l \<Rightarrow> map_option ((#) (Some l))
                        (build_limiters L now rate claim total_weight active (index + 1) ws))"

definition active_workers :: "nat list \<Rightarrow> nat" where
  "active_workers ws = length (filter (\<lambda>w. w > 0) ws)"

definition limiters_new :: "'rl ratelimit \<Rightarrow> nat \<Rightarrow> nat \<Rightarrow> nat list \<Rightarrow> nat \<Rightarrow> 'rl worker_limiters option" where
  "limiters_new L now rate connections claim =
     (let weights = connections;
          total_weight = max (sum_list weights mod U64_LIMIT) 1;
          active = max (active_workers weights) 1;
          claim = max claim 1
      in case build_limiters L now rate claim total_weight active 0 weights of
           None \<Rightarrow> None
         | Some ls \<Rightarrow> Some \<lparr>ws_limiters = ls, ws_weights = weights, ws_total_weight = total_weight, ws_rate = rate\<rparr>)"

definition limiters_restart :: "'rl ratelimit \<Rightarrow> nat \<Rightarrow> 'rl worker_limiters \<Rightarrow> 'rl worker_limiters" where
  "limiters_restart L now l = l\<lparr>ws_limiters := map (map_option (limiter_restart L now)) (ws_limiters l)\<rparr>"

definition limiters_worker :: "'rl worker_limiters \<Rightarrow> nat \<Rightarrow> 'rl worker_limiter option" where
  "limiters_worker l i = (if i < length (ws_limiters l) then ws_limiters l ! i else None)"

definition limiters_set_rate :: "'rl ratelimit \<Rightarrow> nat \<Rightarrow> 'rl worker_limiters \<Rightarrow> 'rl worker_limiters" where
  "limiters_set_rate L rate l =
     (let period = ws_total_weight l * NANOS_PER_SEC in
      l\<lparr>ws_limiters := map (\<lambda>(rl, w). map_option (limiter_set_rate_per L (saturating_mul rate w) period) rl)
                        (zip (ws_limiters l) (ws_weights l)),
        ws_rate := rate\<rparr>)"

definition limiters_dropped :: "'rl ratelimit \<Rightarrow> 'rl worker_limiters \<Rightarrow> nat" where
  "limiters_dropped L l =
     (\<Sum>rl\<leftarrow>ws_limiters l. case rl of None \<Rightarrow> 0 | Some w \<Rightarrow> limiter_dropped L w) mod U64_LIMIT"

section \<open>What a split gives each worker\<close>

text \<open>No product of the split exceeds a \<open>u64\<close>: rates, connection counts and batches as a run has them.\<close>

definition split_in_range :: "nat \<Rightarrow> nat list \<Rightarrow> nat \<Rightarrow> bool" where
  "split_in_range rate conns claim \<longleftrightarrow>
     0 < rate \<and> 0 < sum_list conns \<and> rate * sum_list conns * SUB \<le> U64_MAX \<and>
     (rate + 2 * max claim 1) * SUB \<le> U64_MAX \<and> length conns * max claim 1 * SUB \<le> U64_MAX"

definition stagger_of :: "nat \<Rightarrow> nat list \<Rightarrow> nat \<Rightarrow> nat" where
  "stagger_of claim conns k = k * claim * SUB div max (active_workers conns) 1"

lemma build_limiters_nth:
  assumes "build_limiters L now rate claim tw active k ws = Some ls" and "i < length ws"
  shows "length ls = length ws \<and>
    (if ws ! i = 0 then ls ! i = None
     else \<exists>l. ls ! i = Some l \<and>
       limiter_build L now (saturating_mul rate (ws ! i)) (tw * NANOS_PER_SEC)
         (max (share_ceil rate (ws ! i) tw) claim)
         (wrapping_mul (wrapping_mul (k + active_workers (take i ws)) claim) SUB div active)
         claim (Some (wrapping_mul (wrapping_mul (k + active_workers (take i ws)) claim) SUB div active))
         = Some l)"
  using assms
proof (induction ws arbitrary: k ls i)
  case Nil
  then show ?case by simp
next
  case (Cons w ws)
  obtain l ls' where ls: "ls = l # ls'" and
    rest: "build_limiters L now rate claim tw active (if w = 0 then k else k + 1) ws = Some ls'"
    and hd: "if w = 0 then l = None else \<exists>x. l = Some x \<and>
       limiter_build L now (saturating_mul rate w) (tw * NANOS_PER_SEC)
         (max (share_ceil rate w tw) claim) (wrapping_mul (wrapping_mul k claim) SUB div active)
         claim (Some (wrapping_mul (wrapping_mul k claim) SUB div active)) = Some x"
    using Cons.prems(1) by (auto simp: Let_def split: if_splits option.splits)
  show ?case
  proof (cases i)
    case 0
    have "length ls' = length ws"
    proof (cases ws)
      case (Cons a as)
      then show ?thesis using Cons.IH [OF rest, of 0] by simp
    qed (use rest in simp)
    with 0 hd ls show ?thesis by (simp add: active_workers_def)
  next
    case (Suc j)
    have e: "(if w = 0 then k else k + 1) + active_workers (take j ws) =
          k + active_workers (w # take j ws)"
      by (simp add: active_workers_def)
    show ?thesis
      using Cons.IH [OF rest, of j, unfolded e] Cons.prems(2) Suc ls by simp
  qed
qed

lemma build_limiters_length:
  "build_limiters L now rate claim tw active k ws = Some ls \<Longrightarrow> length ls = length ws"
  by (induction ws arbitrary: k ls) (auto simp: Let_def split: if_splits option.splits)

lemma build_limiters_defined:
  assumes "\<And>w k. w \<in> set ws \<Longrightarrow> 0 < w \<Longrightarrow>
    limiter_build L now (saturating_mul rate w) (tw * NANOS_PER_SEC) (max (share_ceil rate w tw) claim)
      (wrapping_mul (wrapping_mul k claim) SUB div active) claim
      (Some (wrapping_mul (wrapping_mul k claim) SUB div active)) \<noteq> None"
  shows "\<exists>ls. build_limiters L now rate claim tw active k ws = Some ls"
  using assms
proof (induction ws arbitrary: k)
  case Nil
  then show ?case by simp
next
  case (Cons w ws)
  have IH: "\<exists>ls. build_limiters L now rate claim tw active j ws = Some ls" for j
    using Cons by simp
  show ?case
  proof (cases "w = 0")
    case True
    then show ?thesis using IH [of k] by auto
  next
    case False
    then obtain l where "limiter_build L now (saturating_mul rate w) (tw * NANOS_PER_SEC)
      (max (share_ceil rate w tw) claim)
      (wrapping_mul (wrapping_mul k claim) SUB div active) claim
      (Some (wrapping_mul (wrapping_mul k claim) SUB div active)) = Some l"
      using Cons.prems [of w k] by auto
    then show ?thesis using False IH [of "k + 1"] by (auto simp: Let_def)
  qed
qed

lemma active_take_less:
  "i < length ws \<Longrightarrow> ws ! i > 0 \<Longrightarrow> active_workers (take i ws) < active_workers ws"
proof (induction ws arbitrary: i)
  case (Cons w ws)
  then show ?case by (cases i) (auto simp: active_workers_def)
qed simp

lemma active_le_length: "active_workers ws \<le> length ws"
  by (simp add: active_workers_def)

lemma share_ceil_le: "0 < t \<Longrightarrow> w \<le> t \<Longrightarrow> share_ceil rate w t \<le> rate"
proof -
  assume t: "0 < t" and w: "w \<le> t"
  have "div_ceil (rate * w) (max t 1) \<le> rate"
    using t w by (intro div_ceil_least) (auto simp: max_def)
  then show ?thesis by (simp add: share_ceil_def)
qed

lemma limiter_build_laws:
  assumes laws: "ratelimit_laws L acc" and "0 < rate" and "0 < period" and "0 < burst"
    and rng: "rate * SUB \<le> U64_MAX" "burst * SUB + stagger \<le> U64_MAX" "max claim 1 * SUB \<le> U64_MAX"
  shows "\<exists>w. limiter_build L now rate period burst stagger claim (Some stagger) = Some w \<and>
    rl_rate L (wl_inner w) = rate * SUB \<and> rl_period L (wl_inner w) = period \<and>
    rl_max_tokens L (wl_inner w) = burst * SUB + stagger \<and> rl_available L (wl_inner w) = stagger \<and>
    acc now (wl_inner w) = 0 \<and> wl_claim w = max claim 1 * SUB \<and> wl_start w = stagger"
proof -
  have r: "saturating_mul rate SUB = rate * SUB" using rng(1) by (rule saturating_mul_exact)
  have c: "saturating_add (saturating_mul burst SUB) stagger = burst * SUB + stagger"
    using rng(2) by (simp add: saturating_add_def saturating_mul_def)
  have "\<exists>rl. rl_build L now (rate * SUB) period (burst * SUB + stagger) stagger = Some rl \<and>
      rl_max_tokens L rl = burst * SUB + stagger \<and> rl_available L rl = stagger \<and>
      rl_rate L rl = rate * SUB \<and> rl_period L rl = period \<and> acc now rl = 0"
    using laws assms(2-4) unfolding ratelimit_laws_def by simp
  then show ?thesis
    using rng(3) by (auto simp: limiter_build_def Let_def r c saturating_mul_exact)
qed

lemma limiter_build_defined:
  assumes "ratelimit_laws L acc" and "0 < rate" and "0 < period" and "0 < burst"
  shows "limiter_build L now rate period burst stagger claim st \<noteq> None"
proof -
  let ?cap = "saturating_add (saturating_mul burst SUB) stagger"
  have "0 < saturating_mul rate SUB" "0 < ?cap"
    using assms(2,4) by (simp_all add: saturating_mul_def saturating_add_def)
  then have "\<exists>rl. rl_build L now (saturating_mul rate SUB) period ?cap
      (min (case st of None \<Rightarrow> ?cap | Some s \<Rightarrow> s) ?cap) = Some rl"
    using assms(1,3) unfolding ratelimit_laws_def by (meson min.cobounded2)
  then show ?thesis by (auto simp: limiter_build_def Let_def)
qed

lemma member_le_sum: "(x::nat) \<in> set xs \<Longrightarrow> x \<le> sum_list xs"
  by (rule member_le_sum_list) auto

lemma stagger_exact:
  assumes "split_in_range rate conns claim" and "k < active_workers conns"
  shows "wrapping_mul (wrapping_mul k (max claim 1)) SUB div max (active_workers conns) 1
           = stagger_of (max claim 1) conns k"
    and "stagger_of (max claim 1) conns k < max claim 1 * SUB"
proof -
  let ?c = "max claim 1"
  have "k * ?c * SUB \<le> length conns * ?c * SUB"
    using assms(2) active_le_length [of conns] by (intro mult_le_mono) auto
  then have le: "k * ?c * SUB \<le> U64_MAX"
    using assms(1) unfolding split_in_range_def by linarith
  then have "k * ?c \<le> U64_MAX" by linarith
  with le have "wrapping_mul (wrapping_mul k ?c) SUB = k * ?c * SUB"
    by (simp add: wrapping_mul_def)
  then show "wrapping_mul (wrapping_mul k ?c) SUB div max (active_workers conns) 1
           = stagger_of ?c conns k" by (simp add: stagger_of_def)
  have "k * ?c * SUB < max (active_workers conns) 1 * (?c * SUB)" using assms(2) by simp
  then show "stagger_of ?c conns k < ?c * SUB"
    unfolding stagger_of_def by (subst div_less_iff_less_mult) (auto simp: mult.commute)
qed

definition worker_spec ::
  "'rl ratelimit \<Rightarrow> (nat \<Rightarrow> 'rl \<Rightarrow> nat) \<Rightarrow> nat \<Rightarrow> nat \<Rightarrow> nat list \<Rightarrow> nat \<Rightarrow> nat \<Rightarrow> 'rl worker_limiter \<Rightarrow> bool" where
  "worker_spec L acc now rate conns claim i w \<longleftrightarrow>
     (let st = stagger_of (max claim 1) conns (active_workers (take i conns)) in
      rl_rate L (wl_inner w) = rate * conns ! i * SUB \<and>
      rl_period L (wl_inner w) = sum_list conns * NANOS_PER_SEC \<and>
      rl_max_tokens L (wl_inner w) =
        max (share_ceil rate (conns ! i) (sum_list conns)) (max claim 1) * SUB + st \<and>
      rl_available L (wl_inner w) = st \<and> acc now (wl_inner w) = 0 \<and>
      wl_claim w = max claim 1 * SUB \<and> wl_start w = st \<and> st < max claim 1 * SUB)"

lemma limiters_new_spec:
  assumes laws: "ratelimit_laws L acc" and rng: "split_in_range rate conns claim"
  shows "\<exists>l. limiters_new L now rate conns claim = Some l \<and> length (ws_limiters l) = length conns \<and>
    ws_weights l = conns \<and> ws_total_weight l = sum_list conns \<and> ws_rate l = rate \<and>
    (\<forall>i<length conns. if conns ! i = 0 then ws_limiters l ! i = None
       else \<exists>w. ws_limiters l ! i = Some w \<and> worker_spec L acc now rate conns claim i w)"
proof -
  let ?c = "max claim 1" and ?t = "sum_list conns" and ?a = "max (active_workers conns) 1"
  have R: "0 < rate" "0 < ?t" "rate * ?t * SUB \<le> U64_MAX" "(rate + 2 * ?c) * SUB \<le> U64_MAX"
    using rng by (simp_all add: split_in_range_def)
  have tmod: "max (?t mod U64_LIMIT) 1 = ?t"
  proof -
    have "1 * ?t * 1 \<le> rate * ?t * SUB" using R(1) by (intro mult_le_mono) auto
    then have "?t < U64_LIMIT" using R(3) by linarith
    then show ?thesis using R(2) by simp
  qed
  have "\<exists>ls. build_limiters L now rate ?c ?t ?a 0 conns = Some ls"
    using R by (intro build_limiters_defined limiter_build_defined [OF laws])
      (auto simp: saturating_mul_def)
  then obtain ls where ls: "build_limiters L now rate ?c ?t ?a 0 conns = Some ls" by blast
  let ?l = "\<lparr>ws_limiters = ls, ws_weights = conns, ws_total_weight = ?t, ws_rate = rate\<rparr>"
  have new: "limiters_new L now rate conns claim = Some ?l"
    unfolding limiters_new_def Let_def tmod ls by simp
  moreover have "if conns ! i = 0 then ls ! i = None
     else \<exists>w. ls ! i = Some w \<and> worker_spec L acc now rate conns claim i w" if i: "i < length conns" for i
  proof (cases "conns ! i = 0")
    case True
    then show ?thesis using build_limiters_nth [OF ls i] by simp
  next
    case False
    let ?w = "conns ! i"
    let ?k = "active_workers (take i conns)"
    let ?st = "stagger_of ?c conns ?k"
    have k: "?k < active_workers conns" using active_take_less [OF i] False by simp
    note st = stagger_exact [OF rng k]
    have w: "?w \<le> ?t" using i by (intro member_le_sum) simp
    have b: "max (share_ceil rate ?w ?t) ?c \<le> rate + ?c"
      using share_ceil_le [OF R(2) w, of rate] by simp
    have "rate * ?w * SUB \<le> rate * ?t * SUB" using w by (intro mult_le_mono) auto
    then have rw: "rate * ?w * SUB \<le> U64_MAX" using R(3) by linarith
    then have sm: "saturating_mul rate ?w = rate * ?w" by (intro saturating_mul_exact) linarith
    have cap: "max (share_ceil rate ?w ?t) ?c * SUB + ?st \<le> U64_MAX"
    proof -
      have "max (share_ceil rate ?w ?t) ?c * SUB \<le> (rate + ?c) * SUB" using b by (rule mult_le_mono1)
      then show ?thesis using st(2) R(4) by (simp add: algebra_simps)
    qed
    obtain x where x: "ls ! i = Some x" "limiter_build L now (rate * ?w) (?t * NANOS_PER_SEC)
         (max (share_ceil rate ?w ?t) ?c) ?st ?c (Some ?st) = Some x"
      using build_limiters_nth [OF ls i] False unfolding add_0 st(1) sm by auto
    have "worker_spec L acc now rate conns claim i x"
      using limiter_build_laws [OF laws, of "rate * ?w" "?t * NANOS_PER_SEC"
          "max (share_ceil rate ?w ?t) ?c" ?st ?c now] x(2) R False rw cap st(2)
      by (auto simp: worker_spec_def Let_def)
    with x(1) False show ?thesis by simp
  qed
  ultimately show ?thesis using build_limiters_length [OF ls] by auto
qed

text \<open>A token bucket that keeps the crate's laws: the instance the witnesses run on.\<close>

record bucket =
  bk_rate :: nat
  bk_period :: nat
  bk_cap :: nat
  bk_held :: nat
  bk_last :: nat

definition bucket_acc :: "nat \<Rightarrow> bucket \<Rightarrow> nat" where
  "bucket_acc now b = (now - bk_last b) * bk_rate b div bk_period b"

definition bucket_api :: "bucket ratelimit" where
  "bucket_api = \<lparr>
     rl_build = (\<lambda>now r p c i. Some \<lparr>bk_rate = r, bk_period = p, bk_cap = c, bk_held = i, bk_last = now\<rparr>),
     rl_try_wait_n = (\<lambda>now n b.
        let held = min (bk_held b + bucket_acc now b) (bk_cap b) in
        if n > bk_cap b then (Inl ExceedsCapacity, b)
        else if n \<le> held then (Inr (), b\<lparr>bk_held := held - n, bk_last := now\<rparr>)
        else (Inl (Insufficient ((n - held) * bk_period b div bk_rate b)), b\<lparr>bk_held := held, bk_last := now\<rparr>)),
     rl_max_tokens = bk_cap,
     rl_set_max_tokens = (\<lambda>c b. b\<lparr>bk_cap := c, bk_held := min (bk_held b) c\<rparr>),
     rl_available = bk_held, rl_rate = bk_rate, rl_period = bk_period,
     rl_dropped = (\<lambda>b. 0), rl_set_rate_per = (\<lambda>r p b. b\<lparr>bk_rate := r, bk_period := p\<rparr>)\<rparr>"

lemma bucket_laws: "ratelimit_laws bucket_api bucket_acc"
  by (auto simp: ratelimit_laws_def bucket_api_def bucket_acc_def Let_def)

section \<open>Properties\<close>

definition combined_rate :: "'rl ratelimit \<Rightarrow> 'rl worker_limiters \<Rightarrow> nat" where
  "combined_rate L l = (\<Sum>w\<leftarrow>ws_limiters l. case w of None \<Rightarrow> 0 | Some w \<Rightarrow> rl_rate L (wl_inner w))"

lemma combined_rate_eq:
  assumes "length (ws_limiters l) = length conns"
    and "\<forall>i<length conns. if conns ! i = 0 then ws_limiters l ! i = None
       else \<exists>w. ws_limiters l ! i = Some w \<and> rl_rate L (wl_inner w) = rate * conns ! i * SUB"
  shows "combined_rate L l = rate * sum_list conns * SUB"
proof -
  have "map (\<lambda>w. case w of None \<Rightarrow> 0 | Some w \<Rightarrow> rl_rate L (wl_inner w)) (ws_limiters l)
      = map (\<lambda>c. rate * c * SUB) conns"
    using assms by (intro nth_equalityI) (auto split: option.splits if_splits dest!: spec)
  then have "combined_rate L l = (\<Sum>c\<leftarrow>conns. rate * c * SUB)" by (simp add: combined_rate_def)
  also have "\<dots> = rate * sum_list conns * SUB"
    by (induction conns) (simp_all add: algebra_simps)
  finally show ?thesis .
qed



lemma try_wait_laws:
  assumes "ratelimit_laws L acc" and "0 < rl_rate L rl" and "n \<le> rl_max_tokens L rl"
    and "rl_try_wait_n L now n rl = (r, rl')"
  shows "let held = min (rl_available L rl + acc now rl) (rl_max_tokens L rl) in
         (if n \<le> held then r = Inr () \<and> rl_available L rl' = held - n
          else (\<exists>d. r = Inl (Insufficient d)) \<and> rl_available L rl' = held)"
    and "acc now rl' = 0" and "rl_max_tokens L rl' = rl_max_tokens L rl"
    and "rl_rate L rl' = rl_rate L rl" and "rl_period L rl' = rl_period L rl"
proof -
  have "let held = min (rl_available L rl + acc now rl) (rl_max_tokens L rl);
            (r, rl') = rl_try_wait_n L now n rl
         in (if n \<le> held then r = Inr () \<and> rl_available L rl' = held - n
             else (\<exists>d. r = Inl (Insufficient d)) \<and> rl_available L rl' = held) \<and>
            acc now rl' = 0 \<and> rl_max_tokens L rl' = rl_max_tokens L rl \<and>
            rl_rate L rl' = rl_rate L rl \<and> rl_period L rl' = rl_period L rl"
    using assms(1-3) unfolding ratelimit_laws_def by blast
  note this [unfolded assms(4), simplified Let_def prod.case]
  then show "let held = min (rl_available L rl + acc now rl) (rl_max_tokens L rl) in
         (if n \<le> held then r = Inr () \<and> rl_available L rl' = held - n
          else (\<exists>d. r = Inl (Insufficient d)) \<and> rl_available L rl' = held)"
    and "acc now rl' = 0" and "rl_max_tokens L rl' = rl_max_tokens L rl"
    and "rl_rate L rl' = rl_rate L rl" and "rl_period L rl' = rl_period L rl"
    unfolding Let_def by blast+
qed

lemma limiters_start_facts:
  assumes laws: "ratelimit_laws L acc" and rng: "split_in_range rate conns claim"
    and new: "limiters_new L now rate conns claim = Some l" and w: "limiters_worker l i = Some w"
  shows "rl_available L (wl_inner w) =
           active_workers (take i conns) * max claim 1 * SUB div active_workers conns"
    and "\<exists>d. fst (limiter_try_wait_n L now (max claim 1) w) = Inl (Insufficient d)"
    and "limiter_slip_ns L w = 0"
    and "max claim 1 \<le> limiter_max_tokens L w"
    and "share_ceil rate (conns ! i) (sum_list conns) \<le> limiter_max_tokens L w"
proof -
  let ?c = "max claim 1"
  have i: "i < length conns" "ws_limiters l ! i = Some w" and
    sp: "worker_spec L acc now rate conns claim i w" and pos: "0 < conns ! i"
    using limiters_new_spec [OF laws rng, of now] new w
    by (fastforce simp: limiters_worker_def split: if_splits)+
  define st where "st = stagger_of ?c conns (active_workers (take i conns))"
  have S: "rl_rate L (wl_inner w) = rate * conns ! i * SUB"
    "rl_max_tokens L (wl_inner w) = max (share_ceil rate (conns ! i) (sum_list conns)) ?c * SUB + st"
    "rl_available L (wl_inner w) = st" "acc now (wl_inner w) = 0" "wl_claim w = ?c * SUB" "st < ?c * SUB"
    using sp by (simp_all add: worker_spec_def Let_def st_def)
  have "active_workers conns > 0" using active_take_less [OF i(1) pos] by simp
  then show "rl_available L (wl_inner w) =
      active_workers (take i conns) * ?c * SUB div active_workers conns"
    using S(3) by (simp add: st_def stagger_of_def)
  have rate0: "0 < rl_rate L (wl_inner w)" using S(1) pos rng by (simp add: split_in_range_def)
  have "c * SUB \<le> (rate + 2 * c) * SUB" for c by simp
  then have c: "saturating_mul ?c SUB = ?c * SUB"
    using rng unfolding split_in_range_def by (intro saturating_mul_exact) (meson le_trans)
  have fits: "?c * SUB \<le> rl_max_tokens L (wl_inner w)"
    unfolding S(2) by (intro trans_le_add1 mult_le_mono1) simp
  obtain r rl where tw: "rl_try_wait_n L now (?c * SUB) (wl_inner w) = (r, rl)" by fastforce
  have "\<exists>d. r = Inl (Insufficient d)"
    using try_wait_laws(1) [OF laws rate0 fits tw] S(3,4,6) by (auto simp: Let_def split: if_splits)
  then show "\<exists>d. fst (limiter_try_wait_n L now ?c w) = Inl (Insufficient d)"
    unfolding limiter_try_wait_n_def c tw by simp
  show "limiter_slip_ns L w = 0"
    using rate0 S(3,5,6) by (simp add: limiter_slip_ns_def Let_def)
  have le: "n \<le> limiter_max_tokens L w" if "n * SUB \<le> rl_max_tokens L (wl_inner w)" for n
    using that by (simp add: limiter_max_tokens_def less_eq_div_iff_mult_less_eq)
  show "?c \<le> limiter_max_tokens L w" by (rule le [OF fits])
  show "share_ceil rate (conns ! i) (sum_list conns) \<le> limiter_max_tokens L w"
    by (rule le) (unfold S(2), intro trans_le_add1 mult_le_mono1, simp)
qed

text \<open>
  The run opens without a burst and the workers are spread over one claim. Right after the
  limiters are built, worker \<open>i\<close> holds exactly \<open>k/n\<close> of a claim, where \<open>k\<close> of the \<open>n\<close> workers with
  connections come before it; that is less than a claim, so a full-batch claim is refused with a
  wait and the worker reports no schedule slip; and its cap holds at least a claim and at least its
  share of one second, so every claim will be fundable.
\<close>

theorem limiters_start_staggered:
  assumes "ratelimit_laws L acc" and "split_in_range rate conns claim"
    and "limiters_new L now rate conns claim = Some l" and "limiters_worker l i = Some w"
  shows "rl_available L (wl_inner w) =
           active_workers (take i conns) * max claim 1 * SUB div active_workers conns \<and>
    (\<exists>d. fst (limiter_try_wait_n L now (max claim 1) w) = Inl (Insufficient d)) \<and>
    limiter_slip_ns L w = 0 \<and> max claim 1 \<le> limiter_max_tokens L w \<and>
    share_ceil rate (conns ! i) (sum_list conns) \<le> limiter_max_tokens L w"
  using limiters_start_facts [OF assms] by blast

theorem limiters_start_staggered_witness:
  "\<exists>l w. limiters_new bucket_api 9 100 [8, 0, 8] 4 = Some l \<and> limiters_worker l 2 = Some w \<and>
         bk_held (wl_inner w) = 2048"
proof -
  have rng: "split_in_range 100 [8, 0, 8] 4" by (simp add: split_in_range_def)
  from limiters_new_spec [OF bucket_laws rng, of 9] obtain l where
    l: "limiters_new bucket_api 9 100 [8, 0, 8] 4 = Some l" and len: "length (ws_limiters l) = 3"
    and each: "\<forall>i<length [8, 0, 8 :: nat]. if [8, 0, 8] ! i = (0 :: nat) then ws_limiters l ! i = None
       else \<exists>w. ws_limiters l ! i = Some w \<and> worker_spec bucket_api bucket_acc 9 100 [8, 0, 8] 4 i w"
    by auto
  from each [rule_format, of 2] obtain w where "ws_limiters l ! 2 = Some w" by auto
  with len have w: "limiters_worker l 2 = Some w" by (simp add: limiters_worker_def)
  have k: "active_workers (take 2 [8, 0, 8]) = 1" "active_workers [8, 0, 8] = 2"
    by (simp_all add: active_workers_def)
  have "rl_available bucket_api (wl_inner w) = 2048"
    using limiters_start_staggered [OF bucket_laws rng l w] unfolding k by simp
  with l w show ?thesis by (auto simp: bucket_api_def)
qed

text \<open>
  \<open>restart\<close> discards what accrued while connections opened and prefill ran. Afterwards the cap
  is what it was, nothing is left to refill, and the limiter holds at most its stagger; it holds
  exactly the stagger whenever more than that had accrued.
\<close>

theorem restart_discards_accrual:
  fixes now :: nat
  assumes laws: "ratelimit_laws L acc" and rate: "0 < rl_rate L (wl_inner w)"
    and cap: "wl_start w \<le> rl_max_tokens L (wl_inner w)" and small: "wl_start w < U64_MAX"
  defines "w' \<equiv> limiter_restart L now w"
  defines "held \<equiv> rl_available L (wl_inner w) + acc now (wl_inner w)"
  shows "rl_max_tokens L (wl_inner w') = rl_max_tokens L (wl_inner w) \<and>
    acc now (wl_inner w') = 0 \<and> rl_available L (wl_inner w') \<le> wl_start w \<and>
    (wl_start w < held \<longrightarrow> rl_available L (wl_inner w') = wl_start w)"
proof -
  let ?s = "wl_start w"
  let ?rl1 = "rl_set_max_tokens L (?s + 1) (wl_inner w)"
  have set: "rl_max_tokens L (rl_set_max_tokens L c rl) = c"
    "rl_available L (rl_set_max_tokens L c rl) = min (rl_available L rl) c"
    "acc now (rl_set_max_tokens L c rl) = acc now rl"
    "rl_rate L (rl_set_max_tokens L c rl) = rl_rate L rl" for c rl
    using laws unfolding ratelimit_laws_def by blast+
  obtain r rl2 where tw: "rl_try_wait_n L now 1 ?rl1 = (r, rl2)" by fastforce
  have "0 < rl_rate L ?rl1" "1 \<le> rl_max_tokens L ?rl1" using rate by (simp_all add: set)
  note T = try_wait_laws [OF laws this tw]
  have w': "wl_inner w' = rl_set_max_tokens L (rl_max_tokens L (wl_inner w)) rl2"
    using small tw by (simp add: w'_def limiter_restart_def Let_def saturating_add_exact)
  have le: "rl_available L rl2 \<le> ?s"
    using T(1) by (auto simp: set Let_def split: if_splits)
  have "rl_available L rl2 = ?s" if "?s < held"
    using T(1) that by (auto simp: set Let_def held_def min_def split: if_splits)
  then show ?thesis using le T(2) cap by (auto simp: w' set)
qed

theorem restart_discards_accrual_witness:
  "bk_held (wl_inner (limiter_restart bucket_api 7000000000
     \<lparr>wl_inner = \<lparr>bk_rate = 2048, bk_period = 1000000000, bk_cap = 9000, bk_held = 300, bk_last = 0\<rparr>,
      wl_claim = 1024, wl_start = 512\<rparr>)) = 512"
proof -
  let ?w = "\<lparr>wl_inner = \<lparr>bk_rate = 2048, bk_period = 1000000000, bk_cap = 9000, bk_held = 300, bk_last = 0\<rparr>,
      wl_claim = 1024, wl_start = 512\<rparr>"
  have "0 < rl_rate bucket_api (wl_inner ?w)" "wl_start ?w \<le> rl_max_tokens bucket_api (wl_inner ?w)"
    "wl_start ?w < U64_MAX" by (simp_all add: bucket_api_def)
  from restart_discards_accrual [OF bucket_laws this, of 7000000000]
  show ?thesis by (simp add: bucket_api_def bucket_acc_def)
qed

lemma set_rate_nth:
  assumes "length (ws_limiters l) = length (ws_weights l)" and "i < length (ws_weights l)"
  shows "ws_limiters (limiters_set_rate L rate l) ! i =
     map_option (limiter_set_rate_per L (saturating_mul rate (ws_weights l ! i))
        (ws_total_weight l * NANOS_PER_SEC)) (ws_limiters l ! i)"
  using assms by (simp add: limiters_set_rate_def Let_def)

text \<open>
  C21. Changing the rate re-splits it exactly: after \<open>set_rate\<close> the workers together release the new
  rate, the period and every cap are as they were built, no worker gains or loses its limiter, and
  \<open>rate\<close> reports the new total. The saturation search drives the workers through this operation.
\<close>

theorem set_rate_resplits:
  assumes laws: "ratelimit_laws L acc" and rng: "split_in_range rate conns claim"
    and new: "limiters_new L now rate conns claim = Some l"
    and fits: "rate' * sum_list conns * SUB \<le> U64_MAX"
  defines "l' \<equiv> limiters_set_rate L rate' l"
  shows "combined_rate L l' = rate' * sum_list conns * SUB \<and> ws_rate l' = rate' \<and>
    (\<forall>i<length conns. case limiters_worker l i of
        None \<Rightarrow> limiters_worker l' i = None
      | Some w \<Rightarrow> \<exists>w'. limiters_worker l' i = Some w' \<and>
          rl_max_tokens L (wl_inner w') = rl_max_tokens L (wl_inner w) \<and>
          rl_period L (wl_inner w') = sum_list conns * NANOS_PER_SEC)"
proof -
  obtain l0 where "limiters_new L now rate conns claim = Some l0 \<and> length (ws_limiters l0) = length conns \<and>
      ws_weights l0 = conns \<and> ws_total_weight l0 = sum_list conns \<and>
      (\<forall>i<length conns. if conns ! i = 0 then ws_limiters l0 ! i = None
       else \<exists>w. ws_limiters l0 ! i = Some w \<and> worker_spec L acc now rate conns claim i w)"
    using limiters_new_spec [OF laws rng, of now] by blast
  with new have S: "length (ws_limiters l) = length conns" "ws_weights l = conns"
    "ws_total_weight l = sum_list conns" and
    each: "\<And>i. i < length conns \<Longrightarrow> if conns ! i = 0 then ws_limiters l ! i = None
       else \<exists>w. ws_limiters l ! i = Some w \<and> worker_spec L acc now rate conns claim i w"
    by auto
  have len: "length (ws_limiters l') = length conns"
    using S by (simp add: l'_def limiters_set_rate_def Let_def)
  have rw: "rate' * conns ! i * SUB \<le> U64_MAX" if "i < length conns" for i
  proof -
    have "conns ! i \<le> sum_list conns" using that by (intro member_le_sum) simp
    then have "rate' * conns ! i * SUB \<le> rate' * sum_list conns * SUB" by (intro mult_le_mono) auto
    then show ?thesis using fits by linarith
  qed
  have sat: "saturating_mul rate' (conns ! i) = rate' * conns ! i"
    "saturating_mul (rate' * conns ! i) SUB = rate' * conns ! i * SUB" if "i < length conns" for i
    using rw [OF that] by (simp_all add: saturating_mul_def)
  have nth: "ws_limiters l' ! i = map_option (limiter_set_rate_per L (rate' * conns ! i)
      (sum_list conns * NANOS_PER_SEC)) (ws_limiters l ! i)" if "i < length conns" for i
    using set_rate_nth [of l i L rate'] S that by (simp add: l'_def sat)
  have law: "rl_rate L (rl_set_rate_per L r p rl) = r" "rl_period L (rl_set_rate_per L r p rl) = p"
    "rl_max_tokens L (rl_set_rate_per L r p rl) = rl_max_tokens L rl" for r p rl
    using laws unfolding ratelimit_laws_def by blast+
  have "combined_rate L l' = rate' * sum_list conns * SUB"
  proof (intro combined_rate_eq [OF len] allI impI)
    fix i assume i: "i < length conns"
    then show "if conns ! i = 0 then ws_limiters l' ! i = None
      else \<exists>w. ws_limiters l' ! i = Some w \<and> rl_rate L (wl_inner w) = rate' * conns ! i * SUB"
      using each [OF i] by (auto simp: nth limiter_set_rate_per_def sat law)
  qed
  then show ?thesis
    using each S len
    by (auto simp: l'_def [symmetric] limiters_worker_def nth limiter_set_rate_per_def law
        split: option.splits)
      (simp add: l'_def limiters_set_rate_def Let_def)
qed

theorem set_rate_resplits_witness:
  "\<exists>l. limiters_new bucket_api 0 1000 [8, 8] 1 = Some l \<and>
       combined_rate bucket_api (limiters_set_rate bucket_api 80000 l) = 80000 * 16 * SUB"
proof -
  have rng: "split_in_range 1000 [8, 8] 1" by (simp add: split_in_range_def)
  obtain l where l: "limiters_new bucket_api 0 1000 [8, 8] 1 = Some l"
    using limiters_new_spec [OF bucket_laws rng] by blast
  from set_rate_resplits [OF bucket_laws rng l, of 80000] l show ?thesis by simp
qed

end
