(* ===== verification/Saturation.thy ===== *)
theory Saturation
  imports Limiters
begin

text \<open>
  The saturation search (\<open>src/saturation.rs\<close>): a rate search that climbs geometrically to the first
  confirmed failure and bisects from there (\<open>RateSearch\<close>), and the state that measures each step and
  drives the limiters (\<open>SaturationSearchState\<close>).

  Histograms are those of the crate \<open>histogram\<close>, an argument (a record of the two operations used).
  The clock and the metrics read at a check are arguments. Failure messages are data (which bound
  failed, measured and required); their text is formatting.
\<close>

section \<open>The rate search\<close>

abbreviation U32_LIMIT :: nat where "U32_LIMIT \<equiv> 4294967296"

datatype search_phase = Climb | Bisect

datatype search_outcome = Probe nat | Done "nat option"

record rate_search =
  rs_phase :: search_phase
  rs_rate :: nat
  rs_last_good :: "nat option"
  rs_lo :: nat
  rs_hi :: nat
  rs_bisect_steps :: nat
  rs_step_multiplier :: f64
  rs_max_rate :: nat
  rs_bisect_tolerance :: f64
  rs_max_bisect_steps :: nat
  rs_confirm_failures :: nat
  rs_failures_at_rate :: nat
  rs_floor_improvement_ratio :: f64
  rs_last_confirmed_fail :: "(nat \<times> f64) option"
  rs_floor_detected :: bool

definition search_new :: "nat \<Rightarrow> f64 \<Rightarrow> nat \<Rightarrow> f64 \<Rightarrow> nat \<Rightarrow> nat \<Rightarrow> f64 \<Rightarrow> rate_search" where
  "search_new start_rate step_multiplier max_rate bisect_tolerance max_bisect_steps confirm_failures
     floor_improvement_ratio =
   \<lparr>rs_phase = Climb, rs_rate = start_rate, rs_last_good = None, rs_lo = 0, rs_hi = 0, rs_bisect_steps = 0,
    rs_step_multiplier = step_multiplier, rs_max_rate = max_rate, rs_bisect_tolerance = bisect_tolerance,
    rs_max_bisect_steps = max_bisect_steps, rs_confirm_failures = confirm_failures, rs_failures_at_rate = 0,
    rs_floor_improvement_ratio = floor_improvement_ratio, rs_last_confirmed_fail = None,
    rs_floor_detected = False\<rparr>"

definition bisect_probe :: "rate_search \<Rightarrow> rate_search \<times> search_outcome" where
  "bisect_probe s =
     (let mid = wrapping_add (rs_lo s) (wrapping_sub (rs_hi s) (rs_lo s) div 2);
          mid = max (min (max mid (wrapping_add (rs_lo s) 1)) (saturating_sub (rs_hi s) 1)) 1
      in (s\<lparr>rs_rate := mid\<rparr>, Probe mid))"

text \<open>
  The latency-floor test on a confirmed failure: the new state, and whether the search ends here.
\<close>

definition floor_check :: "f64 \<Rightarrow> rate_search \<Rightarrow> rate_search \<times> bool" where
  "floor_check slo_latency_us s =
     (if rs_last_good s = None \<and> f_lt (Fin 0) (rs_floor_improvement_ratio s) \<and>
         is_finite slo_latency_us \<and> f_lt (Fin 0) slo_latency_us
      then if (case rs_last_confirmed_fail s of
                 Some (prev_rate, prev_us) \<Rightarrow>
                   prev_rate \<ge> saturating_mul (rs_rate s) 2 \<and> f_lt (Fin 0) prev_us \<and>
                   f_lt (f_div (f_sub prev_us slo_latency_us) prev_us) (rs_floor_improvement_ratio s)
               | None \<Rightarrow> False)
           then (s\<lparr>rs_floor_detected := True\<rparr>, True)
           else (s\<lparr>rs_last_confirmed_fail := Some (rs_rate s, slo_latency_us)\<rparr>, False)
      else (s, False))"

text \<open>The match on the phase, once the result at the current rate is settled.\<close>

definition search_move :: "bool \<Rightarrow> rate_search \<Rightarrow> rate_search \<times> search_outcome" where
  "search_move passed s =
     (case rs_phase s of
        Climb \<Rightarrow>
          if \<not> passed then
            bisect_probe (s\<lparr>rs_lo := (case rs_last_good s of Some g \<Rightarrow> g | None \<Rightarrow> 0), rs_hi := rs_rate s,
                            rs_phase := Bisect\<rparr>)
          else
            let nxt = f_as_u64 (f_mul (f_of_nat (rs_rate s)) (rs_step_multiplier s)) in
            if nxt \<ge> rs_max_rate s then
              if rs_rate s \<ge> rs_max_rate s then (s, Done (rs_last_good s))
              else (s\<lparr>rs_rate := rs_max_rate s\<rparr>, Probe (rs_max_rate s))
            else let r = max nxt (wrapping_add (rs_rate s) 1) in (s\<lparr>rs_rate := r\<rparr>, Probe r)
      | Bisect \<Rightarrow>
          let s = (if passed then s\<lparr>rs_lo := rs_rate s\<rparr> else s\<lparr>rs_hi := rs_rate s\<rparr>);
              s = s\<lparr>rs_bisect_steps := (rs_bisect_steps s + 1) mod U32_LIMIT\<rparr>;
              width = (if rs_hi s > 0
                       then f_div (f_of_nat (wrapping_sub (rs_hi s) (rs_lo s))) (f_of_nat (rs_hi s)) else Fin 0)
          in if f_le width (rs_bisect_tolerance s) \<or> rs_bisect_steps s \<ge> rs_max_bisect_steps s \<or>
                saturating_sub (rs_hi s) (rs_lo s) \<le> 1
             then (s, Done (if rs_lo s > 0 then Some (rs_lo s) else rs_last_good s))
             else bisect_probe s)"

definition search_advance :: "bool \<Rightarrow> f64 \<Rightarrow> rate_search \<Rightarrow> rate_search \<times> search_outcome" where
  "search_advance passed slo_latency_us s =
     (if passed then
        search_move True (s\<lparr>rs_failures_at_rate := 0, rs_last_good := Some (rs_rate s),
                            rs_last_confirmed_fail := None\<rparr>)
      else
        let s = s\<lparr>rs_failures_at_rate := (rs_failures_at_rate s + 1) mod U32_LIMIT\<rparr> in
        if rs_failures_at_rate s \<le> rs_confirm_failures s then (s, Probe (rs_rate s))
        else let (s, stop) = floor_check slo_latency_us (s\<lparr>rs_failures_at_rate := 0\<rparr>) in
             if stop then (s, Done None) else search_move False s)"

definition is_climbing :: "rate_search \<Rightarrow> bool" where
  "is_climbing s \<longleftrightarrow> rs_phase s = Climb"

section \<open>Measuring the steps\<close>

record slo_thresholds =
  slo_p50 :: "nat option"
  slo_p99 :: "nat option"
  slo_p999 :: "nat option"

record saturation_config =
  sc_slo :: slo_thresholds
  sc_start_rate :: nat
  sc_step_multiplier :: f64
  sc_sample_window :: nat
  sc_drain_window :: nat
  sc_max_rate :: nat
  sc_min_throughput_ratio :: f64
  sc_bisect_tolerance :: f64
  sc_max_bisect_steps :: nat
  sc_confirm_failures :: nat
  sc_floor_improvement_ratio :: f64

text \<open>
  \<open>wrapping_sub\<close> fails on histograms of different shape; \<open>quantiles\<close> of one percentile gives the end
  of the bucket it falls in, or nothing (an empty histogram or an error, which both read as zero).
\<close>

record 'h histogram_api =
  hg_wrapping_sub :: "'h \<Rightarrow> 'h \<Rightarrow> 'h option"
  hg_quantile :: "'h \<Rightarrow> f64 \<Rightarrow> nat option"

record 'h metrics_view =
  mv_responses :: nat
  mv_latency :: "'h option"
  mv_perceived :: "'h option"
  mv_slip :: "'h option"

datatype fail_reason = No_failure | Throughput f64 f64 | Latency string f64 f64

record saturation_step =
  st_target_rate :: nat
  st_achieved_rate :: f64
  st_p50_us :: f64
  st_p99_us :: f64
  st_p999_us :: f64
  st_slo_passed :: bool
  st_fail_reason :: fail_reason
  st_slo_threshold_us :: "f64 option"
  st_slo_percentile :: "string \<times> f64"
  st_perceived_slo_us :: f64
  st_throughput_rollover :: bool
  st_slip_onset :: bool
  st_slo_breach :: bool

record ('rl, 'h) saturation_state =
  ss_config :: saturation_config
  ss_limiters :: "'rl worker_limiters"
  ss_target_rate_metric :: nat
  ss_current_rate :: nat
  ss_last_good_rate :: "nat option"
  ss_search :: rate_search
  ss_step_start :: nat
  ss_baseline_at :: "nat option"
  ss_step_histogram :: "'h option"
  ss_step_perceived :: "'h option"
  ss_step_slip :: "'h option"
  ss_step_responses :: nat
  ss_prev_achieved :: f64
  ss_slip_seen :: bool
  ss_breach_seen :: bool
  ss_results :: "saturation_step list"
  ss_completed :: bool
  ss_header_printed :: bool

definition saturation_new ::
  "'rl ratelimit \<Rightarrow> nat \<Rightarrow> saturation_config \<Rightarrow> 'rl worker_limiters \<Rightarrow> ('rl, 'h) saturation_state" where
  "saturation_new L now c l =
     \<lparr>ss_config = c, ss_limiters = limiters_set_rate L (sc_start_rate c) l,
      ss_target_rate_metric = sc_start_rate c, ss_current_rate = sc_start_rate c, ss_last_good_rate = None,
      ss_search = search_new (sc_start_rate c) (sc_step_multiplier c) (sc_max_rate c) (sc_bisect_tolerance c)
        (sc_max_bisect_steps c) (sc_confirm_failures c) (sc_floor_improvement_ratio c),
      ss_step_start = now, ss_baseline_at = None, ss_step_histogram = None, ss_step_perceived = None,
      ss_step_slip = None, ss_step_responses = 0, ss_prev_achieved = Fin 0, ss_slip_seen = False,
      ss_breach_seen = False, ss_results = [], ss_completed = False, ss_header_printed = False\<rparr>"

definition percentile_from_histogram :: "'h histogram_api \<Rightarrow> 'h \<Rightarrow> f64 \<Rightarrow> f64" where
  "percentile_from_histogram H h p =
     (case hg_quantile H h p of Some bucket_end \<Rightarrow> f_div (f_of_nat bucket_end) (Fin 1000) | None \<Rightarrow> Fin 0)"

text \<open>The percentile of what a histogram gained since the step's baseline.\<close>

definition delta_percentile :: "'h histogram_api \<Rightarrow> 'h option \<Rightarrow> 'h option \<Rightarrow> f64 \<Rightarrow> f64" where
  "delta_percentile H current previous p =
     (case (current, previous) of
        (Some c, Some q) \<Rightarrow>
          (case hg_wrapping_sub H c q of Some d \<Rightarrow> percentile_from_histogram H d p | None \<Rightarrow> Fin 0)
      | (Some c, None) \<Rightarrow> percentile_from_histogram H c p
      | _ \<Rightarrow> Fin 0)"

abbreviation micros_f64 :: "nat \<Rightarrow> f64" where "micros_f64 d \<equiv> f_of_nat (d div 1000)"

definition slo_check :: "string \<Rightarrow> nat option \<Rightarrow> f64 \<Rightarrow> fail_reason option" where
  "slo_check label threshold us =
     (case threshold of
        Some d \<Rightarrow> if f_lt (micros_f64 d) us then Some (Latency label us (micros_f64 d)) else None
      | None \<Rightarrow> None)"

definition slo_fail_reason :: "slo_thresholds \<Rightarrow> f64 \<Rightarrow> f64 \<Rightarrow> f64 \<Rightarrow> fail_reason option" where
  "slo_fail_reason slo p50_us p99_us p999_us =
     (case slo_check ''p50'' (slo_p50 slo) p50_us of
        Some r \<Rightarrow> Some r
      | None \<Rightarrow> (case slo_check ''p99'' (slo_p99 slo) p99_us of
          Some r \<Rightarrow> Some r
        | None \<Rightarrow> slo_check ''p999'' (slo_p999 slo) p999_us))"

definition slo_threshold_us :: "slo_thresholds \<Rightarrow> f64 option" where
  "slo_threshold_us slo =
     map_option micros_f64
       (case slo_p999 slo of Some t \<Rightarrow> Some t
        | None \<Rightarrow> (case slo_p99 slo of Some t \<Rightarrow> Some t | None \<Rightarrow> slo_p50 slo))"

definition slo_percentile :: "slo_thresholds \<Rightarrow> f64 \<Rightarrow> f64 \<Rightarrow> f64 \<Rightarrow> string \<times> f64" where
  "slo_percentile slo p50_us p99_us p999_us =
     (if slo_p999 slo \<noteq> None then (''p999'', p999_us)
      else if slo_p99 slo \<noteq> None then (''p99'', p99_us)
      else if slo_p50 slo \<noteq> None then (''p50'', p50_us)
      else (''p999'', p999_us))"

definition duration_as_secs_f64 :: "nat \<Rightarrow> f64" where
  "duration_as_secs_f64 d = f_add (f_of_nat (d div NANOS_PER_SEC)) (f_div (f_of_nat (d mod NANOS_PER_SEC)) (Fin 1000000000))"

text \<open>The measurement of one step: everything between the window check and recording it.\<close>

definition measure_step :: "'h histogram_api \<Rightarrow> 'h metrics_view \<Rightarrow> nat \<Rightarrow> ('rl, 'h) saturation_state \<Rightarrow> saturation_step \<times> f64" where
  "measure_step H m elapsed s =
     (let c = ss_config s;
          delta_responses = saturating_sub (mv_responses m) (ss_step_responses s);
          achieved_rate = f_div (f_of_nat delta_responses) (duration_as_secs_f64 elapsed);
          pct = delta_percentile H (mv_latency m) (ss_step_histogram s);
          perc = delta_percentile H (mv_perceived m) (ss_step_perceived s);
          p50 = pct (Fin (1 / 2)); p99 = pct (rnd (99 / 100)); p999 = pct (rnd (999 / 1000));
          q50 = perc (Fin (1 / 2)); q99 = perc (rnd (99 / 100)); q999 = perc (rnd (999 / 1000));
          throughput_ratio = f_div achieved_rate (f_of_nat (ss_current_rate s));
          throughput_ok = f_le (sc_min_throughput_ratio c) throughput_ratio;
          latency_reason = slo_fail_reason (sc_slo c) q50 q99 q999;
          slo_passed = (throughput_ok \<and> latency_reason = None);
          reason = (if slo_passed then No_failure
                    else if \<not> throughput_ok then Throughput throughput_ratio (sc_min_throughput_ratio c)
                    else (case latency_reason of Some r \<Rightarrow> r | None \<Rightarrow> No_failure));
          slip_p99_us = delta_percentile H (mv_slip m) (ss_step_slip s) (rnd (99 / 100))
      in (\<lparr>st_target_rate = ss_current_rate s, st_achieved_rate = achieved_rate,
           st_p50_us = p50, st_p99_us = p99, st_p999_us = p999, st_slo_passed = slo_passed,
           st_fail_reason = reason, st_slo_threshold_us = slo_threshold_us (sc_slo c),
           st_slo_percentile = slo_percentile (sc_slo c) p50 p99 p999,
           st_perceived_slo_us = snd (slo_percentile (sc_slo c) q50 q99 q999),
           st_throughput_rollover = (is_climbing (ss_search s) \<and> f_lt (Fin 0) (ss_prev_achieved s) \<and>
             f_lt achieved_rate (ss_prev_achieved s)),
           st_slip_onset = (\<not> ss_slip_seen s \<and> f_lt (Fin 1000) slip_p99_us),
           st_slo_breach = (\<not> slo_passed \<and> \<not> ss_breach_seen s)\<rparr>, slip_p99_us))"

text \<open>From recording the step to the end of \<open>check_and_advance\<close>.\<close>

definition apply_step ::
  "'rl ratelimit \<Rightarrow> nat \<Rightarrow> saturation_step \<times> f64 \<Rightarrow> ('rl, 'h) saturation_state \<Rightarrow> ('rl, 'h) saturation_state" where
  "apply_step L now r s =
     (let (step, slip_p99_us) = r;
          s = s\<lparr>ss_results := ss_results s @ [step], ss_prev_achieved := st_achieved_rate step,
                ss_slip_seen := (ss_slip_seen s \<or> f_lt (Fin 1000) slip_p99_us),
                ss_breach_seen := (ss_breach_seen s \<or> \<not> st_slo_passed step)\<rparr>;
          (search, outcome) = search_advance (st_slo_passed step) (snd (st_slo_percentile step)) (ss_search s);
          s = s\<lparr>ss_search := search\<rparr>
      in case outcome of
           Done knee \<Rightarrow> s\<lparr>ss_last_good_rate := knee, ss_completed := True\<rparr>
         | Probe next_rate \<Rightarrow>
             s\<lparr>ss_current_rate := next_rate, ss_limiters := limiters_set_rate L next_rate (ss_limiters s),
               ss_target_rate_metric := next_rate, ss_step_start := now, ss_baseline_at := None,
               ss_step_histogram := None, ss_step_perceived := None, ss_step_slip := None,
               ss_step_responses := 0\<rparr>)"

definition check_and_advance ::
  "'rl ratelimit \<Rightarrow> 'h histogram_api \<Rightarrow> nat \<Rightarrow> 'h metrics_view \<Rightarrow> ('rl, 'h) saturation_state \<Rightarrow>
   ('rl, 'h) saturation_state \<times> bool" where
  "check_and_advance L H now m s =
     (if ss_completed s then (s, False)
      else case ss_baseline_at s of
        None \<Rightarrow>
          if now - ss_step_start s < sc_drain_window (ss_config s) then (s, False)
          else (s\<lparr>ss_step_responses := mv_responses m, ss_step_histogram := mv_latency m,
                  ss_step_perceived := mv_perceived m, ss_step_slip := mv_slip m,
                  ss_baseline_at := Some now\<rparr>, False)
      | Some baseline_at \<Rightarrow>
          let elapsed = now - baseline_at in
          if elapsed < sc_sample_window (ss_config s) then (s, False)
          else let s = s\<lparr>ss_header_printed := True\<rparr>
               in (apply_step L now (measure_step H m elapsed s) s, True))"

definition saturation_results :: "('rl, 'h) saturation_state \<Rightarrow> nat option \<times> saturation_step list \<times> bool" where
  "saturation_results s = (ss_last_good_rate s, ss_results s, rs_floor_detected (ss_search s))"

section \<open>A search over any measurements\<close>

text \<open>
  The search fed with a list of results: the state it ends in, the rates measured with their
  results, and the knee once it is done.
\<close>

fun search_run :: "(bool \<times> f64) list \<Rightarrow> rate_search \<Rightarrow> rate_search \<times> (nat \<times> bool) list \<times> nat option option" where
  "search_run [] s = (s, [], None)"
| "search_run ((p, us) # rs) s =
     (case search_advance p us s of
        (s', Done knee) \<Rightarrow> (s', [(rs_rate s, p)], Some knee)
      | (s', Probe r) \<Rightarrow> let (s'', h, d) = search_run rs s' in (s'', (rs_rate s, p) # h, d))"

definition passing :: "(nat \<times> bool) list \<Rightarrow> nat set" where
  "passing h = {r. (r, True) \<in> set h}"

definition best_of :: "(nat \<times> bool) list \<Rightarrow> nat option \<Rightarrow> bool" where
  "best_of h g \<longleftrightarrow> (case g of None \<Rightarrow> passing h = {} | Some k \<Rightarrow> k \<in> passing h \<and> (\<forall>r\<in>passing h. r \<le> k))"

definition multiplier_ok :: "f64 \<Rightarrow> bool" where
  "multiplier_ok x \<longleftrightarrow> x = Inf False \<or> (\<exists>m. x = Fin m \<and> 1 < m)"

text \<open>
  \<open>M\<close> bounds the rates, \<open>h\<close> is what has been measured. In the bisection \<open>lo\<close> is the best passing rate
  (0 when there is none) and \<open>hi\<close> a rate that failed.
\<close>

definition search_inv :: "nat \<Rightarrow> (nat \<times> bool) list \<Rightarrow> rate_search \<Rightarrow> bool" where
  "search_inv M h s \<longleftrightarrow>
     M \<le> 2 ^ 53 \<and> 1 \<le> rs_rate s \<and> rs_rate s \<le> M \<and> rs_max_rate s \<le> M \<and>
     multiplier_ok (rs_step_multiplier s) \<and> rs_confirm_failures s < U32_MAX \<and>
     rs_failures_at_rate s \<le> rs_confirm_failures s \<and> rs_max_bisect_steps s \<le> U32_MAX \<and>
     best_of h (rs_last_good s) \<and> (\<forall>(r, p)\<in>set h. 1 \<le> r \<and> r \<le> M) \<and>
     (case rs_phase s of
        Climb \<Rightarrow> (\<forall>g. rs_last_good s = Some g \<longrightarrow> g < rs_rate s) \<and> rs_bisect_steps s = 0
      | Bisect \<Rightarrow> rs_lo s = (case rs_last_good s of Some g \<Rightarrow> g | None \<Rightarrow> 0) \<and> rs_lo s \<le> rs_rate s \<and>
          rs_rate s \<le> rs_hi s \<and> (rs_hi s, False) \<in> set h \<and>
          (rs_bisect_steps s = 0 \<or> rs_bisect_steps s < rs_max_bisect_steps s))"

definition rounds_left :: "nat \<Rightarrow> rate_search \<Rightarrow> nat" where
  "rounds_left M s =
     (case rs_phase s of
        Climb \<Rightarrow> (M - rs_rate s) + (rs_max_bisect_steps s + 2)
      | Bisect \<Rightarrow> rs_max_bisect_steps s + 1 - rs_bisect_steps s)"

definition measurements_left :: "nat \<Rightarrow> rate_search \<Rightarrow> nat" where
  "measurements_left M s = rounds_left M s * (rs_confirm_failures s + 1) - rs_failures_at_rate s"

lemma rounds_left_upd [simp]:
  "rounds_left M (s\<lparr>rs_failures_at_rate := n\<rparr>) = rounds_left M s"
  "rounds_left M (s\<lparr>rs_last_good := g\<rparr>) = rounds_left M s"
  "rounds_left M (s\<lparr>rs_last_confirmed_fail := f\<rparr>) = rounds_left M s"
  "rounds_left M (s\<lparr>rs_floor_detected := d\<rparr>) = rounds_left M s"
  by (cases "rs_phase s"; simp add: rounds_left_def)+

lemma passing_snoc: "passing (h @ [(r, p)]) = (if p then insert r (passing h) else passing h)"
  by (auto simp: passing_def)

lemma best_of_fail: "best_of h g \<Longrightarrow> best_of (h @ [(r, False)]) g"
  by (simp add: best_of_def passing_snoc split: option.splits)

lemma best_of_pass: "best_of h g \<Longrightarrow> (\<And>k. g = Some k \<Longrightarrow> k \<le> r) \<Longrightarrow> best_of (h @ [(r, True)]) (Some r)"
  by (cases g) (auto simp: best_of_def passing_snoc)

lemma bisect_probe_spec:
  assumes "rs_lo s < rs_hi s" and "rs_hi s \<le> 2 ^ 53" and "bisect_probe s = (s', out)"
  shows "out = Probe (rs_rate s') \<and> s' = s\<lparr>rs_rate := rs_rate s'\<rparr> \<and> 1 \<le> rs_rate s' \<and>
    rs_lo s \<le> rs_rate s' \<and> rs_rate s' \<le> rs_hi s"
proof -
  have "wrapping_sub (rs_hi s) (rs_lo s) = rs_hi s - rs_lo s" using assms by (intro wrapping_sub_exact) auto
  moreover have "wrapping_add (rs_lo s) ((rs_hi s - rs_lo s) div 2) = rs_lo s + (rs_hi s - rs_lo s) div 2"
    using assms by (intro wrapping_add_exact) auto
  moreover have "wrapping_add (rs_lo s) 1 = rs_lo s + 1" using assms by (intro wrapping_add_exact) auto
  ultimately have "bisect_probe s = (let mid = max (min (max (rs_lo s + (rs_hi s - rs_lo s) div 2) (rs_lo s + 1)) (rs_hi s - 1)) 1
      in (s\<lparr>rs_rate := mid\<rparr>, Probe mid))"
    by (simp only: bisect_probe_def saturating_sub_eq Let_def)
  then have eq: "bisect_probe s = (s\<lparr>rs_rate := max (min (max a b) c) 1\<rparr>, Probe (max (min (max a b) c) 1))"
    if "a = rs_lo s + (rs_hi s - rs_lo s) div 2" "b = rs_lo s + 1" "c = rs_hi s - 1" for a b c
    by (simp only: that Let_def)
  have bounds: "x \<le> max (min (max a b) c) 1 \<and> max (min (max a b) c) 1 \<le> y \<and> 1 \<le> max (min (max a b) c) 1"
    if "x + 1 = b" "x \<le> c" "c + 1 = y" for a b c x y :: nat
    using that by linarith
  define mid where "mid = max (min (max (rs_lo s + (rs_hi s - rs_lo s) div 2) (rs_lo s + 1)) (rs_hi s - 1)) 1"
  have "bisect_probe s = (s\<lparr>rs_rate := mid\<rparr>, Probe mid)" unfolding mid_def by (rule eq [OF refl refl refl])
  then have s': "s' = s\<lparr>rs_rate := mid\<rparr>" "out = Probe mid" using assms(3) by simp_all
  have mid: "rs_lo s \<le> mid \<and> mid \<le> rs_hi s \<and> 1 \<le> mid"
    unfolding mid_def by (rule bounds [OF refl]) (use assms(1) in simp_all)
  then show ?thesis unfolding s' using mid by simp
qed

text \<open>What a settled result must give: the next rate to probe, or a knee that is the best passing rate.\<close>

definition move_ok :: "nat \<Rightarrow> (nat \<times> bool) list \<Rightarrow> rate_search \<Rightarrow> rate_search \<Rightarrow> search_outcome \<Rightarrow> bool" where
  "move_ok M h s s' out \<longleftrightarrow>
     (case out of
        Probe r \<Rightarrow> r = rs_rate s' \<and> search_inv M h s' \<and> rounds_left M s' < rounds_left M s \<and>
          rs_failures_at_rate s' = rs_failures_at_rate s
      | Done k \<Rightarrow> best_of h k \<and> (rs_phase s' = Bisect \<longrightarrow> (rs_hi s', False) \<in> set h \<and> rs_lo s' \<le> rs_hi s')) \<and>
     rs_confirm_failures s' = rs_confirm_failures s"

definition settled :: "nat \<Rightarrow> (nat \<times> bool) list \<Rightarrow> rate_search \<Rightarrow> bool \<Rightarrow> bool" where
  "settled M h s p \<longleftrightarrow>
     M \<le> 2 ^ 53 \<and> 1 \<le> rs_rate s \<and> rs_rate s \<le> M \<and> rs_max_rate s \<le> M \<and>
     multiplier_ok (rs_step_multiplier s) \<and> rs_confirm_failures s < U32_MAX \<and>
     rs_failures_at_rate s = 0 \<and> rs_max_bisect_steps s \<le> U32_MAX \<and>
     best_of h (rs_last_good s) \<and> (\<forall>(r, p)\<in>set h. 1 \<le> r \<and> r \<le> M) \<and> (rs_rate s, p) \<in> set h \<and>
     (p \<longrightarrow> rs_last_good s = Some (rs_rate s)) \<and>
     (case rs_phase s of
        Climb \<Rightarrow> (\<forall>g. \<not> p \<longrightarrow> rs_last_good s = Some g \<longrightarrow> g < rs_rate s) \<and> rs_bisect_steps s = 0
      | Bisect \<Rightarrow> (p \<or> rs_lo s = (case rs_last_good s of Some g \<Rightarrow> g | None \<Rightarrow> 0)) \<and> rs_lo s \<le> rs_rate s \<and>
          rs_rate s \<le> rs_hi s \<and> (rs_hi s, False) \<in> set h \<and>
          (rs_bisect_steps s = 0 \<or> rs_bisect_steps s < rs_max_bisect_steps s))"

lemma last_good_or_zero:
  assumes "best_of h g" and "\<forall>(r, p)\<in>set h. 1 \<le> r \<and> r \<le> M" and "lo = (case g of Some k \<Rightarrow> k | None \<Rightarrow> 0)"
  shows "(if lo > 0 then Some lo else g) = g"
  using assms by (cases g) (auto simp: best_of_def passing_def)

lemma move_climb_fail:
  assumes st: "settled M h s False" and ph: "rs_phase s = Climb" and mv: "search_move False s = (s', out)"
  shows "move_ok M h s s' out"
proof -
  define s1 where "s1 = s\<lparr>rs_lo := (case rs_last_good s of Some g \<Rightarrow> g | None \<Rightarrow> 0), rs_hi := rs_rate s, rs_phase := Bisect\<rparr>"
  have bp: "bisect_probe s1 = (s', out)" using mv ph by (simp add: search_move_def s1_def)
  have "rs_lo s1 < rs_hi s1" "rs_hi s1 \<le> 2 ^ 53"
    using st ph by (auto simp: s1_def settled_def split: option.splits)
  note B = bisect_probe_spec [OF this bp]
  define r where "r = rs_rate s'"
  have s': "s' = s1\<lparr>rs_rate := r\<rparr>" "out = Probe r" "1 \<le> r" "rs_lo s1 \<le> r" "r \<le> rs_rate s"
    using B by (simp_all add: r_def s1_def)
  have "search_inv M h s'"
    using st ph s'(3-5) unfolding s'(1) by (auto simp: search_inv_def settled_def s1_def)
  moreover have "rounds_left M s' < rounds_left M s"
    using st ph unfolding s'(1) by (auto simp: rounds_left_def s1_def settled_def)
  ultimately show ?thesis unfolding move_ok_def s'(2) by (simp add: s'(1) s1_def)
qed

lemma move_climb_pass:
  assumes st: "settled M h s True" and ph: "rs_phase s = Climb" and mv: "search_move True s = (s', out)"
  shows "move_ok M h s s' out"
proof -
  define nxt where "nxt = f_as_u64 (f_mul (f_of_nat (rs_rate s)) (rs_step_multiplier s))"
  have ge: "rs_rate s \<le> nxt"
    unfolding nxt_def by (rule f_mul_ge_nat) (use st in \<open>auto simp: settled_def multiplier_ok_def less_imp_le\<close>)
  have inc: "wrapping_add (rs_rate s) 1 = rs_rate s + 1"
    by (rule wrapping_add_exact) (use st in \<open>simp add: settled_def\<close>)
  have probe: "move_ok M h s (s\<lparr>rs_rate := r\<rparr>) (Probe r)" if "rs_rate s < r" "r \<le> M" for r
    using st ph that by (auto simp: move_ok_def search_inv_def settled_def rounds_left_def)
  have "move_ok M h s s (Done (rs_last_good s))"
    using st ph by (auto simp: move_ok_def settled_def)
  moreover have "nxt < rs_max_rate s \<Longrightarrow> max nxt (rs_rate s + 1) \<le> M" using ge st by (simp add: settled_def)
  moreover have "rs_rate s < max nxt (rs_rate s + 1)" by simp
  ultimately show ?thesis
    using mv ph st probe
    by (auto simp: search_move_def nxt_def [symmetric] Let_def inc [simplified] settled_def not_le split: if_splits)
qed

lemma move_bisect:
  assumes st: "settled M h s p" and ph: "rs_phase s = Bisect" and mv: "search_move p s = (s', out)"
  shows "move_ok M h s s' out"
proof -
  define s1 where "s1 = (if p then s\<lparr>rs_lo := rs_rate s\<rparr> else s\<lparr>rs_hi := rs_rate s\<rparr>)"
  define s2 where "s2 = s1\<lparr>rs_bisect_steps := (rs_bisect_steps s1 + 1) mod U32_LIMIT\<rparr>"
  define stop where "stop \<longleftrightarrow>
    f_le (if rs_hi s2 > 0 then f_div (f_of_nat (wrapping_sub (rs_hi s2) (rs_lo s2))) (f_of_nat (rs_hi s2)) else Fin 0)
      (rs_bisect_tolerance s2) \<or> rs_bisect_steps s2 \<ge> rs_max_bisect_steps s2 \<or> rs_hi s2 - rs_lo s2 \<le> 1"
  have mv': "(if stop then (s2, Done (if rs_lo s2 > 0 then Some (rs_lo s2) else rs_last_good s2)) else bisect_probe s2) = (s', out)"
    using mv ph unfolding stop_def s2_def s1_def search_move_def
    by (simp only: search_phase.case Let_def saturating_sub_eq)
  have steps: "rs_bisect_steps s2 = rs_bisect_steps s + 1"
    using st ph by (auto simp: s2_def s1_def settled_def)
  have lo: "rs_lo s2 = (case rs_last_good s2 of Some g \<Rightarrow> g | None \<Rightarrow> 0)" and
    ord: "rs_lo s2 \<le> rs_hi s2" "rs_hi s2 \<le> M" "(rs_hi s2, False) \<in> set h" and
    keep: "rs_phase s2 = Bisect" "rs_last_good s2 = rs_last_good s" "rs_max_bisect_steps s2 = rs_max_bisect_steps s"
      "rs_confirm_failures s2 = rs_confirm_failures s" "rs_failures_at_rate s2 = 0" "rs_max_rate s2 = rs_max_rate s"
      "rs_step_multiplier s2 = rs_step_multiplier s"
    using st ph by (auto simp: s2_def s1_def settled_def)
  have base: "M \<le> 2 ^ 53" "best_of h (rs_last_good s)" "\<forall>(r, p)\<in>set h. 1 \<le> r \<and> r \<le> M" "rs_max_rate s \<le> M"
    "multiplier_ok (rs_step_multiplier s)" "rs_confirm_failures s < U32_MAX" "rs_max_bisect_steps s \<le> U32_MAX"
    "rs_failures_at_rate s = 0"
    using st by (simp_all add: settled_def)
  show ?thesis
  proof (cases stop)
    case True
    then have s': "s' = s2" "out = Done (if rs_lo s2 > 0 then Some (rs_lo s2) else rs_last_good s2)" using mv' by auto
    have "out = Done (rs_last_good s)"
      using last_good_or_zero [OF _ base(3) lo] base(2) keep(2) s'(2) by simp
    then show ?thesis using base ord keep by (simp add: move_ok_def s'(1))
  next
    case False
    then have bp: "bisect_probe s2 = (s', out)" using mv' by simp
    have "rs_lo s2 < rs_hi s2" "rs_hi s2 \<le> 2 ^ 53" using False ord base(1) by (auto simp: stop_def)
    note B = bisect_probe_spec [OF this bp]
    define r where "r = rs_rate s'"
    have s': "s' = s2\<lparr>rs_rate := r\<rparr>" "out = Probe r" "1 \<le> r" "rs_lo s2 \<le> r" "r \<le> rs_hi s2"
      using B by (simp_all add: r_def)
    have more: "rs_bisect_steps s + 1 < rs_max_bisect_steps s" using False keep steps by (simp add: stop_def)
    have "search_inv M h s'"
      using base keep lo ord s'(3-5) more steps unfolding s'(1) search_inv_def by auto
    moreover have "rounds_left M s' < rounds_left M s"
      using keep steps more ph unfolding s'(1) rounds_left_def by simp
    ultimately show ?thesis using keep base unfolding move_ok_def s'(2) by (simp add: s'(1))
  qed
qed

lemma floor_check_keeps:
  assumes "floor_check us s = (s', stop)"
  shows "stop \<Longrightarrow> rs_last_good s = None" and "s' = s\<lparr>rs_last_confirmed_fail := rs_last_confirmed_fail s', rs_floor_detected := rs_floor_detected s'\<rparr>"
  using assms by (auto simp: floor_check_def split: if_splits)

text \<open>One measurement: either it is repeated, or settled and acted on.\<close>

lemma search_advance_ok:
  assumes inv: "search_inv M h s" and adv: "search_advance p us s = (s', out)"
  defines "h' \<equiv> h @ [(rs_rate s, p)]"
  shows "case out of
      Probe r \<Rightarrow> r = rs_rate s' \<and> search_inv M h' s' \<and> measurements_left M s' < measurements_left M s
    | Done k \<Rightarrow> best_of h' k \<and> (k \<noteq> None \<longrightarrow> rs_phase s' = Bisect \<longrightarrow> (rs_hi s', False) \<in> set h' \<and> rs_lo s' \<le> rs_hi s')"
proof -
  have pos: "0 < rounds_left M s" using inv by (auto simp: search_inv_def rounds_left_def split: search_phase.splits)
  have fewer: "measurements_left M t < measurements_left M s"
    if "rounds_left M t < rounds_left M s" "rs_failures_at_rate t = 0" "rs_confirm_failures t = rs_confirm_failures s" for t
  proof -
    have "Suc (rounds_left M t) * (rs_confirm_failures s + 1) \<le> rounds_left M s * (rs_confirm_failures s + 1)"
      using that(1) by (intro mult_le_mono1) simp
    moreover have "rs_failures_at_rate s < rs_confirm_failures s + 1" using inv by (simp add: search_inv_def)
    ultimately show ?thesis using that(2,3) by (simp add: measurements_left_def)
  qed
  have settle: ?thesis
    if st: "settled M h' t p" "rs_phase t = rs_phase s" and mv: "search_move p t = (s', out)"
      and r: "rounds_left M t = rounds_left M s" "rs_confirm_failures t = rs_confirm_failures s" for t
  proof -
    have "move_ok M h' t s' out"
    proof (cases "rs_phase t")
      case Climb
      then show ?thesis using st mv move_climb_pass move_climb_fail by (cases p) auto
    next
      case Bisect
      then show ?thesis using st mv move_bisect by blast
    qed
    moreover have "rs_failures_at_rate t = 0" using st by (simp add: settled_def)
    ultimately show ?thesis using fewer r by (auto simp: move_ok_def split: search_outcome.splits)
  qed
  show ?thesis
  proof (cases p)
    case True
    let ?t = "s\<lparr>rs_failures_at_rate := 0, rs_last_good := Some (rs_rate s), rs_last_confirmed_fail := None\<rparr>"
    have "best_of h' (Some (rs_rate s))"
      unfolding h'_def eqTrueI [OF True]
      by (rule best_of_pass [of _ "rs_last_good s"])
        (use inv in \<open>auto simp: search_inv_def less_imp_le split: search_phase.splits\<close>)
    then have "settled M h' ?t p" using inv True by (auto simp: search_inv_def settled_def h'_def split: search_phase.splits)
    moreover have "rounds_left M ?t = rounds_left M s" by simp
    moreover have "search_move p ?t = (s', out)" using adv True by (simp add: search_advance_def)
    ultimately show ?thesis by (intro settle [of ?t]) simp_all
  next
    case False
    let ?n = "rs_failures_at_rate s + 1"
    have n: "?n mod U32_LIMIT = ?n" using inv by (simp add: search_inv_def)
    have best: "best_of h' (rs_last_good s)" 
      using False unfolding h'_def
      by simp (rule best_of_fail, use inv in \<open>simp add: search_inv_def\<close>)
    show ?thesis
    proof (cases "?n \<le> rs_confirm_failures s")
      case True
      then have s': "s' = s\<lparr>rs_failures_at_rate := ?n\<rparr>" "out = Probe (rs_rate s)"
        using adv False n by (simp_all add: search_advance_def Let_def)
      have "rs_confirm_failures s + 1 \<le> rounds_left M s * (rs_confirm_failures s + 1)"
        using pos by (cases "rounds_left M s") auto
      then have "measurements_left M s' < measurements_left M s"
        using True unfolding s' measurements_left_def by simp
      then show ?thesis using inv best True unfolding s'
        by (auto simp: search_inv_def h'_def split: search_phase.splits)
    next
      case notconf: False
      let ?s0 = "s\<lparr>rs_failures_at_rate := 0\<rparr>"
      obtain t stop where fc: "floor_check us ?s0 = (t, stop)" by fastforce
      note K = floor_check_keeps [OF fc]
      define a b where "a = rs_last_confirmed_fail t" and "b = rs_floor_detected t"
      have t: "t = ?s0\<lparr>rs_last_confirmed_fail := a, rs_floor_detected := b\<rparr>" using K(2) by (simp add: a_def b_def)
      have adv': "(if stop then (t, Done None) else search_move False t) = (s', out)"
        using adv False notconf n fc by (simp add: search_advance_def Let_def)
      show ?thesis
      proof (cases stop)
        case True
        then show ?thesis using adv' K(1) best by auto
      next
        case go: False
        have "settled M h' t p" using inv best False unfolding t
          by (auto simp: search_inv_def settled_def h'_def split: search_phase.splits)
        moreover have "rounds_left M t = rounds_left M s" unfolding t by simp
        ultimately show ?thesis using settle [of t] adv' go False unfolding t by simp
      qed
    qed
  qed
qed

lemma search_run_ok:
  assumes "search_inv M h s" and "search_run rs s = (s', h', d)"
  shows "(\<forall>(r, p)\<in>set h'. 1 \<le> r \<and> r \<le> M) \<and>
    (case d of
       None \<Rightarrow> length h' = length rs \<and> length rs \<le> measurements_left M s
     | Some k \<Rightarrow> length h' \<le> length rs \<and> length h' \<le> measurements_left M s + 1 \<and> best_of (h @ h') k \<and>
         (k \<noteq> None \<longrightarrow> rs_phase s' = Bisect \<longrightarrow> (rs_hi s', False) \<in> set (h @ h') \<and> rs_lo s' \<le> rs_hi s'))"
  using assms
proof (induction rs arbitrary: h s h')
  case Nil
  then show ?case by simp
next
  case (Cons x rs)
  obtain p us where x: "x = (p, us)" by fastforce
  obtain t out where adv: "search_advance p us s = (t, out)" by fastforce
  note A = search_advance_ok [OF Cons.prems(1) adv]
  have rate: "1 \<le> rs_rate s" "rs_rate s \<le> M" using Cons.prems(1) by (simp_all add: search_inv_def)
  show ?case
  proof (cases out)
    case (Done k)
    then have "s' = t" "h' = [(rs_rate s, p)]" "d = Some k" using Cons.prems(2) x adv by simp_all
    then show ?thesis using A Done rate by auto
  next
    case (Probe r)
    obtain h1 where run: "search_run rs t = (s', h1, d)" and h': "h' = (rs_rate s, p) # h1"
      using Cons.prems(2) x adv Probe by (auto simp: Let_def split: prod.splits)
    have inv: "search_inv M (h @ [(rs_rate s, p)]) t" and less: "measurements_left M t < measurements_left M s"
      using A Probe by auto
    from Cons.IH [OF inv run] less rate show ?thesis unfolding h' by (auto split: option.splits)
  qed
qed

definition search_bound :: "nat \<Rightarrow> nat \<Rightarrow> nat \<Rightarrow> nat \<Rightarrow> nat" where
  "search_bound start_rate max_rate max_bisect_steps confirm_failures =
     (max start_rate max_rate - start_rate + max_bisect_steps + 2) * (confirm_failures + 1)"

lemma search_new_inv:
  assumes "1 \<le> start_rate" and "max start_rate max_rate \<le> 2 ^ 53" and "multiplier_ok m" and "c < U32_MAX"
    and "b \<le> U32_MAX"
  shows "search_inv (max start_rate max_rate) [] (search_new start_rate m max_rate tol b c fl)"
    and "measurements_left (max start_rate max_rate) (search_new start_rate m max_rate tol b c fl) =
         search_bound start_rate max_rate b c"
  using assms
  by (simp_all add: search_inv_def search_new_def best_of_def passing_def measurements_left_def rounds_left_def
      search_bound_def)

text \<open>
  C3. The saturation search ends, whatever it measures, and only ever offers rates in range. For a
  start rate of at least 1, a multiplier above 1, rates up to 2^53 and any sequence of results, the
  search is done after at most \<open>(climb range + bisect steps + 2) x (confirmations + 1)\<close> measurements
  (plus the last one), and every rate it offers lies between 1 and the larger of the start rate and
  the maximum rate.
\<close>

theorem saturation_search_terminates:
  assumes start: "1 \<le> start_rate" and small: "max start_rate max_rate \<le> 2 ^ 53" and m: "multiplier_ok m"
    and c: "c < U32_MAX" and b: "b \<le> U32_MAX"
    and enough: "search_bound start_rate max_rate b c < length results"
  shows "\<exists>s h knee. search_run results (search_new start_rate m max_rate tol b c fl) = (s, h, Some knee) \<and>
    length h \<le> search_bound start_rate max_rate b c + 1 \<and>
    (\<forall>(r, p)\<in>set h. 1 \<le> r \<and> r \<le> max start_rate max_rate)"
proof -
  note N = search_new_inv [OF start small m c b, of tol fl]
  obtain s h d where run: "search_run results (search_new start_rate m max_rate tol b c fl) = (s, h, d)"
    using prod_cases3 by blast
  from search_run_ok [OF N(1) run] N(2) enough show ?thesis by (cases d) (auto simp: run)
qed

theorem saturation_search_terminates_witness:
  "\<exists>s h knee. search_run (replicate 53 (True, Fin 0)) (search_new 1000 (Fin 2) 1016 (Fin 0) 8 1 (Fin 0)) = (s, h, Some knee) \<and>
     length h \<le> 53"
proof -
  have p: "(1::nat) \<le> 1000" "max 1000 1016 \<le> (2::nat) ^ 53" "multiplier_ok (Fin 2)" "(1::nat) < U32_MAX" "(8::nat) \<le> U32_MAX"
    by (simp_all add: multiplier_ok_def)
  have b: "search_bound 1000 1016 8 1 = 52" by (simp add: search_bound_def)
  from saturation_search_terminates [OF p, of "replicate 53 (True, Fin 0)" "Fin 0" "Fin 0"]
  show ?thesis unfolding b by auto
qed

text \<open>
  C23. The rate the search reports is right about what was measured. When the search is done, the
  knee is a rate that passed and no rate measured in the whole search passed above it; there is no
  knee exactly when no measurement passed. If the search ended in the bisection, the upper end of
  its interval is a rate that was measured and failed, and the knee is not above it.
\<close>

theorem saturation_knee_is_highest_passing:
  assumes start: "1 \<le> start_rate" and small: "max start_rate max_rate \<le> 2 ^ 53" and m: "multiplier_ok m"
    and c: "c < U32_MAX" and b: "b \<le> U32_MAX"
    and run: "search_run results (search_new start_rate m max_rate tol b c fl) = (s, h, Some knee)"
  shows "(case knee of
      None \<Rightarrow> \<forall>(r, p)\<in>set h. \<not> p
    | Some k \<Rightarrow> (k, True) \<in> set h \<and> (\<forall>(r, p)\<in>set h. p \<longrightarrow> r \<le> k)) \<and>
    (knee \<noteq> None \<longrightarrow> rs_phase s = Bisect \<longrightarrow> (rs_hi s, False) \<in> set h \<and> rs_lo s \<le> rs_hi s)"
proof -
  note N = search_new_inv [OF start small m c b, of tol fl]
  from search_run_ok [OF N(1) run] have "best_of h knee" and
    hi: "knee \<noteq> None \<longrightarrow> rs_phase s = Bisect \<longrightarrow> (rs_hi s, False) \<in> set h \<and> rs_lo s \<le> rs_hi s" by auto
  then show ?thesis by (cases knee) (fastforce simp: best_of_def passing_def)+
qed

theorem saturation_knee_is_highest_passing_witness:
  "\<exists>s h. search_run [(True, Fin 0), (False, Fin 9), (True, Fin 1), (False, Fin 9)]
           (search_new 4 (Fin 2) 100 (Fin 0) 8 0 (Fin 0)) = (s, h, Some (Some 6)) \<and> (6, True) \<in> set h"
proof -
  have p: "(1::nat) \<le> 4" "max 4 100 \<le> (2::nat) ^ 53" "multiplier_ok (Fin 2)" "(0::nat) < U32_MAX" "(8::nat) \<le> U32_MAX"
    by (simp_all add: multiplier_ok_def)
  obtain s h d where r: "search_run [(True, Fin 0), (False, Fin 9), (True, Fin 1), (False, Fin 9)]
      (search_new 4 (Fin 2) 100 (Fin 0) 8 0 (Fin 0)) = (s, h, d)" using prod_cases3 by blast
  have "d = Some (Some 6)"
  proof -
    have "snd (snd (search_run [(True, Fin 0), (False, Fin 9), (True, Fin 1), (False, Fin 9)]
      (search_new 4 (Fin 2) 100 (Fin 0) 8 0 (Fin 0)))) = Some (Some 6)" by code_simp
    then show ?thesis using r by simp
  qed
  with saturation_knee_is_highest_passing [OF p r [unfolded this]] r show ?thesis by auto
qed

section \<open>A step is judged on its own traffic, at the rate it reports\<close>

definition saturation_inv :: "('rl, 'h) saturation_state \<Rightarrow> bool" where
  "saturation_inv s \<longleftrightarrow>
     ws_rate (ss_limiters s) = ss_current_rate s \<and> ss_target_rate_metric s = ss_current_rate s \<and>
     (\<not> ss_completed s \<longrightarrow> rs_rate (ss_search s) = ss_current_rate s) \<and>
     (\<forall>b. ss_baseline_at s = Some b \<longrightarrow> ss_step_start s + sc_drain_window (ss_config s) \<le> b)"

lemma saturation_new_inv: "saturation_inv (saturation_new L now c l)"
  by (simp add: saturation_inv_def saturation_new_def search_new_def limiters_set_rate_def Let_def)

lemma bisect_probe_rate: "\<exists>r. bisect_probe s = (s\<lparr>rs_rate := r\<rparr>, Probe r)"
  unfolding bisect_probe_def Let_def by blast

lemma search_move_probe: "search_move p s = (s', Probe r) \<Longrightarrow> rs_rate s' = r"
proof -
  assume mv: "search_move p s = (s', Probe r)"
  have bp: "rs_rate s' = r" if "bisect_probe t = (s', Probe r)" for t
    using bisect_probe_rate [of t] that by auto
  show ?thesis
  proof (cases "rs_phase s")
    case Climb
    then show ?thesis using mv bp by (cases p) (auto simp: search_move_def Let_def split: if_splits)
  next
    case Bisect
    then show ?thesis using mv bp unfolding search_move_def Let_def by (auto split: if_splits)
  qed
qed

lemma search_advance_probe: "search_advance p us s = (s', Probe r) \<Longrightarrow> rs_rate s' = r"
  using search_move_probe by (auto simp: search_advance_def Let_def split: if_splits prod.splits)

definition slo_exceeded :: "nat option \<Rightarrow> f64 \<Rightarrow> bool" where
  "slo_exceeded threshold us \<longleftrightarrow> (\<exists>d. threshold = Some d \<and> f_lt (micros_f64 d) us)"

lemma slo_fail_reason_none:
  "slo_fail_reason slo a b c = None \<longleftrightarrow>
   \<not> slo_exceeded (slo_p50 slo) a \<and> \<not> slo_exceeded (slo_p99 slo) b \<and> \<not> slo_exceeded (slo_p999 slo) c"
  by (auto simp: slo_fail_reason_def slo_check_def slo_exceeded_def split: option.splits if_splits)

text \<open>
  C24. Every judged step is judged on a full window of its own traffic at the rate it reports. A
  check that completes a step does so no earlier than the drain window plus the sample window after
  the rate was set, and its baseline was taken after the drain; the step's target is the rate the
  limiters were set to, the gauge shows and the search is at. It passes exactly if the achieved
  throughput reaches the required share of the target and no configured percentile of the perceived
  latency exceeds its bound. A check that completes no step leaves the search, the rate and the
  results alone, and a finished search never changes again.
\<close>

theorem saturation_step_sound:
  assumes inv: "saturation_inv s" and chk: "check_and_advance L H now m s = (s', stepped)"
    and clock: "ss_step_start s \<le> now" "\<And>b. ss_baseline_at s = Some b \<Longrightarrow> b \<le> now"
  shows "saturation_inv s' \<and> (ss_completed s \<longrightarrow> s' = s) \<and>
    (if stepped then
       \<exists>b step. ss_baseline_at s = Some b \<and> ss_step_start s + sc_drain_window (ss_config s) \<le> b \<and>
         b + sc_sample_window (ss_config s) \<le> now \<and>
         ss_results s' = ss_results s @ [step] \<and> st_target_rate step = ws_rate (ss_limiters s) \<and>
         (let q = delta_percentile H (mv_perceived m) (ss_step_perceived s); slo = sc_slo (ss_config s);
              achieved = f_div (f_of_nat (mv_responses m - ss_step_responses s)) (duration_as_secs_f64 (now - b))
          in st_slo_passed step \<longleftrightarrow>
             f_le (sc_min_throughput_ratio (ss_config s)) (f_div achieved (f_of_nat (ss_current_rate s))) \<and>
             \<not> slo_exceeded (slo_p50 slo) (q (Fin (1 / 2))) \<and> \<not> slo_exceeded (slo_p99 slo) (q (rnd (99 / 100))) \<and>
             \<not> slo_exceeded (slo_p999 slo) (q (rnd (999 / 1000))))
     else ss_results s' = ss_results s \<and> ss_search s' = ss_search s \<and> ss_limiters s' = ss_limiters s)"
proof (cases "stepped")
  case False
  then show ?thesis using inv chk clock(1)
    by (auto simp: check_and_advance_def saturation_inv_def Let_def split: if_splits option.splits)
next
  case True
  obtain b where b: "\<not> ss_completed s" "ss_baseline_at s = Some b" "sc_sample_window (ss_config s) \<le> now - b"
    using chk True by (auto simp: check_and_advance_def Let_def split: if_splits option.splits)
  define t where "t = s\<lparr>ss_header_printed := True\<rparr>"
  obtain step slip where ms: "measure_step H m (now - b) t = (step, slip)" by fastforce
  have s': "s' = apply_step L now (step, slip) t"
    using chk True b by (auto simp: check_and_advance_def Let_def t_def [symmetric] ms split: if_splits)
  obtain se out where adv: "search_advance (st_slo_passed step) (snd (st_slo_percentile step)) (ss_search s) = (se, out)"
    by fastforce
  have inv': "saturation_inv s' \<and> ss_results s' = ss_results s @ [step]"
    using inv adv search_advance_probe [of "st_slo_passed step" "snd (st_slo_percentile step)" "ss_search s" se]
    unfolding s' apply_step_def
    by (cases out) (auto simp: t_def Let_def saturation_inv_def limiters_set_rate_def)
  have target: "st_target_rate step = ss_current_rate s"
    using ms by (auto simp: measure_step_def Let_def t_def)
  have passed: "let q = delta_percentile H (mv_perceived m) (ss_step_perceived s); slo = sc_slo (ss_config s);
              achieved = f_div (f_of_nat (mv_responses m - ss_step_responses s)) (duration_as_secs_f64 (now - b))
          in st_slo_passed step \<longleftrightarrow>
             f_le (sc_min_throughput_ratio (ss_config s)) (f_div achieved (f_of_nat (ss_current_rate s))) \<and>
             \<not> slo_exceeded (slo_p50 slo) (q (Fin (1 / 2))) \<and> \<not> slo_exceeded (slo_p99 slo) (q (rnd (99 / 100))) \<and>
             \<not> slo_exceeded (slo_p999 slo) (q (rnd (999 / 1000)))"
    using arg_cong [OF ms, of "\<lambda>x. st_slo_passed (fst x)"]
    by (auto simp: measure_step_def Let_def t_def slo_fail_reason_none)
  show ?thesis using True inv inv' b target passed clock(2) [OF b(2)] by (auto simp: saturation_inv_def)
qed

definition demo_saturation :: saturation_config where
  "demo_saturation = \<lparr>sc_slo = \<lparr>slo_p50 = None, slo_p99 = None, slo_p999 = Some 1000000\<rparr>, sc_start_rate = 1000,
     sc_step_multiplier = Fin 2, sc_sample_window = 5000000000, sc_drain_window = 1000000000, sc_max_rate = 100000,
     sc_min_throughput_ratio = Fin (1 / 2), sc_bisect_tolerance = Fin 0, sc_max_bisect_steps = 8,
     sc_confirm_failures = 1, sc_floor_improvement_ratio = Fin 0\<rparr>"

text \<open>A check one second into a run takes the baseline; one six seconds in completes the step.\<close>

theorem saturation_step_sound_witness:
  "\<exists>l s\<^sub>1 s\<^sub>2 step. let H = \<lparr>hg_wrapping_sub = (\<lambda>a b. Some (a - b)), hg_quantile = (\<lambda>h p. if h = 0 then None else Some h)\<rparr>;
      m\<^sub>1 = \<lparr>mv_responses = 10, mv_latency = Some (5::nat), mv_perceived = Some 5, mv_slip = None\<rparr>;
      m\<^sub>2 = \<lparr>mv_responses = 5010, mv_latency = Some 9000, mv_perceived = Some 9000, mv_slip = None\<rparr>
    in check_and_advance bucket_api H 1000000000 m\<^sub>1 (saturation_new bucket_api 0 demo_saturation l) = (s\<^sub>1, False) \<and>
       check_and_advance bucket_api H 6000000000 m\<^sub>2 s\<^sub>1 = (s\<^sub>2, True) \<and> ss_results s\<^sub>2 = [step] \<and> st_target_rate step = 1000"
proof -
  let ?H = "\<lparr>hg_wrapping_sub = (\<lambda>a b. Some (a - b)), hg_quantile = (\<lambda>h p. if h = 0 then None else Some h)\<rparr>"
  let ?m1 = "\<lparr>mv_responses = 10, mv_latency = Some (5::nat), mv_perceived = Some 5, mv_slip = None\<rparr>"
  let ?m2 = "\<lparr>mv_responses = 5010, mv_latency = Some 9000, mv_perceived = Some 9000, mv_slip = None\<rparr>"
  define l :: "bucket worker_limiters" where "l = \<lparr>ws_limiters = [], ws_weights = [], ws_total_weight = 1, ws_rate = 0\<rparr>"
  define s0 :: "(bucket, nat) saturation_state" where "s0 = saturation_new bucket_api 0 demo_saturation l"
  obtain s1 st1 where c1: "check_and_advance bucket_api ?H 1000000000 ?m1 s0 = (s1, st1)" by fastforce
  have f1: "\<not> st1" "ss_baseline_at s1 = Some 1000000000" "ss_step_start s1 = 0" "\<not> ss_completed s1"
    "ss_config s1 = demo_saturation" "ss_results s1 = []"
    using c1 by (auto simp: check_and_advance_def s0_def saturation_new_def demo_saturation_def)
  have "saturation_inv s0" by (simp add: s0_def saturation_new_inv)
  from saturation_step_sound [OF this c1] f1(1)
  have i1: "saturation_inv s1" by (simp add: s0_def saturation_new_def)
  obtain s2 st2 where c2: "check_and_advance bucket_api ?H 6000000000 ?m2 s1 = (s2, st2)" by fastforce
  have st2: "st2" using c2 f1 by (auto simp: check_and_advance_def demo_saturation_def Let_def)
  have "ws_rate (ss_limiters s1) = 1000"
    using c1 by (auto simp: check_and_advance_def s0_def saturation_new_def demo_saturation_def limiters_set_rate_def Let_def)
  with saturation_step_sound [OF i1 c2] f1 st2
  obtain step where "ss_results s2 = [step]" "st_target_rate step = 1000" by (auto simp: Let_def)
  then show ?thesis using c1 c2 f1(1) st2 unfolding s0_def Let_def
    by (rule_tac exI [of _ l], rule_tac exI [of _ s1], rule_tac exI [of _ s2], rule_tac exI [of _ step]) simp
qed

end
