(* ===== verification/Text.thy ===== *)
theory Text
  imports Prelude
begin

text \<open>
  What the program uses of the standard library's strings: prefixes, splitting at a character,
  trimming, and parsing and printing of decimal integers. A string is a list of characters.
\<close>

definition strip_prefix :: "string \<Rightarrow> string \<Rightarrow> string option" where
  "strip_prefix p s = (if take (length p) s = p then Some (drop (length p) s) else None)"

text \<open>\<open>s.split_once(c)\<close>.\<close>

fun split_once :: "char \<Rightarrow> string \<Rightarrow> (string \<times> string) option" where
  "split_once c [] = None"
| "split_once c (x # xs) =
     (if x = c then Some ([], xs)
      else case split_once c xs of Some (a, b) \<Rightarrow> Some (x # a, b) | None \<Rightarrow> None)"

text \<open>\<open>s.splitn(2, c)\<close>: one or two parts.\<close>

definition splitn2 :: "char \<Rightarrow> string \<Rightarrow> string \<times> string option" where
  "splitn2 c s = (case split_once c s of Some (a, b) \<Rightarrow> (a, Some b) | None \<Rightarrow> (s, None))"

text \<open>\<open>s.split(c)\<close>: always at least one part.\<close>

fun split_on :: "char \<Rightarrow> string \<Rightarrow> string list" where
  "split_on c [] = [[]]"
| "split_on c (x # xs) =
     (if x = c then [] # split_on c xs
      else case split_on c xs of [] \<Rightarrow> [[x]] | p # ps \<Rightarrow> (x # p) # ps)"

definition is_digit :: "char \<Rightarrow> bool" where
  "is_digit c \<longleftrightarrow> of_char c \<ge> (48 :: nat) \<and> of_char c \<le> (57 :: nat)"

definition digit_val :: "char \<Rightarrow> nat" where
  "digit_val c = of_char c - 48"

text \<open>
  \<open>str::parse\<close> of an unsigned integer with the given maximum: an optional \<open>+\<close>, then at least one
  digit and nothing else, and no overflow.
\<close>

fun parse_digits :: "nat \<Rightarrow> nat \<Rightarrow> string \<Rightarrow> nat option" where
  "parse_digits mx acc [] = Some acc"
| "parse_digits mx acc (c # cs) =
     (if is_digit c then let n = acc * 10 + digit_val c in if n \<le> mx then parse_digits mx n cs else None
      else None)"

definition parse_uint :: "nat \<Rightarrow> string \<Rightarrow> nat option" where
  "parse_uint mx s =
     (let ds = (case s of c # cs \<Rightarrow> if c = CHR ''+'' then cs else s | [] \<Rightarrow> [])
      in if ds = [] then None else parse_digits mx 0 ds)"

definition digit_char :: "nat \<Rightarrow> char" where
  "digit_char d = char_of (48 + d)"

fun decimal :: "nat \<Rightarrow> string" where
  "decimal n = (if n < 10 then [digit_char n] else decimal (n div 10) @ [digit_char (n mod 10)])"

declare decimal.simps [simp del]

text \<open>\<open>trim\<close>, for ASCII white space.\<close>

definition is_space :: "char \<Rightarrow> bool" where
  "is_space c \<longleftrightarrow> (let n = of_char c :: nat in n = 32 \<or> 9 \<le> n \<and> n \<le> 13)"

definition trim :: "string \<Rightarrow> string" where
  "trim s = rev (dropWhile is_space (rev (dropWhile is_space s)))"

section \<open>Printing and parsing agree\<close>

lemma digit_char_val:
  assumes "d < 10"
  shows "is_digit (digit_char d) \<and> digit_val (digit_char d) = d"
proof -
  have "of_char (char_of (48 + d) :: char) = (48 + d) mod (256 :: nat)"
    by (simp add: of_char_of)
  then show ?thesis using assms by (simp add: is_digit_def digit_val_def digit_char_def)
qed

lemma parse_digits_snoc:
  "parse_digits mx acc (ds @ [c]) =
     (case parse_digits mx acc ds of None \<Rightarrow> None | Some n \<Rightarrow> parse_digits mx n [c])"
  by (induction ds arbitrary: acc) (auto simp: Let_def)

lemma decimal_digits: "\<forall>c\<in>set (decimal n). is_digit c" and decimal_nonempty: "decimal n \<noteq> []"
proof (induction n rule: decimal.induct)
  case (1 n)
  { case 1
    show ?case using "1.IH" digit_char_val [of "n mod 10"] digit_char_val [of n] decimal.simps [of n] by auto
  next
    case 2
    show ?case using decimal.simps [of n] by auto
  }
qed

lemma parse_decimal_digits: "n \<le> mx \<Longrightarrow> parse_digits mx 0 (decimal n) = Some n"
proof (induction n rule: decimal.induct)
  case (1 n)
  show ?case
  proof (cases "n < 10")
    case True
    then show ?thesis using digit_char_val [OF True] 1 by (simp add: decimal.simps [of n])
  next
    case False
    have "parse_digits mx 0 (decimal (n div 10)) = Some (n div 10)" using 1 False by simp
    then show ?thesis using False digit_char_val [of "n mod 10"] 1(2)
      by (simp add: decimal.simps [of n] parse_digits_snoc Let_def)
  qed
qed

lemma digit_neq: "is_digit c \<Longrightarrow> c \<noteq> CHR ''+'' \<and> c \<noteq> CHR '' '' \<and> c \<noteq> CHR ''-'' \<and> c \<noteq> CHR '':'' \<and> c \<noteq> CHR '',''"
  by (auto simp: is_digit_def)

lemma parse_decimal [simp]: "n \<le> mx \<Longrightarrow> parse_uint mx (decimal n) = Some n"
proof -
  assume "n \<le> mx"
  obtain c cs where d: "decimal n = c # cs" using decimal_nonempty by (cases "decimal n") auto
  then have "c \<noteq> CHR ''+''" using decimal_digits [of n] digit_neq [of c] by auto
  then show ?thesis using parse_decimal_digits [OF \<open>n \<le> mx\<close>] by (simp add: parse_uint_def Let_def d)
qed

lemma parse_digits_bound: "parse_digits mx acc s = Some n \<Longrightarrow> acc \<le> mx \<Longrightarrow> n \<le> mx"
  by (induction s arbitrary: acc) (auto simp: Let_def split: if_splits)

lemma parse_uint_bound: "parse_uint mx s = Some n \<Longrightarrow> n \<le> mx"
  by (auto simp: parse_uint_def Let_def split: if_splits list.splits dest: parse_digits_bound)

lemma split_once_none: "c \<notin> set s \<Longrightarrow> split_once c s = None"
  by (induction s) auto

lemma split_once_append: "c \<notin> set a \<Longrightarrow> split_once c (a @ c # b) = Some (a, b)"
  by (induction a) auto

lemma strip_prefix_append [simp]: "strip_prefix p (p @ s) = Some s"
  by (simp add: strip_prefix_def)

lemma split_on_no_sep: "c \<notin> set s \<Longrightarrow> split_on c s = [s]"
  by (induction s) auto

lemma split_on_append: "c \<notin> set a \<Longrightarrow> split_on c (a @ c # b) = a # split_on c b"
  by (induction a) auto

end
