(* ===== verification/Config.thy ===== *)
theory Config
  imports Endpoints Saturation Text
begin

text \<open>
  The configuration and its validation (\<open>src/config/mod.rs\<close>): the structures a TOML file is read into,
  every check of \<open>Config::validate\<close> and the functions it calls, the batch size derived from it, and
  the CPU list parser.

  A check is a condition with the error it raises; \<open>first_error\<close> raises the first one that holds, as
  the early returns of the source do. Reading
  the file and deserializing it are the standard library and the crate toml. Durations are
  nanoseconds, paths and addresses strings. The build feature \<open>dma\<close> is an argument.
\<close>

section \<open>The structures\<close>

datatype protocol = Resp | Resp3 | Memcache | MemcacheBinary | PingProtocol | Dma

datatype routing = Pinned | Routed

datatype distribution = Uniform | Zipf | Recency

datatype append_pace = Burst | Spread

datatype kv_write_rule = SetFromMiss | InsertIfAbsent

datatype kv_key_format = KvHex | KvDecimal

datatype resp_module = NoModule | LargeObj

datatype timestamp_mode = Userspace | Software

record general =
  gn_threads :: nat
  gn_cpu_list :: "string option"
  gn_recv_ring_size :: "nat option"
  gn_recv_buffer_size :: "nat option"
  gn_seed :: "nat option"

record target =
  tg_endpoints :: "string list"
  tg_protocol :: protocol
  tg_tls :: bool
  tg_tls_ca_file :: "string option"
  tg_tls_cert_file :: "string option"
  tg_tls_key_file :: "string option"
  tg_cluster :: bool
  tg_auto_discovery :: bool

record connection =
  cn_connections :: nat
  cn_pool_size :: "nat option"
  cn_pipeline_depth :: nat
  cn_batch_size :: "nat option"
  cn_request_timeout :: nat
  cn_endpoint_allocation :: endpoint_allocation

record keyspace =
  ks_length :: nat
  ks_count :: nat
  ks_distribution :: distribution
  ks_zipf_theta :: f64
  ks_format :: key_format
  ks_hot_generations :: nat
  ks_hot_decay :: f64
  ks_hot_fraction :: f64

record append_config =
  ap_batch :: nat
  ap_every :: nat
  ap_pace :: append_pace
  ap_connections :: nat
  ap_pipeline_depth :: nat

record kv_replay_config =
  kv_speedup :: f64
  kv_model_config :: "string option"
  kv_dtype :: "string option"
  kv_bytes_per_token :: "nat option"
  kv_mla :: bool
  kv_tp :: nat
  kv_write_rule :: kv_write_rule
  kv_key_prefix :: string
  kv_key_format :: kv_key_format

record trace_replay_config =
  tr_key_prefix :: string
  tr_key_format :: kv_key_format

record commands =
  cm_get :: nat
  cm_set :: nat
  cm_delete :: nat

record workload =
  wl_rate_limit :: "nat option"
  wl_prefill_rate_limit :: "nat option"
  wl_prefill :: bool
  wl_prefill_timeout :: nat
  wl_backfill_on_miss :: bool
  wl_routing :: routing
  wl_read_values :: bool
  wl_keyspace :: keyspace
  wl_commands :: commands
  wl_values_length :: nat
  wl_saturation_search :: "saturation_config option"
  wl_append :: "append_config option"
  wl_kv_replay :: "kv_replay_config option"
  wl_trace_replay :: "trace_replay_config option"

record config =
  cf_general :: general
  cf_target :: target
  cf_connection :: connection
  cf_workload :: workload
  cf_timestamps_mode :: timestamp_mode
  cf_dma_buffer_capacity :: "nat option"
  cf_resp_module :: resp_module

abbreviation VALUE_POOL_SIZE :: nat where "VALUE_POOL_SIZE \<equiv> 1024 * 1024 * 1024"
abbreviation MAX_ZIPF_THETA :: f64 where "MAX_ZIPF_THETA \<equiv> Fin 10"

definition total_connections :: "connection \<Rightarrow> nat" where
  "total_connections c = (case cn_pool_size c of Some n \<Rightarrow> n | None \<Rightarrow> cn_connections c)"

text \<open>The room a connection needs before it sends. \<open>clamp\<close> cannot panic: its bounds are in order.\<close>

definition effective_batch_size :: "config \<Rightarrow> nat" where
  "effective_batch_size c =
     (let depth = cn_pipeline_depth (cf_connection c);
          unset = (if wl_routing (cf_workload c) = Routed then 1 else depth)
      in clamp 1 (max depth 1) (case cn_batch_size (cf_connection c) of Some n \<Rightarrow> n | None \<Rightarrow> unset))"

section \<open>Validation\<close>

text \<open>The error of a check is \<open>ConfigError::Validation\<close> with its text, less the values formatted into it.\<close>

datatype config_error = Io string | Parse string | Validation string

type_synonym checks = "(bool \<times> string) list"

fun first_error :: "checks \<Rightarrow> config_error + unit" where
  "first_error [] = Inr ()"
| "first_error ((bad, e) # cs) = (if bad then Inl (Validation e) else first_error cs)"

definition is_power_of_two :: "nat \<Rightarrow> bool" where
  "is_power_of_two n \<longleftrightarrow> n > 0 \<and> n = 2 ^ (nat_bits n - 1)"

text \<open>A condition on an optional section, false when the section is missing.\<close>

abbreviation on_some :: "('a \<Rightarrow> bool) \<Rightarrow> 'a option \<Rightarrow> bool" where
  "on_some P x \<equiv> (case x of Some v \<Rightarrow> P v | None \<Rightarrow> False)"

definition validate_target :: "config \<Rightarrow> checks" where
  "validate_target c =
     (let t = cf_target c in
      [(tg_endpoints t = [], ''endpoints must be specified''),
       (gn_threads (cf_general c) = 0, ''threads must be >= 1''),
       (tg_auto_discovery t \<and> tg_cluster t, ''target.auto_discovery and target.cluster cannot both be set''),
       (tg_auto_discovery t \<and> tg_protocol t \<notin> {Memcache, MemcacheBinary}, ''target.auto_discovery requires protocol memcache or memcache-binary'')])"

definition validate_prefill_pace :: "config \<Rightarrow> checks" where
  "validate_prefill_pace c =
     (let w = cf_workload c in
      [(wl_prefill w \<and> wl_prefill_timeout w \<noteq> 0 \<and>
        on_some (\<lambda>rate. rate > 0 \<and>
           f_lt (duration_as_secs_f64 (wl_prefill_timeout w))
                (f_div (f_of_nat (ks_count (wl_keyspace w))) (f_of_nat rate)))
          (wl_prefill_rate_limit w),
        ''prefill takes longer than prefill_timeout'')])"

definition validate_recv :: "config \<Rightarrow> checks" where
  "validate_recv c =
     (let g = cf_general c in
      [(on_some (\<lambda>n. n = 0) (gn_recv_ring_size g), ''recv_ring_size must be >= 1''),
       (on_some (\<lambda>n. \<not> is_power_of_two n) (gn_recv_ring_size g), ''recv_ring_size must be a power of two''),
       (gn_recv_buffer_size g = Some 0, ''recv_buffer_size must be >= 1'')])"

definition validate_tls :: "config \<Rightarrow> checks" where
  "validate_tls c =
     (let t = cf_target c in
      [(tg_tls_cert_file t \<noteq> None \<and> tg_tls_key_file t = None, ''tls_cert_file requires tls_key_file''),
       (tg_tls_cert_file t = None \<and> tg_tls_key_file t \<noteq> None, ''tls_key_file requires tls_cert_file''),
       (\<not> tg_tls t \<and> (tg_tls_ca_file t \<noteq> None \<or> tg_tls_cert_file t \<noteq> None \<or> tg_tls_key_file t \<noteq> None),
        ''tls_ca_file / tls_cert_file / tls_key_file require tls = true'')])"

definition validate_dma :: "bool \<Rightarrow> config \<Rightarrow> checks" where
  "validate_dma dma c =
     (if tg_protocol (cf_target c) = Dma then
        if dma then
          [(cn_pipeline_depth (cf_connection c) \<noteq> 1, ''protocol = dma currently runs one transfer per connection''),
           (wl_append (cf_workload c) \<noteq> None, ''protocol = dma does not support [workload.append]''),
           (on_some (\<lambda>n. n < wl_values_length (cf_workload c)) (cf_dma_buffer_capacity c), ''dma.buffer_capacity must hold workload.values.length'')]
        else [(True, ''protocol = dma requires a build with --features dma'')]
      else [])"

definition validate_resp_module :: "config \<Rightarrow> checks" where
  "validate_resp_module c =
     (if cf_resp_module c = NoModule then []
      else [(tg_protocol (cf_target c) \<notin> {Resp, Resp3}, ''resp.module applies to protocol = resp or resp3 only''),
            (wl_append (cf_workload c) \<noteq> None, ''resp.module does not support [workload.append]''),
            (wl_kv_replay (cf_workload c) \<noteq> None, ''resp.module does not support [workload.kv_replay]'')])"

definition validate_keyspace :: "config \<Rightarrow> checks" where
  "validate_keyspace c =
     (let w = cf_workload c; ks = wl_keyspace w; theta = ks_zipf_theta ks; conns = total_connections (cf_connection c);
          endpoints = length (tg_endpoints (cf_target c));
          key_share = (cn_endpoint_allocation (cf_connection c) = KeyShare) in
      [(conns = 0, ''connections must be >= 1''),
       (wl_values_length w = 0, ''workload.values.length must be >= 1''),
       (ks_format ks = Uuid \<and> ks_length ks \<noteq> 36, ''keyspace.format = uuid requires keyspace.length = 36''),
       (ks_distribution ks = Zipf \<and> (\<not> is_finite theta \<or> f_le theta (Fin 0) \<or> f_lt MAX_ZIPF_THETA theta), ''keyspace.zipf_theta must be in (0, 10]''),
       (key_share \<and> ks_distribution ks \<noteq> Zipf, ''key_share requires keyspace.distribution = zipf''),
       (key_share \<and> endpoints > 1 \<and> conns < endpoints, ''key_share requires connections >= endpoints'')])"

definition validate_routed :: "config \<Rightarrow> checks" where
  "validate_routed c =
     (let w = cf_workload c in
      [((case wl_rate_limit w of Some r \<Rightarrow> r | None \<Rightarrow> 0) = 0 \<and> wl_saturation_search w = None, ''routing = routed needs workload.rate_limit > 0 or [workload.saturation_search]''),
       (tg_protocol (cf_target c) \<notin> {Resp, Resp3, Memcache, MemcacheBinary}, ''routing = routed needs a RESP or memcache protocol''),
       (wl_kv_replay w \<noteq> None, ''routing = routed does not apply to [workload.kv_replay]''),
       (wl_trace_replay w \<noteq> None, ''routing = routed does not apply to [workload.trace_replay]''),
       (cn_endpoint_allocation (cf_connection c) = KeyShare, ''routing = routed cannot be combined with key_share'')])"

definition validate_recency :: "config \<Rightarrow> checks" where
  "validate_recency c =
     (let w = cf_workload c; ks = wl_keyspace w; is_recency = (ks_distribution ks = Recency) in
      [(wl_append w = None \<and> is_recency, ''distribution = recency requires a [workload.append] section''),
       (wl_append w \<noteq> None \<and> \<not> is_recency, ''[workload.append] requires distribution = recency'')] @
      (if is_recency then
         [(ks_hot_generations ks = 0, ''keyspace.hot_generations must be >= 1''),
          (\<not> is_finite (ks_hot_decay ks) \<or> f_le (ks_hot_decay ks) (Fin 0) \<or> f_lt (Fin 1) (ks_hot_decay ks), ''keyspace.hot_decay must be in (0, 1]''),
          (\<not> is_finite (ks_hot_fraction ks) \<or> \<not> (f_le (Fin 0) (ks_hot_fraction ks) \<and> f_le (ks_hot_fraction ks) (Fin 1)),
           ''keyspace.hot_fraction must be in [0, 1]''),
          (ks_count ks = 0, ''keyspace.count must be >= 1 with distribution = recency'')]
       else []))"

definition validate_append :: "config \<Rightarrow> checks" where
  "validate_append c =
     (case wl_append (cf_workload c) of
        None \<Rightarrow> []
      | Some a \<Rightarrow>
          let endpoints = length (tg_endpoints (cf_target c)) in
          [(ap_batch a = 0, ''append.batch must be >= 1''),
           (ap_every a = 0, ''append.every must be > 0''),
           (ap_connections a = 0, ''append.connections must be >= 1''),
           (ap_pipeline_depth a = 0, ''append.pipeline_depth must be >= 1''),
           (tg_protocol (cf_target c) = PingProtocol, ''[workload.append] needs a protocol with SET''),
           (endpoints > 1 \<and> ap_connections a < endpoints, ''append.connections must be >= the number of endpoints'')])"

definition validate_values :: "config \<Rightarrow> checks" where
  "validate_values c =
     (let w = cf_workload c; cmds = wl_commands w in
      [(wl_read_values w \<and> tg_protocol (cf_target c) = PingProtocol, ''workload.read_values needs a protocol with GET''),
       (wl_read_values w \<and> tg_protocol (cf_target c) = Dma, ''workload.read_values does not apply to protocol = dma''),
       (wl_values_length w > VALUE_POOL_SIZE, ''workload.values.length exceeds the value pool size''),
       (cf_timestamps_mode c = Software, ''timestamps.mode = software was removed''),
       (cm_get cmds = 0 \<and> cm_set cmds = 0 \<and> cm_delete cmds = 0, ''at least one command ratio must be > 0'')])"

definition single_endpoint :: "config \<Rightarrow> bool" where
  "single_endpoint c \<longleftrightarrow> \<not> (tg_cluster (cf_target c) \<or> length (tg_endpoints (cf_target c)) > 1)"

definition validate_kv_replay :: "config \<Rightarrow> kv_replay_config \<Rightarrow> checks" where
  "validate_kv_replay c kv =
     (let w = cf_workload c in
      [(kv_model_config kv \<noteq> None \<and> kv_bytes_per_token kv \<noteq> None, ''kv_replay: set model_config or kv_bytes_per_token, not both''),
       (kv_model_config kv = None \<and> kv_bytes_per_token kv = None, ''kv_replay: one of model_config or kv_bytes_per_token is required''),
       (kv_model_config kv = None \<and> kv_bytes_per_token kv = Some 0, ''kv_replay: kv_bytes_per_token must be >= 1''),
       (kv_dtype kv \<noteq> None \<and> kv_model_config kv = None, ''kv_replay: kv_dtype applies only with model_config''),
       (kv_mla kv \<and> kv_model_config kv \<noteq> None, ''kv_replay: mla applies only with kv_bytes_per_token''),
       (\<not> is_finite (kv_speedup kv) \<or> f_lt (kv_speedup kv) (Fin 0), ''kv_replay: speedup must be finite and >= 0''),
       (kv_tp kv \<noteq> 1, ''kv_replay: tp must be 1''),
       (cn_pipeline_depth (cf_connection c) = 0, ''kv_replay: needs connection.pipeline_depth >= 1''),
       (tg_protocol (cf_target c) \<notin> {Resp, Resp3}, ''kv_replay: needs protocol resp or resp3''),
       (\<not> single_endpoint c, ''kv_replay: needs a single endpoint''),
       (on_some (\<lambda>r. r > 0) (wl_rate_limit w) \<or> wl_saturation_search w \<noteq> None \<or> wl_prefill w \<or>
        wl_backfill_on_miss w \<or> wl_read_values w \<or> wl_append w \<noteq> None, ''kv_replay: cannot be combined with another option'')])"

definition validate_trace_replay :: "config \<Rightarrow> checks" where
  "validate_trace_replay c =
     (let w = cf_workload c in
      [(tg_protocol (cf_target c) \<notin> {Resp, Resp3}, ''trace_replay: needs protocol resp or resp3''),
       (\<not> single_endpoint c, ''trace_replay: needs a single endpoint''),
       (wl_saturation_search w \<noteq> None \<or> wl_prefill w \<or> wl_read_values w \<or> wl_append w \<noteq> None \<or> wl_kv_replay w \<noteq> None,
        ''trace_replay: cannot be combined with another option'')])"

definition validate_search :: "config \<Rightarrow> checks" where
  "validate_search c =
     (case wl_saturation_search (cf_workload c) of
        None \<Rightarrow> []
      | Some sat \<Rightarrow>
          let slo = sc_slo sat in
          [(sc_start_rate sat = 0, ''saturation_search.start_rate must be > 0''),
           (f_le (sc_step_multiplier sat) (Fin 1), ''saturation_search.step_multiplier must be > 1.0''),
           (\<not> (f_le (Fin 0) (sc_min_throughput_ratio sat) \<and> f_le (sc_min_throughput_ratio sat) (Fin 1)), ''saturation_search.min_throughput_ratio must be between 0.0 and 1.0''),
           (slo_p50 slo = None \<and> slo_p99 slo = None \<and> slo_p999 slo = None, ''saturation_search.slo must have at least one threshold'')])"

definition all_checks :: "bool \<Rightarrow> config \<Rightarrow> checks" where
  "all_checks dma c =
     validate_target c @ validate_prefill_pace c @ validate_recv c @ validate_tls c @ validate_dma dma c @
     validate_resp_module c @ validate_keyspace c @
     (if wl_routing (cf_workload c) = Routed then validate_routed c else []) @
     validate_recency c @ validate_append c @ validate_values c @
     (case wl_kv_replay (cf_workload c) of Some kv \<Rightarrow> validate_kv_replay c kv | None \<Rightarrow> []) @
     (if wl_trace_replay (cf_workload c) \<noteq> None then validate_trace_replay c else []) @
     validate_search c"

definition validate :: "bool \<Rightarrow> config \<Rightarrow> config_error + unit" where
  "validate dma c = first_error (all_checks dma c)"


section \<open>The CPU list\<close>

datatype cpu_list_error = Invalid_cpu string | Invalid_range nat nat

definition parse_cpu_part :: "string \<Rightarrow> cpu_list_error + nat list" where
  "parse_cpu_part part =
     (case split_once (CHR ''-'') part of
        Some (lo, hi) \<Rightarrow>
          (case (parse_uint U64_MAX (trim lo), parse_uint U64_MAX (trim hi)) of
             (None, _) \<Rightarrow> Inl (Invalid_cpu lo)
           | (Some _, None) \<Rightarrow> Inl (Invalid_cpu hi)
           | (Some a, Some b) \<Rightarrow> if a > b then Inl (Invalid_range a b) else Inr [a..<Suc b])
      | None \<Rightarrow> (case parse_uint U64_MAX part of None \<Rightarrow> Inl (Invalid_cpu part) | Some n \<Rightarrow> Inr [n]))"

fun parse_cpu_parts :: "string list \<Rightarrow> nat list \<Rightarrow> cpu_list_error + nat list" where
  "parse_cpu_parts [] cpus = Inr cpus"
| "parse_cpu_parts (p # ps) cpus =
     (let part = trim p in
      if part = [] then parse_cpu_parts ps cpus
      else case parse_cpu_part part of Inl e \<Rightarrow> Inl e | Inr ns \<Rightarrow> parse_cpu_parts ps (cpus @ ns))"

definition parse_cpu_list :: "string \<Rightarrow> cpu_list_error + nat list" where
  "parse_cpu_list s =
     (case parse_cpu_parts (split_on (CHR '','') s) [] of
        Inl e \<Rightarrow> Inl e
      | Inr cpus \<Rightarrow> Inr (remdups_adj (sort cpus)))"

section \<open>What a validated configuration guarantees\<close>

lemma first_error_ok: "first_error cs = Inr u \<longleftrightarrow> (\<forall>(bad, e)\<in>set cs. \<not> bad)"
  by (induction cs rule: first_error.induct) (auto split: if_splits)

lemma first_error_Cons [simp]: "first_error ((bad, e) # cs) = Inr u \<longleftrightarrow> \<not> bad \<and> first_error cs = Inr ()"
  by (simp add: first_error_ok)

declare first_error.simps(2) [simp del]

lemma first_error_append [simp]:
  "first_error (as @ bs) = Inr u \<longleftrightarrow> first_error as = Inr () \<and> first_error bs = Inr ()"
  by (auto simp: first_error_ok)

lemma is_power_of_two_iff: "is_power_of_two n \<longleftrightarrow> (\<exists>k. n = 2 ^ k)"
proof
  assume "is_power_of_two n"
  then show "\<exists>k. n = 2 ^ k" unfolding is_power_of_two_def by blast
next
  assume "\<exists>k. n = 2 ^ k"
  then obtain k where n: "n = 2 ^ k" by blast
  then have "n > 0" by simp
  then have b: "2 ^ (nat_bits n - 1) \<le> n" "n < 2 ^ nat_bits n" "nat_bits n > 0"
    using nat_bits_bounds by auto
  from b(1,2) n have "nat_bits n - 1 \<le> k" "k < nat_bits n" by simp_all
  then have "k = nat_bits n - 1" using b(3) by linarith
  with n \<open>n > 0\<close> show "is_power_of_two n" by (simp add: is_power_of_two_def)
qed

lemma clamp_id: "lo \<le> x \<Longrightarrow> x \<le> hi \<Longrightarrow> clamp lo hi x = x"
  by (simp add: clamp_def)

lemma effective_batch_size_bounds:
  "1 \<le> effective_batch_size c" "effective_batch_size c \<le> max 1 (cn_pipeline_depth (cf_connection c))"
  using clamp_bounds [of 1 "max (cn_pipeline_depth (cf_connection c)) 1"]
  by (simp_all add: effective_batch_size_def Let_def max.commute)


lemma validateD:
  assumes "validate dma c = Inr ()"
  shows "first_error (validate_target c) = Inr ()" "first_error (validate_recv c) = Inr ()"
    "first_error (validate_keyspace c) = Inr ()" "first_error (validate_recency c) = Inr ()"
    "first_error (validate_append c) = Inr ()" "first_error (validate_values c) = Inr ()"
    "first_error (validate_search c) = Inr ()" "first_error (validate_dma dma c) = Inr ()"
    "wl_routing (cf_workload c) = Routed \<Longrightarrow> first_error (validate_routed c) = Inr ()"
    "wl_kv_replay (cf_workload c) = Some kv \<Longrightarrow> first_error (validate_kv_replay c kv) = Inr ()"
    "wl_trace_replay (cf_workload c) \<noteq> None \<Longrightarrow> first_error (validate_trace_replay c) = Inr ()"
  using assms by (simp_all add: validate_def all_checks_def)

text \<open>At least one worker, connection and endpoint, and a value that fits the pool.\<close>

lemma validated_sizes:
  assumes "validate dma c = Inr ()"
  shows "tg_endpoints (cf_target c) \<noteq> []" "1 \<le> gn_threads (cf_general c)" "1 \<le> total_connections (cf_connection c)"
    "1 \<le> wl_values_length (cf_workload c)" "wl_values_length (cf_workload c) \<le> VALUE_POOL_SIZE"
  using validateD(1,3,6) [OF assms]
  by (simp_all add: validate_target_def validate_keyspace_def validate_values_def Let_def)

definition limiter_configured :: "config \<Rightarrow> bool" where
  "limiter_configured c \<longleftrightarrow> on_some (\<lambda>r. r > 0) (wl_rate_limit (cf_workload c)) \<or> wl_saturation_search (cf_workload c) \<noteq> None"

lemma validated_routed:
  assumes "validate dma c = Inr ()" and "wl_routing (cf_workload c) = Routed"
  shows "limiter_configured c" "wl_kv_replay (cf_workload c) = None" "wl_trace_replay (cf_workload c) = None"
    "cn_endpoint_allocation (cf_connection c) = Even"
  using validateD(9) [OF assms(1) assms(2)]
  by (auto simp: validate_routed_def Let_def limiter_configured_def split: option.splits
      intro: endpoint_allocation.exhaust [of "cn_endpoint_allocation (cf_connection c)"])

lemma validated_append:
  assumes "validate dma c = Inr ()"
  shows "wl_append (cf_workload c) = None \<longleftrightarrow> ks_distribution (wl_keyspace (cf_workload c)) \<noteq> Recency"
    "wl_append (cf_workload c) = Some a \<Longrightarrow> 1 \<le> ap_batch a \<and> 1 \<le> ap_every a \<and> 1 \<le> ap_connections a \<and> 1 \<le> ap_pipeline_depth a \<and>
       (1 < length (tg_endpoints (cf_target c)) \<longrightarrow> length (tg_endpoints (cf_target c)) \<le> ap_connections a) \<and>
       1 \<le> ks_count (wl_keyspace (cf_workload c)) \<and> 1 \<le> ks_hot_generations (wl_keyspace (cf_workload c))"
  using validateD(4,5) [OF assms]
  by (auto simp: validate_recency_def validate_append_def Let_def split: if_splits)

lemma validated_replay:
  assumes "validate dma c = Inr ()" and "wl_kv_replay (cf_workload c) \<noteq> None \<or> wl_trace_replay (cf_workload c) \<noteq> None"
  shows "single_endpoint c" "wl_kv_replay (cf_workload c) = None \<or> wl_trace_replay (cf_workload c) = None"
    "wl_append (cf_workload c) = None" "\<not> wl_prefill (cf_workload c)" "wl_saturation_search (cf_workload c) = None"
    "wl_routing (cf_workload c) = Pinned"
    "wl_kv_replay (cf_workload c) \<noteq> None \<Longrightarrow> 1 \<le> cn_pipeline_depth (cf_connection c)"
  using assms(2) validateD(11) [OF assms(1)] validateD(10) [OF assms(1)] validated_routed(2,3) [OF assms(1)]
  by (auto simp: validate_kv_replay_def validate_trace_replay_def Let_def
      intro: routing.exhaust [of "wl_routing (cf_workload c)"])


lemma validated_search:
  assumes "validate dma c = Inr ()" and "wl_saturation_search (cf_workload c) = Some sat"
  shows "1 \<le> sc_start_rate sat" "sc_step_multiplier sat = NaN \<or> multiplier_ok (sc_step_multiplier sat)"
proof -
  have v: "first_error (validate_search c) = Inr ()" by (rule validateD(7) [OF assms(1)])
  show "1 \<le> sc_start_rate sat" using v assms(2) by (simp add: validate_search_def Let_def)
  have "\<not> f_le (sc_step_multiplier sat) (Fin 1)" using v assms(2) by (simp add: validate_search_def Let_def)
  then show "sc_step_multiplier sat = NaN \<or> multiplier_ok (sc_step_multiplier sat)"
    by (cases "sc_step_multiplier sat") (auto simp: f_le_def multiplier_ok_def)
qed

lemma validated_recv:
  assumes "validate dma c = Inr ()" and "gn_recv_ring_size (cf_general c) = Some n"
  shows "\<exists>k. n = 2 ^ k"
  using validateD(2) [OF assms(1)] assms(2) by (simp add: validate_recv_def Let_def flip: is_power_of_two_iff)


definition demo_config :: config where
  "demo_config = \<lparr>
     cf_general = \<lparr>gn_threads = 4, gn_cpu_list = None, gn_recv_ring_size = Some 512, gn_recv_buffer_size = None, gn_seed = None\<rparr>,
     cf_target = \<lparr>tg_endpoints = [''10.0.0.1:6379'', ''10.0.0.2:6379''], tg_protocol = Resp, tg_tls = False,
       tg_tls_ca_file = None, tg_tls_cert_file = None, tg_tls_key_file = None, tg_cluster = False, tg_auto_discovery = False\<rparr>,
     cf_connection = \<lparr>cn_connections = 16, cn_pool_size = None, cn_pipeline_depth = 32, cn_batch_size = Some 8,
       cn_request_timeout = 1000000000, cn_endpoint_allocation = Even\<rparr>,
     cf_workload = \<lparr>wl_rate_limit = Some 100000, wl_prefill_rate_limit = None, wl_prefill = True, wl_prefill_timeout = 300000000000,
       wl_backfill_on_miss = False, wl_routing = Routed, wl_read_values = False,
       wl_keyspace = \<lparr>ks_length = 16, ks_count = 1000000, ks_distribution = Uniform, ks_zipf_theta = Fin 1, ks_format = Hex,
         ks_hot_generations = 8, ks_hot_decay = Fin (1/2), ks_hot_fraction = Fin (4/5)\<rparr>,
       wl_commands = \<lparr>cm_get = 80, cm_set = 20, cm_delete = 0\<rparr>, wl_values_length = 64,
       wl_saturation_search = None, wl_append = None, wl_kv_replay = None, wl_trace_replay = None\<rparr>,
     cf_timestamps_mode = Userspace, cf_dma_buffer_capacity = None, cf_resp_module = NoModule\<rparr>"

lemma demo_config_sel:
  "gn_threads (cf_general demo_config) = 4" "gn_recv_ring_size (cf_general demo_config) = Some 512"
  "gn_recv_buffer_size (cf_general demo_config) = None" "tg_endpoints (cf_target demo_config) \<noteq> []"
  "tg_protocol (cf_target demo_config) = Resp" "tg_tls_ca_file (cf_target demo_config) = None"
  "tg_tls_cert_file (cf_target demo_config) = None" "tg_tls_key_file (cf_target demo_config) = None"
  "tg_auto_discovery (cf_target demo_config) = False" "total_connections (cf_connection demo_config) = 16"
  "cn_pipeline_depth (cf_connection demo_config) = 32" "cn_endpoint_allocation (cf_connection demo_config) = Even"
  "wl_rate_limit (cf_workload demo_config) = Some 100000" "wl_prefill_rate_limit (cf_workload demo_config) = None"
  "wl_routing (cf_workload demo_config) = Routed" "wl_read_values (cf_workload demo_config) = False"
  "ks_distribution (wl_keyspace (cf_workload demo_config)) = Uniform" "ks_format (wl_keyspace (cf_workload demo_config)) = Hex"
  "cm_get (wl_commands (cf_workload demo_config)) = 80" "wl_values_length (cf_workload demo_config) = 64"
  "wl_saturation_search (cf_workload demo_config) = None" "wl_append (cf_workload demo_config) = None"
  "wl_kv_replay (cf_workload demo_config) = None" "wl_trace_replay (cf_workload demo_config) = None"
  "cf_timestamps_mode demo_config = Userspace" "cf_resp_module demo_config = NoModule"
  by (simp_all add: demo_config_def total_connections_def)

lemma demo_config_valid: "validate False demo_config = Inr ()"
proof -
  have "is_power_of_two 512" unfolding is_power_of_two_iff by (rule exI [of _ 9]) simp
  then show ?thesis
    by (simp add: validate_def all_checks_def demo_config_sel validate_target_def validate_prefill_pace_def validate_recv_def
        validate_tls_def validate_dma_def validate_resp_module_def validate_keyspace_def validate_routed_def validate_recency_def
        validate_append_def validate_values_def validate_search_def Let_def)
qed


section \<open>The CPU list reads back\<close>

lemma trim_id: "\<forall>c\<in>set s. \<not> is_space c \<Longrightarrow> trim s = s"
proof -
  assume a: "\<forall>c\<in>set s. \<not> is_space c"
  then have "dropWhile is_space s = s" by (cases s) auto
  moreover have "dropWhile is_space (rev s) = rev s" using a by (cases "rev s") (auto simp flip: set_rev [of s])
  ultimately show ?thesis by (simp add: trim_def)
qed

definition range_text :: "nat \<times> nat \<Rightarrow> string" where
  "range_text r = (if fst r = snd r then decimal (fst r) else decimal (fst r) @ CHR ''-'' # decimal (snd r))"

fun cpu_list_text :: "(nat \<times> nat) list \<Rightarrow> string" where
  "cpu_list_text [] = []"
| "cpu_list_text [r] = range_text r"
| "cpu_list_text (r # rs) = range_text r @ CHR '','' # cpu_list_text rs"

lemma digit_not_space: "is_digit c \<Longrightarrow> \<not> is_space c"
  by (auto simp: is_digit_def is_space_def Let_def)

lemma decimal_clean: "trim (decimal n) = decimal n" "CHR ''-'' \<notin> set (decimal n)" "CHR '','' \<notin> set (decimal n)"
  using decimal_digits [of n] digit_not_space digit_neq by (blast intro: trim_id)+

lemma range_text_clean: "trim (range_text r) = range_text r" "CHR '','' \<notin> set (range_text r)" "range_text r \<noteq> []"
proof -
  have "\<not> is_space (CHR ''-'')" by (simp add: is_space_def)
  then show "trim (range_text r) = range_text r"
    using decimal_digits digit_not_space by (intro trim_id) (auto simp: range_text_def)
  show "CHR '','' \<notin> set (range_text r)" "range_text r \<noteq> []"
    using decimal_clean(3) decimal_nonempty by (auto simp: range_text_def)
qed

lemma parse_range_text:
  assumes "fst r \<le> snd r" and "snd r \<le> U64_MAX"
  shows "parse_cpu_part (range_text r) = Inr [fst r..<Suc (snd r)]"
proof (cases "fst r = snd r")
  case True
  have "split_once (CHR ''-'') (decimal n) = None" for n
    by (rule split_once_none) (rule decimal_clean(2))
  then show ?thesis using True assms by (simp add: range_text_def parse_cpu_part_def)
next
  case False
  then show ?thesis using assms decimal_clean
    by (auto simp: range_text_def parse_cpu_part_def split_once_append)
qed


lemma split_cpu_list_text: "split_on (CHR '','') (cpu_list_text rs) = (if rs = [] then [[]] else map range_text rs)"
  by (induction rs rule: cpu_list_text.induct)
     (simp_all add: split_on_no_sep split_on_append range_text_clean)

lemma parse_cpu_parts_ranges:
  assumes "\<forall>(a, b)\<in>set rs. a \<le> b \<and> b \<le> U64_MAX"
  shows "parse_cpu_parts (map range_text rs) acc = Inr (acc @ concat (map (\<lambda>(a, b). [a..<Suc b]) rs))"
  using assms
  by (induction rs arbitrary: acc) (auto simp: range_text_clean parse_range_text simp del: upt_Suc)

lemma dedup_sorted: "sorted xs \<Longrightarrow> distinct (remdups_adj (xs :: nat list))"
  by (induction xs rule: remdups_adj.induct) auto

lemma sort_dedup: "remdups_adj (sort xs) = sorted_list_of_set (set (xs :: nat list))"
  by (rule sorted_distinct_set_unique)
     (simp_all add: dedup_sorted sorted_remdups_adj)

lemma parse_cpu_list_sorted: "parse_cpu_list s = Inr cpus \<Longrightarrow> sorted_wrt (<) cpus"
  by (auto simp: parse_cpu_list_def sort_dedup split: sum.splits)

text \<open>
  C35. A CPU list means what it says. The text of any list of CPUs and ranges, in any order and with
  any overlaps, parses to exactly the CPUs it names, ascending and without repeats; whatever text
  parses, the result is ascending without repeats.
\<close>

theorem parse_cpu_list_reads_back:
  assumes "\<forall>(a, b)\<in>set rs. a \<le> b \<and> b \<le> U64_MAX"
  shows "parse_cpu_list (cpu_list_text rs) = Inr (sorted_list_of_set (\<Union>(a, b)\<in>set rs. {a..b})) \<and>
    (\<forall>s cpus. parse_cpu_list s = Inr cpus \<longrightarrow> sorted_wrt (<) cpus)"
proof (intro conjI allI impI)
  have u: "set (concat (map (\<lambda>(a, b). [a..<Suc b]) rs)) = (\<Union>(a, b)\<in>set rs. {a..b})"
    by (induction rs) (auto simp: atLeastLessThanSuc_atLeastAtMost simp del: upt_Suc)
  have "trim [] = []" by (simp add: trim_def)
  then have "parse_cpu_parts (split_on (CHR '','') (cpu_list_text rs)) [] = Inr (concat (map (\<lambda>(a, b). [a..<Suc b]) rs))"
    using parse_cpu_parts_ranges [OF assms, of "[]"] by (simp add: split_cpu_list_text)
  then show "parse_cpu_list (cpu_list_text rs) = Inr (sorted_list_of_set (\<Union>(a, b)\<in>set rs. {a..b}))"
    by (simp only: parse_cpu_list_def sort_dedup u sum.case)
qed (rule parse_cpu_list_sorted)

theorem parse_cpu_list_reads_back_witness:
  "cpu_list_text [(8, 11), (0, 3), (2, 2)] = ''8-11,0-3,2'' \<and>
   parse_cpu_list ''8-11,0-3,2'' = Inr [0, 1, 2, 3, 8, 9, 10, 11]"
proof -
  have t: "cpu_list_text [(8, 11), (0, 3), (2, 2)] = ''8-11,0-3,2''"
    by code_simp
  have "(\<Union>(a, b)\<in>set [(8, 11), (0, 3), (2, 2)]. {a..b}) = set [0, 1, 2, 3, 8, 9, 10, 11::nat]" by auto
  moreover have "sorted_list_of_set (set [0, 1, 2, 3, 8, 9, 10, 11]) = [0, 1, 2, 3, 8, 9, 10, 11::nat]"
    by (rule sorted_distinct_set_unique) simp_all
  moreover have "\<forall>(a, b)\<in>set [(8, 11), (0, 3), (2, 2)]. a \<le> b \<and> b \<le> U64_MAX" by simp
  ultimately show ?thesis
    using parse_cpu_list_reads_back [of "[(8, 11), (0, 3), (2, 2)]"] unfolding t by simp
qed

end
