(* ===== verification/Sizing.thy ===== *)
theory Sizing
  imports Config
begin

text \<open>
  How much send capacity a run asks of its I/O runtime (\<open>src/runner.rs\<close>, from
  \<open>connections_per_worker\<close> to \<open>check_send_pool\<close>): task slots, receive ring, zero-copy slab entries
  and copy-pool slots per worker, and the check that the pool suffices.

  Plain sums and products wrap, the saturating ones saturate, as in the source. What a KV replay or
  a trace replay says of its trace are arguments of their loads. The texts of errors and warnings
  are not kept, only the numbers they report.
\<close>

abbreviation RINGLINE_POOL_MAX :: nat where "RINGLINE_POOL_MAX \<equiv> 2147483647"
abbreviation RINGLINE_POOL_DEFAULT :: nat where "RINGLINE_POOL_DEFAULT \<equiv> 256"
abbreviation POOL_HEADROOM :: nat where "POOL_HEADROOM \<equiv> 16"
abbreviation RECV_RING_SIZE_DEFAULT :: nat where "RECV_RING_SIZE_DEFAULT \<equiv> 256"
abbreviation RECV_BUFFER_SIZE_DEFAULT :: nat where "RECV_BUFFER_SIZE_DEFAULT \<equiv> 16 * 1024"
abbreviation RINGLINE_SEND_SLOT_SIZE :: nat where "RINGLINE_SEND_SLOT_SIZE \<equiv> 16448"
abbreviation TLS_RECORD_PLAINTEXT :: nat where "TLS_RECORD_PLAINTEXT \<equiv> 16384"
abbreviation RINGLINE_SEND_POOL_DEFAULT :: nat where "RINGLINE_SEND_POOL_DEFAULT \<equiv> 1024"
abbreviation RINGLINE_SEND_SLAB_DEFAULT :: nat where "RINGLINE_SEND_SLAB_DEFAULT \<equiv> 512"
abbreviation REQUEST_FRAMING :: nat where "REQUEST_FRAMING \<equiv> 64"
abbreviation MAX_GUARDS_PER_SEND :: nat where "MAX_GUARDS_PER_SEND \<equiv> 8"
abbreviation ZC_THRESHOLD :: nat where "ZC_THRESHOLD \<equiv> 4096"

definition connections_per_worker :: "nat \<Rightarrow> nat \<Rightarrow> nat" where
  "connections_per_worker tot num_threads = div_ceil tot (max num_threads 1)"

definition standalone_task_capacity :: "nat \<Rightarrow> nat \<Rightarrow> nat" where
  "standalone_task_capacity tot num_threads =
     clamp RINGLINE_POOL_DEFAULT RINGLINE_POOL_MAX (saturating_add (connections_per_worker tot num_threads) POOL_HEADROOM)"

definition resolved_recv_geometry :: "config \<Rightarrow> nat \<times> nat" where
  "resolved_recv_geometry c =
     (case gn_recv_ring_size (cf_general c) of Some n \<Rightarrow> n | None \<Rightarrow> RECV_RING_SIZE_DEFAULT,
      case gn_recv_buffer_size (cf_general c) of Some n \<Rightarrow> n | None \<Rightarrow> RECV_BUFFER_SIZE_DEFAULT)"

record send_load =
  sl_connections :: nat
  sl_pipeline_depth :: nat
  sl_batch_size :: nat
  sl_key_len :: nat
  sl_value_len :: nat
  sl_tls :: bool
  sl_lookup_bytes :: nat

definition load_main :: "config \<Rightarrow> send_load" where
  "load_main c =
     \<lparr>sl_connections = total_connections (cf_connection c),
      sl_pipeline_depth = cn_pipeline_depth (cf_connection c),
      sl_batch_size = effective_batch_size c,
      sl_key_len = ks_length (wl_keyspace (cf_workload c)),
      sl_value_len = wl_values_length (cf_workload c),
      sl_tls = tg_tls (cf_target c),
      sl_lookup_bytes = 0\<rparr>"

text \<open>\<open>max_key_len\<close>, \<open>max_object_size\<close> and \<open>max_objects\<close> come from the loaded KV trace.\<close>

definition load_kv_replay :: "config \<Rightarrow> nat \<Rightarrow> nat \<Rightarrow> nat \<Rightarrow> send_load" where
  "load_kv_replay c max_key_len max_object_size max_objects =
     (load_main c)\<lparr>sl_key_len := max_key_len, sl_value_len := max_object_size,
       sl_lookup_bytes := saturating_mul max_objects (wrapping_add max_key_len REQUEST_FRAMING)\<rparr>"

definition load_trace_replay :: "config \<Rightarrow> nat \<Rightarrow> nat \<Rightarrow> send_load list" where
  "load_trace_replay c max_key_len max_value_len =
     (let copied = (load_main c)\<lparr>sl_key_len := max_key_len, sl_value_len := min max_value_len (ZC_THRESHOLD - 1)\<rparr> in
      if max_value_len < ZC_THRESHOLD then [copied] else [copied, copied\<lparr>sl_value_len := max_value_len\<rparr>])"

definition load_append :: "config \<Rightarrow> send_load option" where
  "load_append c =
     (case wl_append (cf_workload c) of
        None \<Rightarrow> None
      | Some a \<Rightarrow> Some ((load_main c)\<lparr>sl_connections := ap_connections a,
                          sl_pipeline_depth := ap_pipeline_depth a, sl_batch_size := 1\<rparr>))"

definition load_batch :: "send_load \<Rightarrow> nat" where
  "load_batch l = clamp 1 (max (sl_pipeline_depth l) 1) (sl_batch_size l)"

definition zero_copy_values :: "send_load \<Rightarrow> bool" where
  "zero_copy_values l \<longleftrightarrow> \<not> sl_tls l \<and> sl_value_len l \<ge> ZC_THRESHOLD"

definition sends_per_batch :: "send_load \<Rightarrow> nat" where
  "sends_per_batch l = (if zero_copy_values l then div_ceil (load_batch l) MAX_GUARDS_PER_SEND else 1)"

definition sends_per_connection :: "send_load \<Rightarrow> nat" where
  "sends_per_connection l = saturating_mul (div_ceil (max (sl_pipeline_depth l) 1) (load_batch l)) (sends_per_batch l)"

definition slot_bytes :: "send_load \<Rightarrow> nat" where
  "slot_bytes l = (if sl_tls l then TLS_RECORD_PLAINTEXT else RINGLINE_SEND_SLOT_SIZE)"

definition slots_per_batch :: "send_load \<Rightarrow> nat" where
  "slots_per_batch l =
     (let v = (if zero_copy_values l then 0 else sl_value_len l);
          bytes = saturating_mul (load_batch l) (wrapping_add (wrapping_add (sl_key_len l) v) REQUEST_FRAMING);
          per_slot = (if sl_tls l then TLS_RECORD_PLAINTEXT else RINGLINE_SEND_SLOT_SIZE)
      in max (div_ceil bytes per_slot) (sends_per_batch l))"

definition lookup_slots :: "send_load \<Rightarrow> nat" where
  "lookup_slots l = div_ceil (sl_lookup_bytes l) (slot_bytes l)"

definition pool_slots_per_connection :: "send_load \<Rightarrow> nat" where
  "pool_slots_per_connection l =
     (let batches = div_ceil (max (sl_pipeline_depth l) 1) (load_batch l)
      in saturating_add (wrapping_mul (wrapping_mul 2 batches) (slots_per_batch l)) (lookup_slots l))"

definition per_worker_demand :: "send_load list \<Rightarrow> nat \<Rightarrow> (send_load \<Rightarrow> nat) \<Rightarrow> nat" where
  "per_worker_demand loads num_threads per_connection =
     foldl saturating_add POOL_HEADROOM
       (map (\<lambda>l. saturating_mul (connections_per_worker (sl_connections l) num_threads) (per_connection l)) loads)"

definition per_worker :: "send_load list \<Rightarrow> nat \<Rightarrow> nat \<Rightarrow> (send_load \<Rightarrow> nat) \<Rightarrow> nat" where
  "per_worker loads num_threads least per_connection =
     clamp least U16_MAX (per_worker_demand loads num_threads per_connection)"

definition slab_entries_per_connection :: "send_load \<Rightarrow> nat" where
  "slab_entries_per_connection l = (if zero_copy_values l then wrapping_mul 2 (sends_per_connection l) else 0)"

definition send_slab_slots :: "send_load list \<Rightarrow> nat \<Rightarrow> nat" where
  "send_slab_slots loads num_threads = per_worker loads num_threads RINGLINE_SEND_SLAB_DEFAULT slab_entries_per_connection"

definition send_pool_slots :: "send_load list \<Rightarrow> nat \<Rightarrow> nat" where
  "send_pool_slots loads num_threads = per_worker loads num_threads RINGLINE_SEND_POOL_DEFAULT pool_slots_per_connection"

text \<open>The slots of the lookup that can never be sent, or the demand when it exceeds the maximum.\<close>

definition check_send_pool :: "send_load list \<Rightarrow> nat \<Rightarrow> nat + nat option" where
  "check_send_pool loads num_threads =
     (case find (\<lambda>l. lookup_slots l > U16_MAX) loads of
        Some l \<Rightarrow> Inl (lookup_slots l)
      | None \<Rightarrow>
          let demand = per_worker_demand loads num_threads pool_slots_per_connection
          in Inr (if demand \<le> U16_MAX then None else Some demand))"

section \<open>The pool is enough when the check is silent\<close>

lemma share_le_busiest:
  assumes "w < num_threads"
  shows "fst (connection_share tot num_threads w) \<le> connections_per_worker tot num_threads"
  using assms by (auto simp: connection_share_def connections_per_worker_def div_ceil_def Let_def max_def)

lemma foldl_saturating:
  "foldl saturating_add a xs \<le> U16_MAX \<Longrightarrow> a + sum_list xs = foldl saturating_add a xs"
proof (induction xs arbitrary: a)
  case (Cons x xs)
  have grows: "b \<le> U64_MAX \<Longrightarrow> b \<le> foldl saturating_add b ys" for b and ys :: "nat list"
  proof (induction ys arbitrary: b)
    case (Cons y ys)
    have "b \<le> saturating_add b y" "saturating_add b y \<le> U64_MAX" using Cons.prems by (simp_all add: saturating_add_def)
    with Cons.IH [of "saturating_add b y"] show ?case by simp
  qed simp
  have "saturating_add a x \<le> foldl saturating_add (saturating_add a x) xs"
    by (rule grows) (simp add: saturating_add_def)
  also have "\<dots> \<le> U16_MAX" using Cons.prems by simp
  finally have "saturating_add a x = a + x" by (simp add: saturating_add_def min_def split: if_splits)
  with Cons.IH [of "a + x"] Cons.prems show ?case by (simp add: add.assoc)
qed simp

lemma demand_exact:
  assumes "per_worker_demand loads num_threads f \<le> U16_MAX"
  shows "POOL_HEADROOM + (\<Sum>l\<leftarrow>loads. connections_per_worker (sl_connections l) num_threads * f l) =
    per_worker_demand loads num_threads f"
proof -
  let ?p = "\<lambda>l. saturating_mul (connections_per_worker (sl_connections l) num_threads) (f l)"
  have eq: "POOL_HEADROOM + sum_list (map ?p loads) = per_worker_demand loads num_threads f"
    using assms unfolding per_worker_demand_def by (rule foldl_saturating)
  have "?p l = connections_per_worker (sl_connections l) num_threads * f l" if "l \<in> set loads" for l
  proof -
    have "?p l \<le> sum_list (map ?p loads)" using that by (simp add: member_le_sum_list)
    then have "?p l \<le> U16_MAX" using eq assms by linarith
    then show ?thesis by (simp add: saturating_mul_def min_def split: if_splits)
  qed
  then have "map ?p loads = map (\<lambda>l. connections_per_worker (sl_connections l) num_threads * f l) loads" by simp
  with eq show ?thesis by (simp only:)
qed

text \<open>What one connection can have outstanding, in exact arithmetic, and loads for which the program's does not wrap.\<close>

definition load_batches :: "send_load \<Rightarrow> nat" where
  "load_batches l = div_ceil (max (sl_pipeline_depth l) 1) (load_batch l)"

definition copied_bytes :: "send_load \<Rightarrow> nat" where
  "copied_bytes l = sl_key_len l + (if zero_copy_values l then 0 else sl_value_len l) + REQUEST_FRAMING"

definition load_fits :: "send_load \<Rightarrow> bool" where
  "load_fits l \<longleftrightarrow> load_batch l * copied_bytes l < U64_LIMIT \<and> 2 * load_batches l * slots_per_batch l < U64_LIMIT \<and>
     2 * load_batches l < U64_LIMIT"

lemma load_batch_pos [simp]: "0 < load_batch l"
  using clamp_bounds [of 1 "max (sl_pipeline_depth l) 1" "sl_batch_size l"] by (simp add: load_batch_def)

lemma slot_bytes_pos [simp]: "0 < slot_bytes l"
  by (simp add: slot_bytes_def)

lemma batch_bytes_fit:
  assumes "load_fits l"
  shows "load_batch l * copied_bytes l \<le> slots_per_batch l * slot_bytes l"
proof -
  have "copied_bytes l \<le> load_batch l * copied_bytes l" using load_batch_pos [of l] by (cases "load_batch l") simp_all
  then have c: "copied_bytes l < U64_LIMIT" using assms unfolding load_fits_def by linarith
  then have "wrapping_add (wrapping_add (sl_key_len l) (if zero_copy_values l then 0 else sl_value_len l)) REQUEST_FRAMING = copied_bytes l"
    by (simp add: copied_bytes_def wrapping_add_def)
  moreover have "saturating_mul (load_batch l) (copied_bytes l) = load_batch l * copied_bytes l"
    using assms by (intro saturating_mul_exact) (auto simp: load_fits_def)
  ultimately have "slots_per_batch l = max (div_ceil (load_batch l * copied_bytes l) (slot_bytes l)) (sends_per_batch l)"
    by (simp add: slots_per_batch_def slot_bytes_def Let_def)
  then have "div_ceil (load_batch l * copied_bytes l) (slot_bytes l) * slot_bytes l \<le> slots_per_batch l * slot_bytes l"
    by simp
  with div_ceil_ge [OF slot_bytes_pos, of "load_batch l * copied_bytes l" l] show ?thesis by linarith
qed

lemma pool_slots_exact:
  assumes "load_fits l" and "pool_slots_per_connection l \<le> U16_MAX"
  shows "pool_slots_per_connection l = 2 * load_batches l * slots_per_batch l + lookup_slots l"
proof -
  have "wrapping_mul (wrapping_mul 2 (load_batches l)) (slots_per_batch l) = 2 * load_batches l * slots_per_batch l"
    using assms(1) by (simp add: load_fits_def wrapping_mul_exact)
  then have "pool_slots_per_connection l = saturating_add (2 * load_batches l * slots_per_batch l) (lookup_slots l)"
    by (simp add: pool_slots_per_connection_def Let_def load_batches_def)
  with assms(2) show ?thesis by (simp add: saturating_add_def min_def split: if_splits)
qed

text \<open>
  C34. When the check on the send pool is silent the pool is large enough for every worker. The slots
  asked for cover, over all the loads, each connection the worker really has, holding two full sets
  of batches at once, and its largest lookup, with the headroom to spare; the slots counted for a
  batch hold all the bytes it copies, a connection's batches hold its whole pipeline, and the slots
  counted for a lookup hold the lookup. The worker's tasks fit the task slab as well.
\<close>

theorem send_pool_covers_workers:
  assumes ok: "check_send_pool loads num_threads = Inr None" and w: "w < num_threads"
    and fits: "\<forall>l\<in>set loads. load_fits l"
  defines "mine \<equiv> (\<lambda>l. fst (connection_share (sl_connections l) num_threads w))"
  shows "(\<Sum>l\<leftarrow>loads. mine l * (2 * load_batches l * slots_per_batch l + lookup_slots l)) + POOL_HEADROOM
      \<le> send_pool_slots loads num_threads \<and>
    (\<forall>l\<in>set loads.
       load_batch l * copied_bytes l \<le> slots_per_batch l * slot_bytes l \<and>
       sl_pipeline_depth l \<le> load_batches l * load_batch l \<and>
       sl_lookup_bytes l \<le> lookup_slots l * slot_bytes l) \<and>
    (\<forall>tot. tot + POOL_HEADROOM \<le> RINGLINE_POOL_MAX \<longrightarrow>
       fst (connection_share tot num_threads w) + POOL_HEADROOM \<le> standalone_task_capacity tot num_threads)"
proof (intro conjI ballI allI impI)
  let ?need = "\<lambda>l. 2 * load_batches l * slots_per_batch l + lookup_slots l"
  let ?busiest = "\<lambda>l. connections_per_worker (sl_connections l) num_threads"
  let ?d = "per_worker_demand loads num_threads pool_slots_per_connection"
  have d: "?d \<le> U16_MAX" using ok by (auto simp: check_send_pool_def Let_def split: option.splits if_splits)
  note exact = demand_exact [OF d]
  have each: "mine l * ?need l \<le> ?busiest l * pool_slots_per_connection l" if l: "l \<in> set loads" for l
  proof (cases "?busiest l = 0")
    case True
    then have "mine l = 0" using share_le_busiest [OF w, of "sl_connections l"] by (simp add: mine_def)
    then show ?thesis by simp
  next
    case False
    have "?busiest l * pool_slots_per_connection l \<le> (\<Sum>l\<leftarrow>loads. ?busiest l * pool_slots_per_connection l)"
      using l by (simp add: member_le_sum_list)
    then have "?busiest l * pool_slots_per_connection l \<le> U16_MAX" using exact d by linarith
    moreover have "pool_slots_per_connection l \<le> ?busiest l * pool_slots_per_connection l" using False by simp
    ultimately have "pool_slots_per_connection l \<le> U16_MAX" by linarith
    then have "pool_slots_per_connection l = ?need l" using fits l by (intro pool_slots_exact) auto
    then show ?thesis using share_le_busiest [OF w, of "sl_connections l"] by (simp add: mine_def)
  qed
  have "(\<Sum>l\<leftarrow>loads. mine l * ?need l) \<le> (\<Sum>l\<leftarrow>loads. ?busiest l * pool_slots_per_connection l)"
    by (rule sum_list_mono) (rule each)
  then have "(\<Sum>l\<leftarrow>loads. mine l * ?need l) + POOL_HEADROOM \<le> ?d" using exact by linarith
  also have "?d \<le> send_pool_slots loads num_threads" using d by (simp add: send_pool_slots_def per_worker_def clamp_def)
  finally show "(\<Sum>l\<leftarrow>loads. mine l * ?need l) + POOL_HEADROOM \<le> send_pool_slots loads num_threads" .
next
  fix l assume "l \<in> set loads"
  then show "load_batch l * copied_bytes l \<le> slots_per_batch l * slot_bytes l" using fits by (intro batch_bytes_fit) auto
  have "max (sl_pipeline_depth l) 1 \<le> load_batches l * load_batch l"
    unfolding load_batches_def by (rule div_ceil_ge) simp
  then show "sl_pipeline_depth l \<le> load_batches l * load_batch l" by simp
  show "sl_lookup_bytes l \<le> lookup_slots l * slot_bytes l" unfolding lookup_slots_def by (rule div_ceil_ge) simp
next
  fix tot :: nat assume t: "tot + POOL_HEADROOM \<le> RINGLINE_POOL_MAX"
  have "connections_per_worker tot num_threads \<le> tot"
    unfolding connections_per_worker_def by (rule div_ceil_least) auto
  then show "fst (connection_share tot num_threads w) + POOL_HEADROOM \<le> standalone_task_capacity tot num_threads"
    using share_le_busiest [OF w, of tot] t
    by (simp add: standalone_task_capacity_def saturating_add_def clamp_def)
qed


theorem send_pool_covers_workers_witness:
  "check_send_pool [load_main demo_config] 4 = Inr None \<and>
   4 * (2 * 4 * slots_per_batch (load_main demo_config)) + POOL_HEADROOM \<le> send_pool_slots [load_main demo_config] 4"
proof -
  let ?l = "load_main demo_config"
  have l: "?l = \<lparr>sl_connections = 16, sl_pipeline_depth = 32, sl_batch_size = 8, sl_key_len = 16, sl_value_len = 64,
      sl_tls = False, sl_lookup_bytes = 0\<rparr>"
    by (simp add: load_main_def demo_config_def total_connections_def effective_batch_size_def clamp_def)
  have s: "load_batch ?l = 8" "load_batches ?l = 4" "slots_per_batch ?l = 1" "copied_bytes ?l = 144" "lookup_slots ?l = 0"
    by (simp_all add: l load_batch_def load_batches_def clamp_def slots_per_batch_def div_ceil_def wrapping_add_def saturating_mul_def
        sends_per_batch_def zero_copy_values_def copied_bytes_def lookup_slots_def slot_bytes_def)
  have "pool_slots_per_connection ?l = 8"
    using s by (simp add: pool_slots_per_connection_def load_batches_def wrapping_mul_def saturating_add_def Let_def)
  then have d: "per_worker_demand [?l] 4 pool_slots_per_connection = 48"
    by (simp add: per_worker_demand_def connections_per_worker_def div_ceil_def saturating_mul_def saturating_add_def l)
  then have ok: "check_send_pool [?l] 4 = Inr None" by (simp add: check_send_pool_def s Let_def)
  have share: "fst (connection_share 16 4 0) = 4" "sl_connections ?l = 16" by (simp_all add: connection_share_def l)
  have fits: "\<forall>x\<in>set [?l]. load_fits x" by (simp add: load_fits_def s)
  from send_pool_covers_workers [OF ok _ fits, of 0] ok show ?thesis by (simp add: s share)
qed

end
