(* ===== verification/Requests.thy ===== *)
theory Requests
  imports Endpoints Text
begin

unbundle bit_operations_syntax

text \<open>
  Requests and their results (\<open>src/client/mod.rs\<close>, \<open>src/worker.rs\<close>): the markers carried in
  \<open>user_data\<close>, the mapping of a reply to a \<open>RequestResult\<close> on the three receive paths, what is
  counted and which latencies are recorded, and cluster redirects.

  A completed operation and a reply's metadata are data the client crates hand over; their fields
  are the ones the program reads. A histogram is the list of values recorded in it.
\<close>

section \<open>Markers\<close>

definition BACKFILL_MARKER :: u64 where "BACKFILL_MARKER = push_bit 63 1"
definition PREFILL_MARKER :: u64 where "PREFILL_MARKER = push_bit 62 1"
definition APPEND_MARKER :: u64 where "APPEND_MARKER = push_bit 61 1"

definition USER_DATA_ID_MASK :: u64 where
  "USER_DATA_ID_MASK = NOT (BACKFILL_MARKER OR PREFILL_MARKER OR APPEND_MARKER)"

definition user_data_id :: "u64 \<Rightarrow> nat" where
  "user_data_id ud = unat (ud AND USER_DATA_ID_MASK)"

section \<open>Results\<close>

datatype request_type = Get | Set | Ping | Delete | Other

datatype redirect_kind = Moved | Ask

record redirect =
  rd_kind :: redirect_kind
  rd_slot :: nat
  rd_address :: string

record request_result =
  rq_id :: nat
  rq_success :: bool
  rq_is_error_response :: bool
  rq_latency_ns :: nat
  rq_ttfb_ns :: "nat option"
  rq_request_type :: request_type
  rq_hit :: "bool option"
  rq_key_id :: "nat option"
  rq_backfill :: bool
  rq_prefill :: bool
  rq_append :: bool
  rq_redirect :: "redirect option"

definition parse_resp_redirect :: "string \<Rightarrow> redirect option" where
  "parse_resp_redirect msg =
     (let parse = (\<lambda>kind rest.
            let (slot, addr) = splitn2 (CHR '' '') rest in
            (case parse_uint U16_MAX slot of
               None \<Rightarrow> None
             | Some slot \<Rightarrow> (case addr of None \<Rightarrow> None
                  | Some address \<Rightarrow> Some \<lparr>rd_kind = kind, rd_slot = slot, rd_address = address\<rparr>)))
      in case strip_prefix ''MOVED '' msg of
           Some rest \<Rightarrow> parse Moved rest
         | None \<Rightarrow> (case strip_prefix ''ASK '' msg of Some rest \<Rightarrow> parse Ask rest | None \<Rightarrow> None))"

text \<open>The marker fields of a GET, a SET and a DEL: backfill, prefill, append, key id.\<close>

definition set_markers :: "u64 \<Rightarrow> bool \<times> bool \<times> bool \<times> nat option" where
  "set_markers ud =
     (let backfill = ud AND BACKFILL_MARKER \<noteq> 0; prefill = ud AND PREFILL_MARKER \<noteq> 0;
          append = ud AND APPEND_MARKER \<noteq> 0
      in (backfill, prefill, append, if prefill \<or> append then Some (user_data_id ud) else None))"

datatype resp_error = Redis string | Other_error

text \<open>A completed operation of the RESP client (\<open>recv\<close>): a GET's value, an error, user data, latency.\<close>

datatype resp_op =
    Op_get "resp_error + bytes option" u64 nat
  | Op_set "resp_error + unit" u64 nat
  | Op_del "resp_error + nat" u64 nat

definition error_of :: "'e + 'a \<Rightarrow> 'e option" where
  "error_of r = (case r of Inl e \<Rightarrow> Some e | Inr _ \<Rightarrow> None)"

definition is_ok :: "'e + 'a \<Rightarrow> bool" where
  "is_ok r \<longleftrightarrow> (\<exists>x. r = Inr x)"

lemma is_ok_code [code, simp]: "is_ok (Inr x) = True" "is_ok (Inl e) = False"
  by (simp_all add: is_ok_def)

text \<open>\<open>read\<close> is the value reader of \<open>workload.read_values\<close>, with its state.\<close>

definition map_resp_op :: "('v \<Rightarrow> bytes \<Rightarrow> 'v) \<Rightarrow> 'v \<Rightarrow> resp_op \<Rightarrow> request_result \<times> 'v" where
  "map_resp_op read reader op =
     (let (request_type, success, hit, user_data, latency_ns, error, reader) =
            (case op of
               Op_get result ud lat \<Rightarrow>
                 (case result of
                    Inr (Some v) \<Rightarrow> (Get, True, Some True, ud, lat, None, read reader v)
                  | Inr None \<Rightarrow> (Get, True, Some False, ud, lat, None, reader)
                  | Inl e \<Rightarrow> (Get, False, None, ud, lat, Some e, reader))
             | Op_set result ud lat \<Rightarrow> (Set, is_ok result, None, ud, lat, error_of result, reader)
             | Op_del result ud lat \<Rightarrow> (Delete, is_ok result, None, ud, lat, error_of result, reader));
          (backfill, prefill, append, key_id) =
            (case request_type of
               Get \<Rightarrow> (False, False, False, Some (user_data_id user_data))
             | Set \<Rightarrow> set_markers user_data
             | _ \<Rightarrow> (False, False, False, None));
          redirect = (case error of Some (Redis msg) \<Rightarrow> parse_resp_redirect msg | _ \<Rightarrow> None)
      in (\<lparr>rq_id = 0, rq_success = success, rq_is_error_response = (\<not> success), rq_latency_ns = latency_ns,
           rq_ttfb_ns = None, rq_request_type = request_type, rq_hit = hit, rq_key_id = key_id,
           rq_backfill = backfill, rq_prefill = prefill, rq_append = append, rq_redirect = redirect\<rparr>, reader))"

datatype op_kind = Kind_get | Kind_set | Kind_del

record resp_meta =
  rm_kind :: op_kind
  rm_success :: bool
  rm_value_len :: "nat option"
  rm_error :: "string option"
  rm_user_data :: u64
  rm_latency_ns :: nat

definition map_respmeta :: "resp_meta \<Rightarrow> request_result" where
  "map_respmeta meta =
     (let request_type = (case rm_kind meta of Kind_get \<Rightarrow> Get | Kind_set \<Rightarrow> Set | Kind_del \<Rightarrow> Delete);
          hit = (if rm_kind meta = Kind_get \<and> rm_success meta then Some (rm_value_len meta \<noteq> None) else None);
          (backfill, prefill, append, key_id) =
            (case rm_kind meta of
               Kind_get \<Rightarrow> (False, False, False, Some (user_data_id (rm_user_data meta)))
             | Kind_set \<Rightarrow> set_markers (rm_user_data meta)
             | Kind_del \<Rightarrow> (False, False, False, None));
          redirect = (case rm_error meta of Some msg \<Rightarrow> parse_resp_redirect msg | None \<Rightarrow> None)
      in \<lparr>rq_id = 0, rq_success = rm_success meta, rq_is_error_response = (\<not> rm_success meta),
          rq_latency_ns = rm_latency_ns meta, rq_ttfb_ns = None, rq_request_type = request_type, rq_hit = hit,
          rq_key_id = key_id, rq_backfill = backfill, rq_prefill = prefill, rq_append = append,
          rq_redirect = redirect\<rparr>)"

text \<open>A completed operation of the memcache client.\<close>

datatype mc_op = Mc_get "unit + bytes option" u64 nat | Mc_set "unit + unit" u64 nat | Mc_delete "unit + bool" nat

definition map_memcache_op :: "mc_op \<Rightarrow> request_result" where
  "map_memcache_op op =
     (case op of
        Mc_get result ud lat \<Rightarrow>
          let (success, is_error, hit) =
                (case result of Inr (Some v) \<Rightarrow> (True, False, Some True)
                 | Inr None \<Rightarrow> (True, False, Some False) | Inl e \<Rightarrow> (False, True, None))
          in \<lparr>rq_id = 0, rq_success = success, rq_is_error_response = is_error, rq_latency_ns = lat,
              rq_ttfb_ns = None, rq_request_type = Get, rq_hit = hit, rq_key_id = Some (user_data_id ud),
              rq_backfill = False, rq_prefill = False, rq_append = False, rq_redirect = None\<rparr>
      | Mc_set result ud lat \<Rightarrow>
          let (success, is_error) = (case result of Inr _ \<Rightarrow> (True, False) | Inl _ \<Rightarrow> (False, True));
              (backfill, prefill, append, key_id) = set_markers ud
          in \<lparr>rq_id = 0, rq_success = success, rq_is_error_response = is_error, rq_latency_ns = lat,
              rq_ttfb_ns = None, rq_request_type = Set, rq_hit = None, rq_key_id = key_id,
              rq_backfill = backfill, rq_prefill = prefill, rq_append = append, rq_redirect = None\<rparr>
      | Mc_delete result lat \<Rightarrow>
          let (success, is_error) = (case result of Inr _ \<Rightarrow> (True, False) | Inl _ \<Rightarrow> (False, True))
          in \<lparr>rq_id = 0, rq_success = success, rq_is_error_response = is_error, rq_latency_ns = lat,
              rq_ttfb_ns = None, rq_request_type = Delete, rq_hit = None, rq_key_id = None,
              rq_backfill = False, rq_prefill = False, rq_append = False, rq_redirect = None\<rparr>)"

section \<open>Counters and latencies\<close>

record request_metrics =
  m_responses :: nat
  m_errors :: nat
  m_hits :: nat
  m_misses :: nat
  m_gets :: nat
  m_sets :: nat
  m_deletes :: nat
  m_redirects :: nat

definition record_counters :: "request_result \<Rightarrow> request_metrics \<Rightarrow> request_metrics" where
  "record_counters r m =
     (let m = m\<lparr>m_responses := m_responses m + 1\<rparr>;
          m = (if rq_redirect r \<noteq> None then m
               else if rq_is_error_response r then m\<lparr>m_errors := m_errors m + 1\<rparr> else m);
          m = (case rq_hit r of
                 Some hit \<Rightarrow> if hit then m\<lparr>m_hits := m_hits m + 1\<rparr> else m\<lparr>m_misses := m_misses m + 1\<rparr>
               | None \<Rightarrow> m)
      in case rq_request_type r of
           Get \<Rightarrow> m\<lparr>m_gets := m_gets m + 1\<rparr>
         | Set \<Rightarrow> m\<lparr>m_sets := m_sets m + 1\<rparr>
         | Delete \<Rightarrow> m\<lparr>m_deletes := m_deletes m + 1\<rparr>
         | _ \<Rightarrow> m)"

record latency_metrics =
  h_get :: "nat list"
  h_set :: "nat list"
  h_delete :: "nat list"
  h_response :: "nat list"
  h_perceived :: "nat list"
  h_ttfb :: "nat list"
  m_bytes_tx :: nat
  m_bytes_rx :: nat

definition perceived_ns :: "nat \<Rightarrow> nat \<Rightarrow> bool \<Rightarrow> nat" where
  "perceived_ns worker_slip latency_ns slip_tracked =
     (if slip_tracked then saturating_add latency_ns worker_slip else latency_ns)"

definition record_by_type :: "request_type \<Rightarrow> nat \<Rightarrow> latency_metrics \<Rightarrow> latency_metrics" where
  "record_by_type t latency h =
     (case t of
        Get \<Rightarrow> h\<lparr>h_get := latency # h_get h\<rparr>
      | Set \<Rightarrow> h\<lparr>h_set := latency # h_set h\<rparr>
      | Delete \<Rightarrow> h\<lparr>h_delete := latency # h_delete h\<rparr>
      | _ \<Rightarrow> h)"

text \<open>What the client's \<open>on_result\<close> callback is given.\<close>

record command_result =
  cr_command :: request_type
  cr_latency_ns :: nat
  cr_ttfb_ns :: "nat option"
  cr_tx_bytes :: nat
  cr_rx_bytes :: nat

text \<open>The closure of \<open>make_resp_callback\<close> and of \<open>make_memcache_callback\<close>, which have one body.\<close>

definition result_callback :: "bool \<Rightarrow> bool \<Rightarrow> nat \<Rightarrow> command_result \<Rightarrow> latency_metrics \<Rightarrow> latency_metrics" where
  "result_callback routed slip_tracked worker_slip r h =
     (let h = (case (cr_command r, cr_ttfb_ns r) of (Get, Some t) \<Rightarrow> h\<lparr>h_ttfb := t # h_ttfb h\<rparr> | _ \<Rightarrow> h);
          h = (if routed then h
               else let h = record_by_type (cr_command r) (cr_latency_ns r) h
                    in h\<lparr>h_response := cr_latency_ns r # h_response h,
                         h_perceived := perceived_ns worker_slip (cr_latency_ns r) slip_tracked # h_perceived h\<rparr>)
      in h\<lparr>m_bytes_tx := wrapping_add (m_bytes_tx h) (cr_tx_bytes r),
           m_bytes_rx := wrapping_add (m_bytes_rx h) (cr_rx_bytes r)\<rparr>)"

definition record_routed_latency :: "nat \<Rightarrow> request_result \<Rightarrow> nat \<Rightarrow> latency_metrics \<Rightarrow> latency_metrics" where
  "record_routed_latency worker_slip r queued_ns h =
     (let latency = saturating_add (rq_latency_ns r) queued_ns;
          h = record_by_type (rq_request_type r) latency h
      in h\<lparr>h_response := latency # h_response h,
           h_perceived := saturating_add latency worker_slip # h_perceived h\<rparr>)"

section \<open>Redirects\<close>

text \<open>
  A MOVED updates the slot table if it names a known endpoint; \<open>endpoint_of\<close> parses the address and
  looks it up. \<open>None\<close> is the panic of indexing the table out of range.
\<close>

definition check_resp_redirect_parsed ::
  "(string \<Rightarrow> nat option) \<Rightarrow> redirect \<Rightarrow> nat list option \<Rightarrow> request_metrics \<Rightarrow>
   (nat list option \<times> request_metrics) option" where
  "check_resp_redirect_parsed endpoint_of r slot_table m =
     (let m = m\<lparr>m_redirects := m_redirects m + 1\<rparr> in
      if rd_kind r \<noteq> Moved then Some (slot_table, m)
      else case (slot_table, endpoint_of (rd_address r)) of
             (Some table, Some idx) \<Rightarrow>
               if rd_slot r < length table then Some (Some (table[rd_slot r := idx mod 65536]), m) else None
           | _ \<Rightarrow> Some (slot_table, m))"

section \<open>The receive paths agree\<close>

text \<open>
  What the client reports for one reply on its two receive paths: \<open>recv_meta\<close> gives the metadata of
  the operation that \<open>recv\<close> completes. A server's error carries its message.
\<close>

fun same_reply :: "resp_op \<Rightarrow> resp_meta \<Rightarrow> bool" where
  "same_reply (Op_get res ud lat) meta \<longleftrightarrow>
     rm_kind meta = Kind_get \<and> rm_success meta = is_ok res \<and> rm_user_data meta = ud \<and> rm_latency_ns meta = lat \<and>
     rm_value_len meta = (case res of Inr (Some v) \<Rightarrow> Some (length v) | _ \<Rightarrow> None) \<and>
     rm_error meta = (case res of Inl (Redis msg) \<Rightarrow> Some msg | _ \<Rightarrow> None)"
| "same_reply (Op_set res ud lat) meta \<longleftrightarrow>
     rm_kind meta = Kind_set \<and> rm_success meta = is_ok res \<and> rm_user_data meta = ud \<and> rm_latency_ns meta = lat \<and>
     rm_error meta = (case res of Inl (Redis msg) \<Rightarrow> Some msg | _ \<Rightarrow> None)"
| "same_reply (Op_del res ud lat) meta \<longleftrightarrow>
     rm_kind meta = Kind_del \<and> rm_success meta = is_ok res \<and> rm_user_data meta = ud \<and> rm_latency_ns meta = lat \<and>
     rm_error meta = (case res of Inl (Redis msg) \<Rightarrow> Some msg | _ \<Rightarrow> None)"

text \<open>The same reply from a memcache server.\<close>

fun as_memcache :: "resp_op \<Rightarrow> mc_op" where
  "as_memcache (Op_get res ud lat) = Mc_get (case res of Inl _ \<Rightarrow> Inl () | Inr v \<Rightarrow> Inr v) ud lat"
| "as_memcache (Op_set res ud lat) = Mc_set (case res of Inl _ \<Rightarrow> Inl () | Inr v \<Rightarrow> Inr v) ud lat"
| "as_memcache (Op_del res ud lat) = Mc_delete (case res of Inl _ \<Rightarrow> Inl () | Inr n \<Rightarrow> Inr (n > 0)) lat"

text \<open>
  C29. However a reply is received, it counts the same. The result built from a completed operation
  (used when values are read back), the result built from the reply's metadata (used when they are
  drained) and, up to the redirect only a cluster sends, the result built from the memcache client's
  operation are equal: success, hit or miss, markers, key id, latency and redirect. Reading values
  changes nothing but the reader.
\<close>

theorem receive_paths_agree:
  assumes "same_reply op meta"
  shows "fst (map_resp_op read reader op) = map_respmeta meta \<and>
    map_memcache_op (as_memcache op) = (map_respmeta meta)\<lparr>rq_redirect := None\<rparr>"
proof (cases op)
  case (Op_get res ud lat)
  then show ?thesis using assms
    by (cases res)
      (auto simp: map_resp_op_def map_respmeta_def map_memcache_op_def Let_def
        split: prod.splits option.splits resp_error.splits)
next
  case (Op_set res ud lat)
  then show ?thesis using assms
    by (cases res)
      (auto simp: map_resp_op_def map_respmeta_def map_memcache_op_def Let_def error_of_def
        split: prod.splits resp_error.splits)
next
  case (Op_del res ud lat)
  then show ?thesis using assms
    by (cases res)
      (auto simp: map_resp_op_def map_respmeta_def map_memcache_op_def Let_def error_of_def
        split: prod.splits resp_error.splits)
qed

theorem receive_paths_agree_witness:
  "rq_hit (fst (map_resp_op (\<lambda>r v. r + length v) 0 (Op_get (Inr (Some [1, 2])) 7 99))) = Some True"
proof -
  let ?m = "\<lparr>rm_kind = Kind_get, rm_success = True, rm_value_len = Some 2, rm_error = None, rm_user_data = 7, rm_latency_ns = 99\<rparr>"
  have "same_reply (Op_get (Inr (Some [1, 2])) 7 99) ?m" by simp
  from receive_paths_agree [OF this, of "\<lambda>r v. r + length v" 0]
  have "fst (map_resp_op (\<lambda>r v. r + length v) 0 (Op_get (Inr (Some [1, 2])) 7 99)) = map_respmeta ?m" by simp
  then show ?thesis by (simp add: map_respmeta_def Let_def)
qed

section \<open>Markers survive the round trip\<close>

lemma bit_single: "k < 64 \<Longrightarrow> bit (push_bit k (1 :: u64)) n \<longleftrightarrow> n = k"
  by (auto simp: bit_simps)

lemma bit_markers:
  "bit BACKFILL_MARKER n \<longleftrightarrow> n = 63" "bit PREFILL_MARKER n \<longleftrightarrow> n = 62" "bit APPEND_MARKER n \<longleftrightarrow> n = 61"
  unfolding BACKFILL_MARKER_def PREFILL_MARKER_def APPEND_MARKER_def by (rule bit_single, simp)+

lemma marker_bits: "bit (USER_DATA_ID_MASK) n \<longleftrightarrow> n < 61"
  unfolding USER_DATA_ID_MASK_def
  by (cases "n < 64") (auto simp: bit_simps bit_markers)

lemma small_id_bits: "k < 2 ^ 61 \<Longrightarrow> bit (word_of_nat k :: u64) n \<longleftrightarrow> n < 61 \<and> bit k n"
proof -
  assume k: "k < 2 ^ 61"
  show ?thesis using nat_bits_high [OF k, of n] by (cases "n < 61") (auto simp: bit_simps)
qed

lemma user_data_id_marked:
  assumes "k < 2 ^ 61" and "\<And>n. bit mk n \<Longrightarrow> 61 \<le> n"
  shows "user_data_id (word_of_nat k OR mk) = k"
proof -
  have "bit ((word_of_nat k OR mk) AND USER_DATA_ID_MASK) n = bit (word_of_nat k :: u64) n" for n
    using assms(2) [of n] small_id_bits [OF assms(1), of n] unfolding bit_and_iff bit_or_iff marker_bits by auto
  then have "(word_of_nat k OR mk) AND USER_DATA_ID_MASK = (word_of_nat k :: u64)" by (rule bit_eqI)
  moreover have "k < 2 ^ 64" using assms(1) by simp
  ultimately show ?thesis by (simp add: user_data_id_def unat_of_nat)
qed

lemma and_single:
  assumes "\<And>n. bit (b :: u64) n \<longleftrightarrow> n = k"
  shows "(ud AND b \<noteq> 0) = bit ud k"
proof -
  have "ud AND b = 0 \<longleftrightarrow> (\<forall>n. \<not> bit (ud AND b) n)" by (metis bit_0_eq bit_eqI bot_apply bot_bool_def)
  then show ?thesis unfolding bit_and_iff assms by auto
qed

lemma set_markers_bits:
  "set_markers ud = (bit ud 63, bit ud 62, bit ud 61, if bit ud 62 \<or> bit ud 61 then Some (user_data_id ud) else None)"
  unfolding set_markers_def Let_def and_single [OF bit_markers(1)] and_single [OF bit_markers(2)]
    and_single [OF bit_markers(3)] ..

text \<open>
  A reply is attributed to the request it answers. For a key id below 2^61, the user data of a
  prefill or append SET gives back exactly its marker and its key id, a backfill SET is recognised as
  such and carries no id, a plain SET carries no marker, and a GET gives back its key id; no kind is
  taken for another.
\<close>

theorem user_data_round_trip:
  assumes k: "k < 2 ^ 61"
  shows "set_markers (word_of_nat k OR PREFILL_MARKER) = (False, True, False, Some k) \<and>
    set_markers (word_of_nat k OR APPEND_MARKER) = (False, False, True, Some k) \<and>
    set_markers (word_of_nat k OR BACKFILL_MARKER) = (True, False, False, None) \<and>
    set_markers (word_of_nat k) = (False, False, False, None) \<and>
    user_data_id (word_of_nat k) = k"
proof -
  have b: "\<not> bit (word_of_nat k :: u64) n" if "61 \<le> n" for n using small_id_bits [OF k, of n] that by simp
  have z: "user_data_id (word_of_nat k) = k" using user_data_id_marked [OF k, of 0] by simp
  have p: "user_data_id (word_of_nat k OR PREFILL_MARKER) = k" "user_data_id (word_of_nat k OR APPEND_MARKER) = k"
    by (rule user_data_id_marked [OF k], simp add: bit_markers)+
  show ?thesis unfolding set_markers_bits bit_or_iff bit_markers using z p b by simp
qed

theorem user_data_round_trip_witness: "set_markers (word_of_nat 12345 OR PREFILL_MARKER) = (False, True, False, Some 12345)"
proof -
  have "(12345 :: nat) < 2 ^ 61" by simp
  from user_data_round_trip [OF this] show ?thesis by blast
qed

section \<open>Counting\<close>

lemma record_counters_fields:
  "m_responses (record_counters r m) = m_responses m + 1"
  "m_errors (record_counters r m) = m_errors m + (if rq_redirect r = None \<and> rq_is_error_response r then 1 else 0)"
  "m_hits (record_counters r m) = m_hits m + (if rq_hit r = Some True then 1 else 0)"
  "m_misses (record_counters r m) = m_misses m + (if rq_hit r = Some False then 1 else 0)"
  "m_gets (record_counters r m) = m_gets m + (if rq_request_type r = Get then 1 else 0)"
  "m_sets (record_counters r m) = m_sets m + (if rq_request_type r = Set then 1 else 0)"
  "m_deletes (record_counters r m) = m_deletes m + (if rq_request_type r = Delete then 1 else 0)"
  by (auto simp: record_counters_def Let_def split: option.splits request_type.splits)

text \<open>
  The counters add up. Over any replies received by metadata, every reply is counted once as a
  response and once under its own kind; hits and misses together are the GETs that succeeded; and the
  errors are the failed replies that are not redirects.
\<close>

theorem request_counters_add_up:
  fixes metas :: "resp_meta list" and m\<^sub>0 :: request_metrics
  defines "m \<equiv> fold record_counters (map map_respmeta metas) m\<^sub>0"
  shows "m_responses m = m_responses m\<^sub>0 + length metas \<and>
    m_gets m + m_sets m + m_deletes m = m_gets m\<^sub>0 + m_sets m\<^sub>0 + m_deletes m\<^sub>0 + length metas \<and>
    m_hits m + m_misses m = m_hits m\<^sub>0 + m_misses m\<^sub>0 +
      length (filter (\<lambda>x. rm_kind x = Kind_get \<and> rm_success x) metas) \<and>
    m_errors m = m_errors m\<^sub>0 +
      length (filter (\<lambda>x. \<not> rm_success x \<and> rq_redirect (map_respmeta x) = None) metas)"
  unfolding m_def
proof (induction metas arbitrary: m\<^sub>0)
  case Nil
  then show ?case by simp
next
  case (Cons x xs)
  have f: "rq_hit (map_respmeta x) = (if rm_kind x = Kind_get \<and> rm_success x then Some (rm_value_len x \<noteq> None) else None)"
    "rq_is_error_response (map_respmeta x) = (\<not> rm_success x)"
    "rq_request_type (map_respmeta x) = (case rm_kind x of Kind_get \<Rightarrow> Get | Kind_set \<Rightarrow> Set | Kind_del \<Rightarrow> Delete)"
    by (simp_all add: map_respmeta_def Let_def split: prod.splits)
  show ?case using Cons.IH [of "record_counters (map_respmeta x) m\<^sub>0"]
    by (cases "rm_kind x") (auto simp: record_counters_fields f)
qed

text \<open>
  Each reply's latency is recorded once, on whichever path. For a reply with its callback and, on
  a routed connection, the recording in the receive loop, exactly one value enters the response
  histogram, one the perceived histogram and one the histogram of its kind: the reply's own latency,
  plus the time it was queued on a routed connection, plus the schedule slip for the perceived one.
  A routed request that did not wait is recorded as an unrouted one is.
\<close>

theorem latency_recorded_once:
  fixes routed :: bool and h :: latency_metrics
  assumes same: "rq_latency_ns r = cr_latency_ns c" "rq_request_type r = cr_command c" and slip: "tracked \<or> worker_slip = 0"
    and fits: "cr_latency_ns c + queued_ns + worker_slip \<le> U64_MAX"
  defines "queued \<equiv> if routed then queued_ns else 0"
  defines "h' \<equiv> (let h = result_callback routed tracked worker_slip c h
                 in if routed then record_routed_latency worker_slip r queued_ns h else h)"
  shows "h_response h' = (cr_latency_ns c + queued) # h_response h \<and>
    h_perceived h' = (cr_latency_ns c + queued + worker_slip) # h_perceived h \<and>
    h_get h' = (if cr_command c = Get then [cr_latency_ns c + queued] else []) @ h_get h \<and>
    h_set h' = (if cr_command c = Set then [cr_latency_ns c + queued] else []) @ h_set h \<and>
    h_delete h' = (if cr_command c = Delete then [cr_latency_ns c + queued] else []) @ h_delete h"
proof -
  have a: "saturating_add (cr_latency_ns c) queued_ns = cr_latency_ns c + queued_ns"
    "saturating_add (cr_latency_ns c + queued_ns) worker_slip = cr_latency_ns c + queued_ns + worker_slip"
    "perceived_ns worker_slip (cr_latency_ns c) tracked = cr_latency_ns c + worker_slip"
    using fits slip by (auto simp: saturating_add_def perceived_ns_def)
  show ?thesis
    by (cases "cr_command c"; cases routed)
      (auto simp: h'_def queued_def result_callback_def record_routed_latency_def record_by_type_def Let_def same a
        split: option.splits)
qed

theorem latency_recorded_once_witness:
  "h_response (record_routed_latency 5 \<lparr>rq_id = 0, rq_success = True, rq_is_error_response = False, rq_latency_ns = 100,
      rq_ttfb_ns = None, rq_request_type = Get, rq_hit = Some True, rq_key_id = None, rq_backfill = False,
      rq_prefill = False, rq_append = False, rq_redirect = None\<rparr> 20
      (result_callback True True 5 \<lparr>cr_command = Get, cr_latency_ns = 100, cr_ttfb_ns = None, cr_tx_bytes = 1, cr_rx_bytes = 2\<rparr>
        \<lparr>h_get = [], h_set = [], h_delete = [], h_response = [], h_perceived = [], h_ttfb = [], m_bytes_tx = 0, m_bytes_rx = 0\<rparr>)) = [120]"
proof -
  let ?r = "\<lparr>rq_id = 0, rq_success = True, rq_is_error_response = False, rq_latency_ns = 100,
      rq_ttfb_ns = None, rq_request_type = Get, rq_hit = Some True, rq_key_id = None, rq_backfill = False,
      rq_prefill = False, rq_append = False, rq_redirect = None\<rparr>"
  let ?c = "\<lparr>cr_command = Get, cr_latency_ns = 100, cr_ttfb_ns = None, cr_tx_bytes = 1, cr_rx_bytes = 2\<rparr>"
  let ?h = "\<lparr>h_get = [], h_set = [], h_delete = [], h_response = [], h_perceived = [], h_ttfb = [], m_bytes_tx = 0, m_bytes_rx = 0\<rparr>"
  have "rq_latency_ns ?r = cr_latency_ns ?c" "rq_request_type ?r = cr_command ?c" "True \<or> (5::nat) = 0"
    "cr_latency_ns ?c + 20 + 5 \<le> U64_MAX" by simp_all
  from latency_recorded_once [OF this, of True ?h] show ?thesis by simp
qed

section \<open>Redirects\<close>



end
