(* ===== verification/Dispatch.thy ===== *)
theory Dispatch
  imports Limiters
begin

text \<open>
  The rate-limit dispatcher of a worker (\<open>src/worker.rs\<close>, \<open>TokenSlot\<close>, \<open>TokenDispatcher\<close>,
  \<open>TokenWait\<close>, \<open>take_token\<close>, \<open>run_dispatcher\<close>): connections queue claims, one task funds them in
  order from the worker's limiter.

  A slot is shared by the queue and by the connection that waits on it, so slots live in a store
  (\<open>td_slots\<close>, a slot's identity is its index) and the queue holds their identities. A waker is
  recorded as registered or not, and waking it as a flag. Everything here runs on one thread, so a
  state is changed by one operation at a time.
\<close>

section \<open>Slots and the dispatcher\<close>

record token_slot =
  ts_want :: nat
  ts_granted :: nat
  ts_done :: bool
  ts_waker :: bool \<comment> \<open>a waker is registered\<close>
  ts_woken :: bool \<comment> \<open>the waker has been woken\<close>

definition slot_complete :: "token_slot \<Rightarrow> nat \<Rightarrow> token_slot" where
  "slot_complete s granted =
     (let s = s\<lparr>ts_granted := granted, ts_done := True\<rparr>
      in if ts_waker s then s\<lparr>ts_waker := False, ts_woken := True\<rparr> else s)"

record token_dispatcher =
  td_slots :: "token_slot list"
  td_queue :: "nat list"
  td_closed :: bool
  td_idle :: bool \<comment> \<open>the dispatcher task's waker is registered\<close>
  td_idle_woken :: bool

definition dispatcher_new :: token_dispatcher where
  "dispatcher_new = \<lparr>td_slots = [], td_queue = [], td_closed = False, td_idle = False, td_idle_woken = False\<rparr>"

text \<open>
  \<open>acquire\<close> up to its await: \<open>None\<close> when it returns 0 at once because the dispatcher has closed,
  else the slot the caller waits on.
\<close>

definition acquire :: "token_dispatcher \<Rightarrow> nat \<Rightarrow> token_dispatcher \<times> nat option" where
  "acquire d want =
     (if td_closed d then (d, None)
      else let slot = \<lparr>ts_want = want, ts_granted = 0, ts_done = False, ts_waker = False, ts_woken = False\<rparr>;
               i = length (td_slots d);
               d = d\<lparr>td_slots := td_slots d @ [slot], td_queue := td_queue d @ [i]\<rparr>;
               d = (if td_idle d then d\<lparr>td_idle := False, td_idle_woken := True\<rparr> else d)
           in (d, Some i))"

text \<open>\<open>TokenWait::poll\<close>: \<open>Some granted\<close> when ready, else the waker is registered.\<close>

definition wait_poll :: "token_dispatcher \<Rightarrow> nat \<Rightarrow> token_dispatcher \<times> nat option" where
  "wait_poll d i =
     (let s = td_slots d ! i in
      if ts_done s then (d, Some (ts_granted s))
      else (d\<lparr>td_slots := (td_slots d)[i := s\<lparr>ts_waker := True\<rparr>]\<rparr>, None))"

abbreviation IDLE_SLEEP_MIN :: nat where "IDLE_SLEEP_MIN \<equiv> 100000"
abbreviation IDLE_SLEEP_MAX :: nat where "IDLE_SLEEP_MAX \<equiv> 50000000"

definition clamped_want :: "'rl ratelimit \<Rightarrow> 'rl worker_limiter \<Rightarrow> nat \<Rightarrow> nat" where
  "clamped_want L w want = max (min want (limiter_max_tokens L w)) 1"

text \<open>
  The loop of \<open>dispatch\<close> over the queue: the store, the queue that is left, the limiter and the
  nap. Each round pops the head and either completes it or puts it back and returns.
\<close>

fun dispatch_loop ::
  "'rl ratelimit \<Rightarrow> nat \<Rightarrow> 'rl worker_limiter \<Rightarrow> token_slot list \<Rightarrow> nat list \<Rightarrow>
   token_slot list \<times> nat list \<times> 'rl worker_limiter \<times> nat option" where
  "dispatch_loop L now w slots [] = (slots, [], w, None)"
| "dispatch_loop L now w slots (i # q) =
     (let want = clamped_want L w (ts_want (slots ! i)) in
      case limiter_try_wait_n L now want w of
        (Inr u, w') \<Rightarrow> dispatch_loop L now w' (slots[i := slot_complete (slots ! i) want]) q
      | (Inl (Insufficient d), w') \<Rightarrow> (slots, i # q, w', Some d)
      | (Inl ExceedsCapacity, w') \<Rightarrow> dispatch_loop L now w' (slots[i := slot_complete (slots ! i) 0]) q
      | (Inl OtherTryWait, w') \<Rightarrow> (slots, i # q, w', Some IDLE_SLEEP_MIN))"

definition dispatch ::
  "'rl ratelimit \<Rightarrow> nat \<Rightarrow> token_dispatcher \<Rightarrow> 'rl worker_limiter \<Rightarrow>
   token_dispatcher \<times> 'rl worker_limiter \<times> nat option" where
  "dispatch L now d w =
     (let (slots, q, w', nap) = dispatch_loop L now w (td_slots d) (td_queue d)
      in (d\<lparr>td_slots := slots, td_queue := q\<rparr>, w', nap))"

definition claim_pending :: "token_dispatcher \<Rightarrow> token_dispatcher \<times> bool" where
  "claim_pending d = (if td_queue d \<noteq> [] then (d, True) else (d\<lparr>td_idle := True\<rparr>, False))"

definition drain :: "token_dispatcher \<Rightarrow> token_dispatcher" where
  "drain d = d\<lparr>td_closed := True,
      td_slots := foldl (\<lambda>ss i. ss[i := slot_complete (ss ! i) 0]) (td_slots d) (td_queue d),
      td_queue := []\<rparr>"

definition take_token :: "'rl ratelimit \<Rightarrow> nat \<Rightarrow> nat \<Rightarrow> 'rl worker_limiter \<Rightarrow> bool \<times> nat \<times> 'rl worker_limiter" where
  "take_token L now carried w =
     (if carried > 0 then (True, carried - 1, w)
      else let (r, w) = limiter_try_wait L now w in (r = Inr (), carried, w))"

text \<open>\<open>wait_for_token\<close> once its \<open>acquire(1)\<close> has returned \<open>granted\<close>.\<close>

definition wait_for_token :: "nat \<Rightarrow> nat \<Rightarrow> nat" where
  "wait_for_token carried granted = wrapping_add carried granted"

text \<open>
  One round of \<open>run_dispatcher\<close>: what the task then awaits. \<open>Napping\<close> is a timed sleep;
  \<open>Idling\<close> waits for a claim with \<open>IDLE_SLEEP_MAX\<close> as its backstop, and \<open>dispatcher_resume\<close> is what
  the task does when that wait ends, before its next round.
\<close>

datatype round_end = Stopped | Napping nat | Idling | Again

definition dispatcher_resume :: "token_dispatcher \<Rightarrow> token_dispatcher" where
  "dispatcher_resume d = d\<lparr>td_idle := False\<rparr>"

definition dispatcher_round ::
  "'rl ratelimit \<Rightarrow> nat \<Rightarrow> bool \<Rightarrow> token_dispatcher \<Rightarrow> 'rl worker_limiter \<Rightarrow>
   token_dispatcher \<times> 'rl worker_limiter \<times> round_end" where
  "dispatcher_round L now should_stop d w =
     (if should_stop then (drain d, w, Stopped)
      else case dispatch L now d w of
             (d, w, Some nap) \<Rightarrow> (d, w, Napping (clamp 1000 IDLE_SLEEP_MAX nap))
           | (d, w, None) \<Rightarrow> (case claim_pending d of
                 (d, True) \<Rightarrow> (dispatcher_resume d, w, Again)
               | (d, False) \<Rightarrow> (d, w, Idling)))"

section \<open>Every waiting claim is queued or finished\<close>

text \<open>
  The queue holds exactly the unfinished slots, in the order they were made; a slot whose waker was
  registered and that is finished has been woken; after closing, nothing is unfinished.
\<close>

definition dispatcher_inv :: "token_dispatcher \<Rightarrow> bool" where
  "dispatcher_inv d \<longleftrightarrow>
     td_queue d = filter (\<lambda>i. \<not> ts_done (td_slots d ! i)) [0..<length (td_slots d)] \<and>
     (\<forall>s\<in>set (td_slots d). ts_done s \<longrightarrow> \<not> ts_waker s) \<and>
     (td_closed d \<longrightarrow> td_queue d = [])"

lemma slot_complete_fields [simp]:
  "ts_done (slot_complete s g)" "\<not> ts_waker (slot_complete s g)" "ts_granted (slot_complete s g) = g"
  "ts_want (slot_complete s g) = ts_want s"
  "ts_woken (slot_complete s g) = (ts_woken s \<or> ts_waker s)"
  by (simp_all add: slot_complete_def Let_def)

definition unfinished :: "token_slot list \<Rightarrow> nat list" where
  "unfinished ss = filter (\<lambda>i. \<not> ts_done (ss ! i)) [0..<length ss]"

definition wakers_ok :: "token_slot list \<Rightarrow> bool" where
  "wakers_ok ss \<longleftrightarrow> (\<forall>s\<in>set ss. ts_done s \<longrightarrow> \<not> ts_waker s)"

lemma filter_skip_head:
  assumes "filter P xs = i # q" and "distinct xs" and "\<And>j. j \<noteq> i \<Longrightarrow> P' j = P j" and "\<not> P' i"
  shows "filter P' xs = q"
proof -
  have "filter P' xs = filter (\<lambda>j. j \<noteq> i) (filter P xs)"
    unfolding filter_filter by (rule filter_cong) (use assms(3,4) in metis)+
  also have "\<dots> = q"
    using assms(1) distinct_filter [OF assms(2), of P]
    by (auto intro!: filter_True)
  finally show ?thesis .
qed

lemma unfinished_complete:
  assumes "unfinished ss = i # q"
  shows "unfinished (ss[i := slot_complete (ss ! i) g]) = q" and "i < length ss"
    and "wakers_ok ss \<Longrightarrow> wakers_ok (ss[i := slot_complete (ss ! i) g])"
proof -
  have "i \<in> set (unfinished ss)" using assms by simp
  then show i: "i < length ss" by (simp add: unfinished_def)
  show "unfinished (ss[i := slot_complete (ss ! i) g]) = q"
    using assms i unfolding unfinished_def length_list_update
    by (rule_tac filter_skip_head [of "\<lambda>i. \<not> ts_done (ss ! i)" _ i]) (auto simp: nth_list_update)
  show "wakers_ok (ss[i := slot_complete (ss ! i) g])" if "wakers_ok ss"
    using that by (auto simp: wakers_ok_def dest!: set_update_subset_insert [THEN subsetD])
qed

lemma dispatch_loop_cases:
  assumes "dispatch_loop L now w ss (i # q) = (ss', q', w', nap)"
  obtains (complete) w1 g where "dispatch_loop L now w1 (ss[i := slot_complete (ss ! i) g]) q = (ss', q', w', nap)"
    | (stop) d where "ss' = ss" "q' = i # q" "nap = Some d"
proof -
  obtain r w1 where r: "limiter_try_wait_n L now (clamped_want L w (ts_want (ss ! i))) w = (r, w1)"
    by fastforce
  then show thesis
  proof (cases r)
    case (Inl e)
    with assms r show thesis by (cases e) (auto simp: Let_def intro: that)
  next
    case (Inr u)
    with assms r show thesis by (simp add: that Let_def)
  qed
qed

lemma dispatch_loop_inv:
  "dispatch_loop L now w ss q = (ss', q', w', nap) \<Longrightarrow> q = unfinished ss \<Longrightarrow> wakers_ok ss \<Longrightarrow>
   q' = unfinished ss' \<and> wakers_ok ss' \<and> length ss' = length ss \<and> (nap = None \<longleftrightarrow> q' = [])"
proof (induction q arbitrary: w ss)
  case Nil
  then show ?case by auto
next
  case (Cons i q)
  have u: "unfinished ss = i # q" using Cons.prems(2) by simp
  note C = unfinished_complete [OF u]
  from Cons.prems(1) show ?case
  proof (cases rule: dispatch_loop_cases)
    case (complete w1 g)
    with Cons.IH [OF complete] C Cons.prems(3) show ?thesis by simp
  next
    case (stop d)
    then show ?thesis using Cons.prems(2,3) by (metis list.distinct(1) option.distinct(1))
  qed
qed

lemma dispatcher_inv_alt:
  "dispatcher_inv d \<longleftrightarrow> td_queue d = unfinished (td_slots d) \<and> wakers_ok (td_slots d) \<and>
     (td_closed d \<longrightarrow> td_queue d = [])"
  by (simp add: dispatcher_inv_def unfinished_def wakers_ok_def)

lemma dispatcher_new_inv: "dispatcher_inv dispatcher_new"
  by (simp add: dispatcher_inv_def dispatcher_new_def)

lemma acquire_inv: "dispatcher_inv d \<Longrightarrow> acquire d want = (d', r) \<Longrightarrow> dispatcher_inv d'"
proof -
  assume inv: "dispatcher_inv d" and a: "acquire d want = (d', r)"
  show ?thesis
  proof (cases "td_closed d")
    case True
    then show ?thesis using inv a by (simp add: acquire_def)
  next
    case False
    have "filter (\<lambda>i. \<not> ts_done ((td_slots d @ [s]) ! i)) [0..<length (td_slots d)]
        = filter (\<lambda>i. \<not> ts_done (td_slots d ! i)) [0..<length (td_slots d)]" for s
      by (rule filter_cong) (auto simp: nth_append)
    then show ?thesis
      using inv a False
      by (cases "td_idle d") (auto simp: acquire_def Let_def dispatcher_inv_def)
  qed
qed

lemma dispatch_inv: "dispatcher_inv d \<Longrightarrow> dispatch L now d w = (d', w', nap) \<Longrightarrow> dispatcher_inv d'"
proof -
  assume inv: "dispatcher_inv d" and eq: "dispatch L now d w = (d', w', nap)"
  obtain ss q w1 n1 where l: "dispatch_loop L now w (td_slots d) (td_queue d) = (ss, q, w1, n1)"
    using prod_cases4 by blast
  have "q = unfinished ss" "wakers_ok ss" "td_closed d \<Longrightarrow> q = []"
    using dispatch_loop_inv [OF l] inv l by (auto simp: dispatcher_inv_alt)
  then show ?thesis using eq inv by (auto simp: dispatch_def l dispatcher_inv_alt)
qed

lemma wait_poll_inv: "dispatcher_inv d \<Longrightarrow> i < length (td_slots d) \<Longrightarrow> dispatcher_inv (fst (wait_poll d i))"
proof -
  assume inv: "dispatcher_inv d" and i: "i < length (td_slots d)"
  have "filter (\<lambda>j. \<not> ts_done ((td_slots d)[i := (td_slots d ! i)\<lparr>ts_waker := True\<rparr>] ! j)) [0..<length (td_slots d)]
      = filter (\<lambda>j. \<not> ts_done (td_slots d ! j)) [0..<length (td_slots d)]"
    using i by (intro filter_cong) (simp_all add: nth_list_update)
  then show ?thesis
    using inv i by (auto simp: wait_poll_def Let_def dispatcher_inv_def
        dest!: set_update_subset_insert [THEN subsetD])
qed

lemma drain_loop:
  "q = unfinished ss \<Longrightarrow> wakers_ok ss \<Longrightarrow>
   let ss' = foldl (\<lambda>ss i. ss[i := slot_complete (ss ! i) 0]) ss q
   in unfinished ss' = [] \<and> wakers_ok ss' \<and> length ss' = length ss"
proof (induction q arbitrary: ss)
  case Nil
  then show ?case by simp
next
  case (Cons i q)
  then have u: "unfinished ss = i # q" by simp
  note C = unfinished_complete [OF u]
  show ?case
    using Cons.IH [of "ss[i := slot_complete (ss ! i) 0]"] C Cons.prems(2) by (simp add: Let_def)
qed

lemma drain_inv: "dispatcher_inv d \<Longrightarrow> dispatcher_inv (drain d) \<and> unfinished (td_slots (drain d)) = []"
  using drain_loop [of "td_queue d" "td_slots d"]
  by (simp add: dispatcher_inv_alt drain_def Let_def)

section \<open>What a dispatch funds\<close>

lemma limiter_try_wait_n_laws:
  assumes laws: "ratelimit_laws L acc" and rate: "0 < rl_rate L (wl_inner w)"
    and n: "n * SUB \<le> rl_max_tokens L (wl_inner w)" and cap: "rl_max_tokens L (wl_inner w) \<le> U64_MAX"
    and tw: "limiter_try_wait_n L now n w = (r, w')"
  shows "let held = min (rl_available L (wl_inner w) + acc now (wl_inner w)) (rl_max_tokens L (wl_inner w)) in
         (if n * SUB \<le> held then r = Inr () \<and> rl_available L (wl_inner w') = held - n * SUB
          else (\<exists>d. r = Inl (Insufficient d)) \<and> rl_available L (wl_inner w') = held)"
    and "acc now (wl_inner w') = 0" and "rl_max_tokens L (wl_inner w') = rl_max_tokens L (wl_inner w)"
    and "rl_rate L (wl_inner w') = rl_rate L (wl_inner w)"
    and "limiter_max_tokens L w' = limiter_max_tokens L w"
proof -
  obtain rl where rl: "rl_try_wait_n L now (n * SUB) (wl_inner w) = (r, rl)" "wl_inner w' = rl"
    using tw n cap by (auto simp: limiter_try_wait_n_def saturating_mul_exact split: prod.splits)
  note T = try_wait_laws [OF laws rate n rl(1)]
  from T show "let held = min (rl_available L (wl_inner w) + acc now (wl_inner w)) (rl_max_tokens L (wl_inner w)) in
         (if n * SUB \<le> held then r = Inr () \<and> rl_available L (wl_inner w') = held - n * SUB
          else (\<exists>d. r = Inl (Insufficient d)) \<and> rl_available L (wl_inner w') = held)"
    and "acc now (wl_inner w') = 0" and "rl_max_tokens L (wl_inner w') = rl_max_tokens L (wl_inner w)"
    and "rl_rate L (wl_inner w') = rl_rate L (wl_inner w)"
    and "limiter_max_tokens L w' = limiter_max_tokens L w"
    unfolding rl(2) limiter_max_tokens_def by simp_all
qed

lemma clamped_want_fits:
  "SUB \<le> rl_max_tokens L (wl_inner w) \<Longrightarrow> clamped_want L w n * SUB \<le> rl_max_tokens L (wl_inner w)"
proof -
  assume "SUB \<le> rl_max_tokens L (wl_inner w)"
  then have "1 \<le> limiter_max_tokens L w" by (simp add: limiter_max_tokens_def less_eq_div_iff_mult_less_eq)
  then have "clamped_want L w n \<le> limiter_max_tokens L w" by (simp add: clamped_want_def)
  then show ?thesis by (simp add: limiter_max_tokens_def less_eq_div_iff_mult_less_eq)
qed

text \<open>The sub-unit tokens the claims \<open>q\<close> cost.\<close>

definition cost :: "'rl ratelimit \<Rightarrow> 'rl worker_limiter \<Rightarrow> token_slot list \<Rightarrow> nat list \<Rightarrow> nat" where
  "cost L w ss q = (\<Sum>i\<leftarrow>q. clamped_want L w (ts_want (ss ! i)) * SUB)"

definition funded :: "'rl ratelimit \<Rightarrow> 'rl worker_limiter \<Rightarrow> token_slot list \<Rightarrow> nat set \<Rightarrow> nat \<Rightarrow> token_slot" where
  "funded L w ss F j = (if j \<in> F then slot_complete (ss ! j) (clamped_want L w (ts_want (ss ! j))) else ss ! j)"

lemma dispatch_loop_funds:
  fixes now :: nat
  assumes laws: "ratelimit_laws L acc"
  shows "dispatch_loop L now w ss q = (ss', q', w', nap) \<Longrightarrow> 0 < rl_rate L (wl_inner w) \<Longrightarrow>
    SUB \<le> rl_max_tokens L (wl_inner w) \<Longrightarrow> rl_max_tokens L (wl_inner w) \<le> U64_MAX \<Longrightarrow>
    distinct q \<Longrightarrow> \<forall>i\<in>set q. i < length ss \<Longrightarrow> q \<noteq> [] \<Longrightarrow>
    held = min (rl_available L (wl_inner w) + acc now (wl_inner w)) (rl_max_tokens L (wl_inner w)) \<Longrightarrow>
    \<exists>k\<le>length q. q' = drop k q \<and> length ss' = length ss \<and>
      (\<forall>j<length ss. ss' ! j = funded L w ss (set (take k q)) j) \<and>
      cost L w ss (take k q) \<le> held \<and>
      rl_available L (wl_inner w') = held - cost L w ss (take k q) \<and>
      (if k = length q then nap = None
       else (\<exists>d. nap = Some d) \<and> held < cost L w ss (take (k + 1) q))"
proof (induction q arbitrary: w ss held)
  case Nil
  then show ?case by simp
next
  case (Cons i q)
  let ?n = "clamped_want L w (ts_want (ss ! i))"
  let ?ss = "ss[i := slot_complete (ss ! i) ?n]"
  obtain r w1 where r: "limiter_try_wait_n L now ?n w = (r, w1)" by fastforce
  note T = limiter_try_wait_n_laws [OF laws Cons.prems(2) clamped_want_fits [OF Cons.prems(3)] Cons.prems(4) r]
  have cw: "clamped_want L w1 n = clamped_want L w n" for n by (simp add: clamped_want_def T(5))
  have i: "i < length ss" "i \<notin> set q" using Cons.prems(5,6) by simp_all
  show ?case
  proof (cases "?n * SUB \<le> held")
    case False
    then obtain d where "r = Inl (Insufficient d)" "rl_available L (wl_inner w1) = held"
      using T(1) Cons.prems(8) by (auto simp: Let_def)
    then show ?thesis using Cons.prems(1) r False
      by (intro exI [of _ 0]) (auto simp: Let_def cost_def funded_def)
  next
    case True
    then have ok: "r = Inr ()" and av: "rl_available L (wl_inner w1) = held - ?n * SUB"
      using T(1) Cons.prems(8) by (auto simp: Let_def)
    have loop: "dispatch_loop L now w1 ?ss q = (ss', q', w', nap)"
      using Cons.prems(1) r ok by (simp add: Let_def)
    have nth: "?ss ! j = ss ! j" if "j \<in> set q" for j using i that by (metis nth_list_update_neq)
    have cost: "cost L w1 ?ss p = cost L w ss p" if "set p \<subseteq> set q" for p
      unfolding cost_def by (rule arg_cong [where f = sum_list], rule map_cong) (use that nth cw in auto)
    show ?thesis
    proof (cases "q = []")
      case True
      then show ?thesis using loop av i \<open>?n * SUB \<le> held\<close>
        by (intro exI [of _ 1]) (auto simp: cost_def funded_def nth_list_update)
    next
      case False
      have held1: "held - ?n * SUB = min (rl_available L (wl_inner w1) + acc now (wl_inner w1))
          (rl_max_tokens L (wl_inner w1))"
        using av T(2,3) Cons.prems(8) by simp
      obtain k where k: "k \<le> length q" "q' = drop k q" "length ss' = length ss"
        "\<forall>j<length ss. ss' ! j = funded L w1 ?ss (set (take k q)) j"
        "cost L w ss (take k q) \<le> held - ?n * SUB"
        "rl_available L (wl_inner w') = held - ?n * SUB - cost L w ss (take k q)"
        "if k = length q then nap = None
         else (\<exists>d. nap = Some d) \<and> held - ?n * SUB < cost L w ss (take (k + 1) q)"
        using Cons.IH [OF loop _ _ _ _ _ False held1] Cons.prems(2-6) T(3,4)
          cost [OF set_take_subset] by (simp only: length_list_update diff_diff_left) fastforce
      have "\<forall>j<length ss. ss' ! j = funded L w ss (insert i (set (take k q))) j"
        using k(4) i by (auto simp: funded_def nth_list_update cw dest: in_set_takeD)
      then show ?thesis using k \<open>?n * SUB \<le> held\<close>
        by (intro exI [of _ "k + 1"]) (auto simp: cost_def)
    qed
  qed
qed

text \<open>
  C20. A dispatch serves the queue in order and charges the limiter for exactly what it grants. From a
  state the dispatcher can be in, it funds the first \<open>k\<close> claims, each in full (clamped to what the
  limiter can ever hold), leaves every other slot as it was, keeps the rest of the queue in place,
  and takes the sum of the grants and nothing else from what the limiter held. It stops early only
  at a claim the limiter cannot pay for now, and then returns how long to sleep; it returns no nap
  exactly when the queue is empty.
\<close>

theorem dispatch_funds_prefix:
  assumes laws: "ratelimit_laws L acc" and inv: "dispatcher_inv d"
    and rate: "0 < rl_rate L (wl_inner w)"
    and cap: "SUB \<le> rl_max_tokens L (wl_inner w)" "rl_max_tokens L (wl_inner w) \<le> U64_MAX"
    and pending: "td_queue d \<noteq> []" and run: "dispatch L now d w = (d', w', nap)"
  defines "held \<equiv> min (rl_available L (wl_inner w) + acc now (wl_inner w)) (rl_max_tokens L (wl_inner w))"
  shows "\<exists>k\<le>length (td_queue d). td_queue d' = drop k (td_queue d) \<and>
    length (td_slots d') = length (td_slots d) \<and>
    (\<forall>j<length (td_slots d). td_slots d' ! j = funded L w (td_slots d) (set (take k (td_queue d))) j) \<and>
    cost L w (td_slots d) (take k (td_queue d)) \<le> held \<and>
    rl_available L (wl_inner w') = held - cost L w (td_slots d) (take k (td_queue d)) \<and>
    (if k = length (td_queue d) then nap = None
     else (\<exists>z. nap = Some z) \<and> held < cost L w (td_slots d) (take (k + 1) (td_queue d)))"
proof -
  obtain ss q w1 n1 where l: "dispatch_loop L now w (td_slots d) (td_queue d) = (ss, q, w1, n1)"
    using prod_cases4 by blast
  with run have d': "td_slots d' = ss" "td_queue d' = q" "w' = w1" "nap = n1" by (auto simp: dispatch_def)
  have q: "distinct (td_queue d)" "\<forall>i\<in>set (td_queue d). i < length (td_slots d)"
    using inv by (auto simp: dispatcher_inv_def)
  show ?thesis
    unfolding d' by (rule dispatch_loop_funds [OF laws l rate cap q pending]) (simp add: held_def)
qed

theorem dispatch_funds_prefix_witness:
  "let ss = [\<lparr>ts_want = 2, ts_granted = 0, ts_done = False, ts_waker = True, ts_woken = False\<rparr>,
             \<lparr>ts_want = 3, ts_granted = 0, ts_done = False, ts_waker = True, ts_woken = False\<rparr>];
       d = \<lparr>td_slots = ss, td_queue = [0, 1], td_closed = False, td_idle = False, td_idle_woken = False\<rparr>;
       w = \<lparr>wl_inner = \<lparr>bk_rate = 1024, bk_period = 1000000000, bk_cap = 9000, bk_held = 4000, bk_last = 0\<rparr>,
            wl_claim = 1024, wl_start = 0\<rparr>
   in \<exists>k\<le>2. td_queue (fst (dispatch bucket_api 0 d w)) = drop k [0, 1]"
proof -
  define ss where "ss = [\<lparr>ts_want = 2, ts_granted = 0, ts_done = False, ts_waker = True, ts_woken = False\<rparr>,
             \<lparr>ts_want = 3, ts_granted = 0, ts_done = False, ts_waker = True, ts_woken = False\<rparr>]"
  define d where "d = \<lparr>td_slots = ss, td_queue = [0, 1], td_closed = False, td_idle = False, td_idle_woken = False\<rparr>"
  define w where "w = \<lparr>wl_inner = \<lparr>bk_rate = 1024, bk_period = 1000000000, bk_cap = 9000, bk_held = 4000, bk_last = 0\<rparr>,
            wl_claim = 1024, wl_start = 0\<rparr>"
  have inv: "dispatcher_inv d" by (simp add: dispatcher_inv_def d_def ss_def)
  have "0 < rl_rate bucket_api (wl_inner w)" "SUB \<le> rl_max_tokens bucket_api (wl_inner w)"
    "rl_max_tokens bucket_api (wl_inner w) \<le> U64_MAX" "td_queue d \<noteq> []"
    by (simp_all add: w_def d_def bucket_api_def)
  note F = dispatch_funds_prefix [OF bucket_laws inv this]
  obtain d' w' nap where e: "dispatch bucket_api 0 d w = (d', w', nap)" by (metis prod_cases3)
  from F [OF e] have "\<exists>k\<le>2. td_queue d' = drop k [0, 1]" by (auto simp: d_def numeral_2_eq_2)
  then show ?thesis unfolding Let_def ss_def [symmetric] d_def [symmetric] w_def [symmetric] e by simp
qed

section \<open>No claim is stranded\<close>

text \<open>
  The steps of a worker's tasks on the dispatcher: a connection claims or polls its wait, the
  dispatcher task makes a round, and resumes after idling. Once a round has drained it the
  dispatcher task has returned, so there are no further rounds.
\<close>

inductive disp_step ::
  "'rl ratelimit \<Rightarrow> token_dispatcher \<times> 'rl worker_limiter \<Rightarrow> token_dispatcher \<times> 'rl worker_limiter \<Rightarrow> bool"
  for L where
  claim_step: "acquire d want = (d', r) \<Longrightarrow> disp_step L (d, w) (d', w)"
| poll_step: "i < length (td_slots d) \<Longrightarrow> disp_step L (d, w) (fst (wait_poll d i), w)"
| round_step: "\<not> td_closed d \<Longrightarrow> dispatcher_round L now stop d w = (d', w', e) \<Longrightarrow> disp_step L (d, w) (d', w')"
| resume_step: "disp_step L (d, w) (dispatcher_resume d, w)"

inductive_cases disp_stepE: "disp_step L s s'"

abbreviation disp_reach where "disp_reach L \<equiv> (disp_step L)\<^sup>*\<^sup>*"

definition idle_inv :: "token_dispatcher \<Rightarrow> bool" where
  "idle_inv d \<longleftrightarrow> (td_idle d \<longrightarrow> td_queue d = [])"

text \<open>A slot whose connection sleeps on it: queued with its waker registered, or finished and woken.\<close>

definition slot_watched :: "token_slot \<Rightarrow> bool" where
  "slot_watched s \<longleftrightarrow> (if ts_done s then ts_woken s else ts_waker s)"

lemma slot_watched_complete [simp]: "slot_watched s \<Longrightarrow> slot_watched (slot_complete s g)"
  by (auto simp: slot_watched_def split: if_splits)

lemma slot_watched_update:
  "j < length ss \<Longrightarrow> slot_watched (ss ! j) \<Longrightarrow> slot_watched (ss[i := slot_complete (ss ! i) g] ! j)"
  by (cases "i = j") simp_all

lemma dispatch_loop_watched:
  "dispatch_loop L now w ss q = (ss', q', w', nap) \<Longrightarrow> j < length ss \<Longrightarrow> slot_watched (ss ! j) \<Longrightarrow>
   slot_watched (ss' ! j)"
proof (induction q arbitrary: w ss)
  case Nil
  then show ?case by simp
next
  case (Cons i q)
  from Cons.prems(1) show ?case
  proof (cases rule: dispatch_loop_cases)
    case (complete w1 g)
    from Cons.IH [OF complete] slot_watched_update Cons.prems(2,3) show ?thesis by simp
  next
    case (stop d)
    then show ?thesis using Cons.prems by simp
  qed
qed

lemma drain_watched:
  "j < length ss \<Longrightarrow> slot_watched (ss ! j) \<Longrightarrow>
   slot_watched (foldl (\<lambda>ss i. ss[i := slot_complete (ss ! i) 0]) ss q ! j)"
  by (induction q arbitrary: ss) (simp_all add: slot_watched_update)

lemma drain_length: "length (foldl (\<lambda>ss i. ss[i := slot_complete (ss ! i) 0]) ss q) = length ss"
  by (induction q arbitrary: ss) simp_all

lemma round_cases:
  assumes "dispatcher_round L now stop d w = (d', w', e)"
  obtains (stop) "stop" "d' = drain d"
    | (serve) d1 nap where "dispatch L now d w = (d1, w', nap)" "td_slots d' = td_slots d1"
        "td_queue d' = td_queue d1" "td_closed d' = td_closed d1"
        "td_idle d' \<longrightarrow> td_idle d1 \<or> td_queue d1 = []"
  using assms
  by (auto simp: dispatcher_round_def claim_pending_def dispatcher_resume_def
      split: if_splits prod.splits option.splits bool.splits)

lemma dispatch_keeps:
  assumes "dispatch L now d w = (d', w', nap)" and "dispatcher_inv d"
  shows "length (td_slots d') = length (td_slots d)" and "td_idle d' = td_idle d"
    and "td_closed d' = td_closed d" and "td_queue d = [] \<Longrightarrow> td_queue d' = []"
    and "j < length (td_slots d) \<Longrightarrow> slot_watched (td_slots d ! j) \<Longrightarrow> slot_watched (td_slots d' ! j)"
proof -
  obtain ss q w1 n1 where l: "dispatch_loop L now w (td_slots d) (td_queue d) = (ss, q, w1, n1)"
    using prod_cases4 by blast
  with assms have d': "d' = d\<lparr>td_slots := ss, td_queue := q\<rparr>" by (auto simp: dispatch_def)
  have "length ss = length (td_slots d)"
    using dispatch_loop_inv [OF l] assms(2) by (simp add: dispatcher_inv_alt)
  then show "length (td_slots d') = length (td_slots d)" "td_idle d' = td_idle d" "td_closed d' = td_closed d"
    by (simp_all add: d')
  show "td_queue d' = []" if "td_queue d = []" using l that by (simp add: d')
  show "slot_watched (td_slots d' ! j)" if "j < length (td_slots d)" "slot_watched (td_slots d ! j)"
    using dispatch_loop_watched [OF l that] by (simp add: d')
qed

lemma disp_step_inv:
  "disp_step L s s' \<Longrightarrow> dispatcher_inv (fst s) \<and> idle_inv (fst s) \<Longrightarrow>
   dispatcher_inv (fst s') \<and> idle_inv (fst s')"
proof (induction rule: disp_step.induct)
  case (claim_step d want d' r w)
  then show ?case using acquire_inv [of d want d' r]
    by (auto simp: acquire_def Let_def idle_inv_def split: if_splits)
next
  case (poll_step i d w)
  then show ?case using wait_poll_inv [of d i] by (auto simp: wait_poll_def Let_def idle_inv_def)
next
  case (round_step d now stop w d' w' e)
  from round_step(2) show ?case
  proof (cases rule: round_cases)
    case stop
    then show ?thesis using drain_inv [of d] round_step(3) by (simp add: idle_inv_def drain_def)
  next
    case (serve d1 nap)
    then show ?thesis
      using dispatch_inv [OF _ serve(1)] dispatch_keeps [OF serve(1)] round_step(3)
      by (auto simp: dispatcher_inv_def idle_inv_def)
  qed
next
  case (resume_step d w)
  then show ?case by (auto simp: dispatcher_resume_def dispatcher_inv_def idle_inv_def)
qed

lemma disp_step_watched:
  "disp_step L s s' \<Longrightarrow> dispatcher_inv (fst s) \<Longrightarrow> j < length (td_slots (fst s)) \<Longrightarrow>
   slot_watched (td_slots (fst s) ! j) \<Longrightarrow>
   j < length (td_slots (fst s')) \<and> slot_watched (td_slots (fst s') ! j)"
proof (induction rule: disp_step.induct)
  case (claim_step d want d' r w)
  then show ?case by (auto simp: acquire_def Let_def nth_append split: if_splits)
next
  case (poll_step i d w)
  then show ?case
    by (cases "i = j") (auto simp: wait_poll_def Let_def slot_watched_def)
next
  case (round_step d now stop w d' w' e)
  from round_step(2) show ?case
  proof (cases rule: round_cases)
    case stop
    then show ?thesis using round_step by (simp add: drain_def drain_watched drain_length)
  next
    case (serve d1 nap)
    then show ?thesis using dispatch_keeps [OF serve(1)] round_step by simp
  qed
next
  case (resume_step d w)
  then show ?case by (simp add: dispatcher_resume_def)
qed

lemma disp_reach_inv:
  "disp_reach L s s' \<Longrightarrow> dispatcher_inv (fst s) \<and> idle_inv (fst s) \<Longrightarrow>
   dispatcher_inv (fst s') \<and> idle_inv (fst s')"
  by (induction rule: rtranclp_induct) (use disp_step_inv in metis)+

lemma disp_reach_watched:
  "disp_reach L s s' \<Longrightarrow> dispatcher_inv (fst s) \<and> idle_inv (fst s) \<Longrightarrow> j < length (td_slots (fst s)) \<Longrightarrow>
   slot_watched (td_slots (fst s) ! j) \<Longrightarrow>
   j < length (td_slots (fst s')) \<and> slot_watched (td_slots (fst s') ! j)"
proof (induction rule: rtranclp_induct)
  case (step y z)
  then show ?case using disp_step_watched [OF step(2)] disp_reach_inv [OF step(1)] by blast
qed simp

text \<open>
  C1. No claim is stranded, however the worker's tasks interleave. In every state reached from the
  start the queue holds exactly the unfinished claims, in the order they were made, and the
  dispatcher never idles behind a queued claim. A connection that sleeps on its claim stays
  reachable for good: at any later moment its slot is either still queued with its waker
  registered, or finished and woken. Once the dispatcher has closed, no claim is left unfinished and
  a new one returns at once.
\<close>

theorem no_stranded_claim:
  assumes reach: "disp_reach L (dispatcher_new, w\<^sub>0) (d, w)"
  shows "td_queue d = unfinished (td_slots d) \<and> (td_queue d \<noteq> [] \<longrightarrow> \<not> td_idle d) \<and>
    (\<forall>i d' w'. i < length (td_slots d) \<longrightarrow> ts_waker (td_slots d ! i) \<longrightarrow> disp_reach L (d, w) (d', w') \<longrightarrow>
       (if ts_done (td_slots d' ! i) then ts_woken (td_slots d' ! i)
        else i \<in> set (td_queue d') \<and> ts_waker (td_slots d' ! i))) \<and>
    (td_closed d \<longrightarrow> (\<forall>s\<in>set (td_slots d). ts_done s) \<and> acquire d want = (d, None))"
proof -
  have inv: "dispatcher_inv d \<and> idle_inv d"
    using disp_reach_inv [OF reach] dispatcher_new_inv by (simp add: idle_inv_def dispatcher_new_def)
  then have q: "td_queue d = unfinished (td_slots d)" and wk: "wakers_ok (td_slots d)"
    and cl: "td_closed d \<longrightarrow> td_queue d = []" by (auto simp: dispatcher_inv_alt)
  have "(if ts_done (td_slots d' ! i) then ts_woken (td_slots d' ! i)
        else i \<in> set (td_queue d') \<and> ts_waker (td_slots d' ! i))"
    if i: "i < length (td_slots d)" "ts_waker (td_slots d ! i)" and r: "disp_reach L (d, w) (d', w')" for i d' w'
  proof -
    have "slot_watched (td_slots d ! i)"
      using wk i by (auto simp: wakers_ok_def slot_watched_def)
    then have "i < length (td_slots d')" "slot_watched (td_slots d' ! i)"
      using disp_reach_watched [OF r] inv i(1) by auto
    moreover have "dispatcher_inv d'" using disp_reach_inv [OF r] inv by simp
    then have "td_queue d' = unfinished (td_slots d')" by (simp add: dispatcher_inv_alt)
    ultimately show ?thesis by (auto simp: unfinished_def slot_watched_def)
  qed
  moreover have "(\<forall>s\<in>set (td_slots d). ts_done s) \<and> acquire d want = (d, None)" if "td_closed d"
    using that q cl unfolding unfinished_def
    by (auto simp: filter_empty_conv in_set_conv_nth acquire_def eq_commute [of "[]"])
  ultimately show ?thesis using q inv by (auto simp: idle_inv_def)
qed

theorem no_stranded_claim_witness:
  "\<exists>d w. disp_reach bucket_api (dispatcher_new, w) (d, w) \<and> td_closed d \<and> length (td_slots d) = 1 \<and>
     (\<forall>s\<in>set (td_slots d). ts_done s) \<and> acquire d 7 = (d, None)"
proof -
  let ?w = "\<lparr>wl_inner = \<lparr>bk_rate = 1024, bk_period = 1000000000, bk_cap = 9000, bk_held = 0, bk_last = 0\<rparr>,
            wl_claim = 1024, wl_start = 0\<rparr>"
  let ?d1 = "fst (acquire dispatcher_new 3)"
  have 1: "disp_step bucket_api (dispatcher_new, ?w) (?d1, ?w)"
    by (rule claim_step [of _ 3 _ "snd (acquire dispatcher_new 3)"]) simp
  have 2: "disp_step bucket_api (?d1, ?w) (drain ?d1, ?w)"
    by (rule round_step [of _ _ 0 True _ _ _ Stopped])
      (simp_all add: dispatcher_round_def acquire_def dispatcher_new_def Let_def)
  have r: "disp_reach bucket_api (dispatcher_new, ?w) (drain ?d1, ?w)" using 1 2 by simp
  have "td_closed (drain ?d1)" "length (td_slots (drain ?d1)) = 1"
    by (simp_all add: drain_def acquire_def dispatcher_new_def Let_def)
  with no_stranded_claim [OF r, of 7] r show ?thesis by blast
qed

end
