(* ===== verification/Routed.thy ===== *)
theory Routed
  imports Dispatch Shared_State
begin

text \<open>
  Routed dispatch (\<open>src/worker.rs\<close>, \<open>RoutedQueues\<close>, \<open>NodeWait\<close>, \<open>run_routed_dispatcher\<close>): requests
  funded by the limiter are queued per node and sent by whichever connection to that node is free.

  A waiter's entry is shared by its node's list and by the wait that made it, so entries live in a
  store (\<open>rq_slots\<close>) and lists hold their indices. Key sampling and key routing are arguments of the
  dispatcher. Indexing a node out of range panics; the model's operations are used within range.
\<close>

section \<open>The queues\<close>

abbreviation ROUTED_QUEUE_PIPELINES :: nat where "ROUTED_QUEUE_PIPELINES \<equiv> 16"
abbreviation ROUTED_MINT_BATCH :: nat where "ROUTED_MINT_BATCH \<equiv> 1024"

record routed_request =
  rr_key_id :: nat
  rr_funded_at :: nat

record node_queue =
  nq_requests :: "routed_request list"
  nq_cap :: nat
  nq_waiters :: "nat list"
  nq_waiters_cap :: nat

record wait_slot =
  wt_live :: bool
  wt_woken :: bool

record routed_queues =
  rq_nodes :: "node_queue list"
  rq_closed :: bool
  rq_slots :: "wait_slot list"

record node_wait =
  nw_node :: nat
  nw_slot :: "nat option"

definition routed_new :: "nat list \<Rightarrow> nat \<Rightarrow> routed_queues" where
  "routed_new connections pipeline_depth =
     \<lparr>rq_nodes = map (\<lambda>c. \<lparr>nq_requests = [],
        nq_cap = saturating_mul (saturating_mul c pipeline_depth) ROUTED_QUEUE_PIPELINES,
        nq_waiters = [], nq_waiters_cap = saturating_add (saturating_mul c 2) 16\<rparr>) connections,
      rq_closed = False, rq_slots = []\<rparr>"

definition kill_slot :: "nat \<Rightarrow> wait_slot list \<Rightarrow> wait_slot list" where
  "kill_slot i ss = ss[i := (ss ! i)\<lparr>wt_live := False\<rparr>]"

definition wake_slot :: "nat \<Rightarrow> wait_slot list \<Rightarrow> wait_slot list" where
  "wake_slot i ss = ss[i := (ss ! i)\<lparr>wt_live := False, wt_woken := True\<rparr>]"

text \<open>The loop of \<open>push\<close> over the waiters: pop until a live one has been woken.\<close>

fun wake_first :: "nat list \<Rightarrow> wait_slot list \<Rightarrow> nat list \<times> wait_slot list" where
  "wake_first [] ss = ([], ss)"
| "wake_first (i # is) ss = (if wt_live (ss ! i) then (is, wake_slot i ss) else wake_first is ss)"

definition routed_push :: "routed_queues \<Rightarrow> nat \<Rightarrow> routed_request \<Rightarrow> routed_queues \<times> bool" where
  "routed_push q node request =
     (let n = rq_nodes q ! node in
      if length (nq_requests n) \<ge> nq_cap n then (q, False)
      else let (ws, ss) = wake_first (nq_waiters n) (rq_slots q);
               n = n\<lparr>nq_requests := nq_requests n @ [request], nq_waiters := ws\<rparr>
           in (q\<lparr>rq_nodes := (rq_nodes q)[node := n], rq_slots := ss\<rparr>, True))"

definition routed_pop :: "routed_queues \<Rightarrow> nat \<Rightarrow> routed_queues \<times> routed_request option" where
  "routed_pop q node =
     (let n = rq_nodes q ! node in
      case nq_requests n of
        [] \<Rightarrow> (q, None)
      | r # rs \<Rightarrow> (q\<lparr>rq_nodes := (rq_nodes q)[node := n\<lparr>nq_requests := rs\<rparr>]\<rparr>, Some r))"

definition routed_wait :: "nat \<Rightarrow> node_wait" where
  "routed_wait node = \<lparr>nw_node = node, nw_slot = None\<rparr>"

text \<open>\<open>NodeWait::poll\<close>: the flag is \<open>Poll::Ready\<close>.\<close>

definition node_wait_poll :: "routed_queues \<Rightarrow> node_wait \<Rightarrow> routed_queues \<times> node_wait \<times> bool" where
  "node_wait_poll q w =
     (let n = rq_nodes q ! nw_node w in
      if rq_closed q \<or> nq_requests n \<noteq> [] then
        (case nw_slot w of
           Some i \<Rightarrow> (q\<lparr>rq_slots := kill_slot i (rq_slots q)\<rparr>, w\<lparr>nw_slot := None\<rparr>, True)
         | None \<Rightarrow> (q, w, True))
      else if (case nw_slot w of Some i \<Rightarrow> wt_live (rq_slots q ! i) | None \<Rightarrow> False) then (q, w, False)
      else
        let ws = (if length (nq_waiters n) \<ge> nq_waiters_cap n
                  then filter (\<lambda>i. wt_live (rq_slots q ! i)) (nq_waiters n) else nq_waiters n);
            i = length (rq_slots q);
            n = n\<lparr>nq_waiters := ws @ [i]\<rparr>
        in (q\<lparr>rq_nodes := (rq_nodes q)[nw_node w := n],
              rq_slots := rq_slots q @ [\<lparr>wt_live = True, wt_woken = False\<rparr>]\<rparr>,
            w\<lparr>nw_slot := Some i\<rparr>, False))"

definition node_wait_drop :: "routed_queues \<Rightarrow> node_wait \<Rightarrow> routed_queues" where
  "node_wait_drop q w =
     (case nw_slot w of Some i \<Rightarrow> q\<lparr>rq_slots := kill_slot i (rq_slots q)\<rparr> | None \<Rightarrow> q)"

definition wake_all :: "nat list \<Rightarrow> wait_slot list \<Rightarrow> wait_slot list" where
  "wake_all is ss = foldl (\<lambda>ss i. if wt_live (ss ! i) then wake_slot i ss else ss) ss is"

definition routed_close :: "routed_queues \<Rightarrow> routed_queues" where
  "routed_close q =
     q\<lparr>rq_closed := True,
       rq_slots := foldl (\<lambda>ss n. wake_all (nq_waiters n) ss) (rq_slots q) (rq_nodes q),
       rq_nodes := map (nq_waiters_update (\<lambda>_. [])) (rq_nodes q)\<rparr>"

section \<open>The routed dispatcher\<close>

text \<open>
  The state the dispatcher task carries: the queues, the limiter, the generator, the count of
  dropped requests and of tokens spent (each adds one sample to \<open>SCHEDULE_SLIP\<close>).
\<close>

record ('rl, 'g) routed_run =
  run_queues :: routed_queues
  run_limiter :: "'rl worker_limiter"
  run_rng :: 'g
  run_dropped :: nat
  run_funded :: nat

text \<open>
  The minting loop of one round, at most \<open>k\<close> requests, all stamped \<open>funded_at\<close>: the nap when the
  limiter refuses. \<open>sample\<close> draws a key, \<open>route\<close> is \<open>route_key\<close> on the written key, or node 0 with one
  endpoint.
\<close>

fun mint ::
  "'rl ratelimit \<Rightarrow> ('g \<Rightarrow> nat \<times> 'g) \<Rightarrow> (nat \<Rightarrow> nat) \<Rightarrow> bool \<Rightarrow> nat \<Rightarrow> nat list \<Rightarrow> nat \<Rightarrow> ('rl, 'g) routed_run \<Rightarrow>
   ('rl, 'g) routed_run \<times> nat option" where
  "mint L sample route multi funded_at nows 0 r = (r, None)"
| "mint L sample route multi funded_at nows (Suc k) r =
     (let now = (case nows of [] \<Rightarrow> funded_at | t # _ \<Rightarrow> t) in
      case limiter_try_wait L now (run_limiter r) of
        (Inl (Insufficient d), w) \<Rightarrow> (r\<lparr>run_limiter := w\<rparr>, Some d)
      | (Inl e, w) \<Rightarrow> (r\<lparr>run_limiter := w\<rparr>, Some IDLE_SLEEP_MIN)
      | (Inr u, w) \<Rightarrow>
          let (key_id, g) = sample (run_rng r);
              node = (if multi then route key_id else 0);
              (q, ok) = routed_push (run_queues r) node \<lparr>rr_key_id = key_id, rr_funded_at = funded_at\<rparr>
          in mint L sample route multi funded_at (tl nows) k
               (r\<lparr>run_queues := q, run_limiter := w, run_rng := g, run_funded := run_funded r + 1,
                  run_dropped := run_dropped r + (if ok then 0 else 1)\<rparr>))"

datatype routed_end = Closed | Sleep nat | Yield

definition routed_round ::
  "'rl ratelimit \<Rightarrow> ('g \<Rightarrow> nat \<times> 'g) \<Rightarrow> (nat \<Rightarrow> nat) \<Rightarrow> bool \<Rightarrow> phase \<Rightarrow> nat \<Rightarrow> nat list \<Rightarrow> ('rl, 'g) routed_run \<Rightarrow>
   ('rl, 'g) routed_run \<times> routed_end" where
  "routed_round L sample route multi ph funded_at nows r =
     (if should_stop ph then (r\<lparr>run_queues := routed_close (run_queues r)\<rparr>, Closed)
      else if ph \<noteq> Warmup \<and> ph \<noteq> Running then (r, Sleep 1000000)
      else case mint L sample route multi funded_at nows ROUTED_MINT_BATCH r of
             (r, Some d) \<Rightarrow> (r, Sleep (clamp 1000 IDLE_SLEEP_MAX d))
           | (r, None) \<Rightarrow> (r, Yield))"

section \<open>A push wakes the connection that has waited longest\<close>

definition live_at :: "wait_slot list \<Rightarrow> nat \<Rightarrow> bool" where
  "live_at ss i \<longleftrightarrow> wt_live (ss ! i)"

lemma wake_first_none: "filter (live_at ss) is = [] \<Longrightarrow> wake_first is ss = ([], ss)"
  by (induction "is") (auto simp: live_at_def)

lemma wake_first_some:
  "filter (live_at ss) is = i # r \<Longrightarrow>
   \<exists>dead js. is = dead @ i # js \<and> r = filter (live_at ss) js \<and> wake_first is ss = (js, wake_slot i ss)"
proof (induction "is")
  case Nil
  then show ?case by simp
next
  case (Cons a as)
  show ?case
  proof (cases "live_at ss a")
    case True
    then show ?thesis using Cons.prems by (intro exI [of _ "[]"] exI [of _ as]) (simp add: live_at_def)
  next
    case False
    with Cons obtain dead js where "as = dead @ i # js" "r = filter (live_at ss) js"
      "wake_first as ss = (js, wake_slot i ss)" by auto
    then show ?thesis using False
      by (rule_tac exI [of _ "a # dead"], rule_tac exI [of _ js]) (simp add: live_at_def [abs_def])
  qed
qed



section \<open>Every token funds a request that is queued or counted as dropped\<close>

definition queued_total :: "routed_queues \<Rightarrow> nat" where
  "queued_total q = (\<Sum>n\<leftarrow>rq_nodes q. length (nq_requests n))"

definition within_caps :: "routed_queues \<Rightarrow> bool" where
  "within_caps q \<longleftrightarrow> (\<forall>n\<in>set (rq_nodes q). length (nq_requests n) \<le> nq_cap n)"

lemma sum_list_nat_update:
  fixes xs :: "'b list" and f :: "'b \<Rightarrow> nat"
  shows "i < length xs \<Longrightarrow> (\<Sum>x\<leftarrow>xs[i := v]. f x) + f (xs ! i) = (\<Sum>x\<leftarrow>xs. f x) + f v"
  by (induction xs arbitrary: i) (auto simp: nth_Cons split: nat.splits)

lemma routed_push_conserves:
  assumes "node < length (rq_nodes q)" and "routed_push q node r = (q', ok)"
  shows "queued_total q' = queued_total q + (if ok then 1 else 0)"
    and "length (rq_nodes q') = length (rq_nodes q)" and "within_caps q \<Longrightarrow> within_caps q'"
    and "rq_closed q' = rq_closed q"
proof -
  let ?n = "rq_nodes q ! node"
  obtain ws ss where w: "wake_first (nq_waiters ?n) (rq_slots q) = (ws, ss)" by fastforce
  let ?n' = "?n\<lparr>nq_requests := nq_requests ?n @ [r], nq_waiters := ws\<rparr>"
  have q': "if length (nq_requests ?n) \<ge> nq_cap ?n then q' = q \<and> \<not> ok
      else q' = q\<lparr>rq_nodes := (rq_nodes q)[node := ?n'], rq_slots := ss\<rparr> \<and> ok"
    using assms(2) w by (auto simp: routed_push_def Let_def)
  show "queued_total q' = queued_total q + (if ok then 1 else 0)"
    using q' sum_list_nat_update [OF assms(1), of "\<lambda>n. length (nq_requests n)" ?n']
    by (auto simp: queued_total_def split: if_splits)
  show "length (rq_nodes q') = length (rq_nodes q)" "rq_closed q' = rq_closed q"
    using q' by (auto split: if_splits)
  show "within_caps q'" if "within_caps q"
    using q' that by (auto simp: within_caps_def split: if_splits dest!: set_update_subset_insert [THEN subsetD])
qed

lemma mint_conserves:
  assumes "mint L sample route multi funded_at nows k r = (r', nap)"
    and "\<forall>key. (if multi then route key else 0) < length (rq_nodes (run_queues r))"
    and "within_caps (run_queues r)"
  shows "\<exists>n\<le>k. run_funded r' = run_funded r + n \<and>
    queued_total (run_queues r') + run_dropped r' = queued_total (run_queues r) + run_dropped r + n \<and>
    within_caps (run_queues r') \<and> (nap = None \<longrightarrow> n = k)"
  using assms
proof (induction k arbitrary: r nows)
  case 0
  then show ?case by simp
next
  case (Suc k)
  define now where "now = (case nows of [] \<Rightarrow> funded_at | t # _ \<Rightarrow> t)"
  obtain res w where tw: "limiter_try_wait L now (run_limiter r) = (res, w)" by fastforce
  show ?case
  proof (cases res)
    case (Inl e)
    then show ?thesis using Suc.prems tw
      by (cases e) (auto simp: now_def [symmetric] Let_def intro!: exI [of _ 0])
  next
    case (Inr u)
    obtain key g where s: "sample (run_rng r) = (key, g)" by fastforce
    define node where "node = (if multi then route key else 0)"
    define rq where "rq = \<lparr>rr_key_id = key, rr_funded_at = funded_at\<rparr>"
    obtain q ok where p: "routed_push (run_queues r) node rq = (q, ok)" by fastforce
    define r1 where "r1 = r\<lparr>run_queues := q, run_limiter := w, run_rng := g, run_funded := run_funded r + 1,
                  run_dropped := run_dropped r + (if ok then 0 else 1)\<rparr>"
    have n: "node < length (rq_nodes (run_queues r))" using Suc.prems(2) by (simp add: node_def)
    note P = routed_push_conserves [OF n p]
    have m: "mint L sample route multi funded_at (tl nows) k r1 = (r', nap)"
      using Suc.prems(1) unfolding r1_def
      by (simp add: now_def [symmetric] tw Inr s node_def [symmetric] rq_def [symmetric] p Let_def)
    have "\<forall>key. (if multi then route key else 0) < length (rq_nodes (run_queues r1))" "within_caps (run_queues r1)"
      using Suc.prems(2,3) P by (simp_all add: r1_def)
    from Suc.IH [OF m this] obtain n where "n \<le> k" "run_funded r' = run_funded r1 + n"
      "queued_total (run_queues r') + run_dropped r' = queued_total (run_queues r1) + run_dropped r1 + n"
      "within_caps (run_queues r')" "nap = None \<longrightarrow> n = k" by auto
    then show ?thesis using P(1) by (intro exI [of _ "n + 1"]) (auto simp: r1_def)
  qed
qed

text \<open>
  C26. The offered rate is accounted for in full. In a round of the routed dispatcher every token
  taken from the limiter funds one request, and that request is either waiting in a queue or counted
  in \<open>routed_queue_dropped\<close>: tokens spent equal requests added plus requests dropped. No queue
  exceeds its cap, at most one batch is minted before the task yields or sleeps, nothing is minted
  outside warmup and measurement, and on a stop the queues are closed with what they hold left in
  place.
\<close>

theorem routed_round_accounts:
  assumes round: "routed_round L sample route multi ph funded_at nows r = (r', e)"
    and nodes: "\<forall>key. (if multi then route key else 0) < length (rq_nodes (run_queues r))"
    and caps: "within_caps (run_queues r)"
  shows "\<exists>n\<le>ROUTED_MINT_BATCH. run_funded r' = run_funded r + n \<and>
    queued_total (run_queues r') + run_dropped r' = queued_total (run_queues r) + run_dropped r + n \<and>
    within_caps (run_queues r') \<and>
    (n > 0 \<longrightarrow> ph = Warmup \<or> ph = Running) \<and> (e = Yield \<longrightarrow> n = ROUTED_MINT_BATCH) \<and>
    (e = Closed \<longleftrightarrow> ph = Stop) \<and> (e = Closed \<longrightarrow> rq_closed (run_queues r'))"
proof (cases "ph = Warmup \<or> ph = Running")
  case False
  then show ?thesis using round caps
    by (auto simp: routed_round_def should_stop_def routed_close_def queued_total_def within_caps_def o_def
        split: if_splits)
next
  case True
  then have ns: "\<not> should_stop ph" by (auto simp: should_stop_def)
  obtain r1 nap where m: "mint L sample route multi funded_at nows ROUTED_MINT_BATCH r = (r1, nap)" by fastforce
  have r: "r' = r1" "e = (case nap of Some d \<Rightarrow> Sleep (clamp 1000 IDLE_SLEEP_MAX d) | None \<Rightarrow> Yield)"
    using round True ns m unfolding routed_round_def by (auto split: option.splits)
  from mint_conserves [OF m nodes caps] True show ?thesis
    unfolding r by (auto split: option.splits)
qed

theorem routed_round_accounts_witness:
  "let r = \<lparr>run_queues = routed_new [1, 1] 1,
            run_limiter = \<lparr>wl_inner = \<lparr>bk_rate = 1024, bk_period = 1000000000, bk_cap = 9000, bk_held = 3000, bk_last = 0\<rparr>,
              wl_claim = 1024, wl_start = 0\<rparr>, run_rng = (5::nat), run_dropped = 0, run_funded = 0\<rparr>;
       r' = fst (routed_round bucket_api (\<lambda>g. (g, g + 1)) (\<lambda>k. k mod 2) True Running 0 [] r)
   in queued_total (run_queues r') + run_dropped r' = run_funded r'"
proof -
  define r where "r = \<lparr>run_queues = routed_new [1, 1] 1,
            run_limiter = \<lparr>wl_inner = \<lparr>bk_rate = 1024, bk_period = 1000000000, bk_cap = 9000, bk_held = 3000, bk_last = 0\<rparr>,
              wl_claim = 1024, wl_start = 0\<rparr>, run_rng = (5::nat), run_dropped = 0, run_funded = 0\<rparr>"
  obtain r' e where rd: "routed_round bucket_api (\<lambda>g. (g, g + 1)) (\<lambda>k. k mod 2) True Running 0 [] r = (r', e)" by fastforce
  have "\<forall>key. (if True then key mod 2 else 0) < length (rq_nodes (run_queues r))" "within_caps (run_queues r)"
    using mod_less_divisor [of 2] by (simp_all add: r_def routed_new_def within_caps_def numeral_2_eq_2)
  from routed_round_accounts [OF rd this]
  have "queued_total (run_queues r') + run_dropped r' = run_funded r'"
    by (auto simp: r_def routed_new_def queued_total_def)
  then show ?thesis unfolding Let_def r_def [symmetric] rd by simp
qed

end
