(* ===== verification/In_Flight.thy ===== *)
theory In_Flight
  imports Prelude
begin

text \<open>
  The requests in flight on one connection and its deadline timer (\<open>src/worker.rs\<close>, \<open>InFlight\<close>,
  \<open>note_discarded\<close>, \<open>note_failed_fire\<close>, \<open>recv_with_timeout\<close>).

  Times and durations are nanoseconds; a clock reading is an argument. The timers are those of the
  crate \<open>ringline\<close>, which is not part of the program: they are a record of operations the
  definitions take, with what is documented of them as the predicate \<open>timer_laws\<close>. The \<open>await\<close> of
  \<open>recv_with_timeout\<close> is cut where the task is suspended: \<open>recv_begin\<close> runs up to it, \<open>recv_poll\<close> is
  one poll of it, \<open>recv_finish\<close> what follows.
\<close>

section \<open>Requests in flight\<close>

record 't timers =
  tm_try_sleep :: "nat \<Rightarrow> nat \<Rightarrow> 't option" \<comment> \<open>now, after; \<open>None\<close> when the pool is exhausted\<close>
  tm_ready :: "nat \<Rightarrow> 't \<Rightarrow> bool" \<comment> \<open>now\<close>

definition timer_laws :: "'t timers \<Rightarrow> bool" where
  "timer_laws T \<longleftrightarrow> (\<forall>now after t n. tm_try_sleep T now after = Some t \<longrightarrow> (tm_ready T n t \<longleftrightarrow> now + after \<le> n))"

record 't in_flight =
  if_fired :: "nat list"
  if_queued :: "nat list"
  if_track_queued :: bool
  if_timeout :: nat
  if_timer :: "'t option"

definition inflight_new :: "nat \<Rightarrow> 't in_flight" where
  "inflight_new timeout =
     \<lparr>if_fired = [], if_queued = [], if_track_queued = False, if_timeout = timeout, if_timer = None\<rparr>"

definition tracking_queued :: "'t in_flight \<Rightarrow> 't in_flight" where
  "tracking_queued f = f\<lparr>if_track_queued := True, if_queued := []\<rparr>"

definition push_queued :: "'t in_flight \<Rightarrow> nat \<Rightarrow> nat \<Rightarrow> 't in_flight" where
  "push_queued f fired_at queued_ns =
     (let f = f\<lparr>if_fired := if_fired f @ [fired_at]\<rparr>
      in if if_track_queued f then f\<lparr>if_queued := if_queued f @ [queued_ns]\<rparr> else f)"

definition inflight_push :: "'t in_flight \<Rightarrow> nat \<Rightarrow> 't in_flight" where
  "inflight_push f fired_at = push_queued f fired_at 0"

definition inflight_pop :: "'t in_flight \<Rightarrow> 't in_flight \<times> nat" where
  "inflight_pop f =
     (f\<lparr>if_fired := tl (if_fired f), if_queued := tl (if_queued f)\<rparr>,
      case if_queued f of [] \<Rightarrow> 0 | q # _ \<Rightarrow> q)"

definition forget_newest :: "'t in_flight \<Rightarrow> nat \<Rightarrow> 't in_flight" where
  "forget_newest f n =
     (let keep = saturating_sub (length (if_fired f)) n
      in f\<lparr>if_fired := take keep (if_fired f), if_queued := take keep (if_queued f)\<rparr>)"

definition inflight_len :: "'t in_flight \<Rightarrow> nat" where
  "inflight_len f = length (if_fired f)"

definition arm :: "'t timers \<Rightarrow> nat \<Rightarrow> 't in_flight \<Rightarrow> nat \<Rightarrow> 't in_flight \<times> bool" where
  "arm T now f after =
     (case tm_try_sleep T now after of Some t \<Rightarrow> (f\<lparr>if_timer := Some t\<rparr>, True) | None \<Rightarrow> (f, False))"

definition remaining :: "'t in_flight \<Rightarrow> nat \<Rightarrow> nat option" where
  "remaining f now =
     (if if_timeout f = 0 then None
      else case if_fired f of [] \<Rightarrow> None
           | oldest # _ \<Rightarrow> Some (saturating_sub (if_timeout f) (saturating_sub now oldest)))"

text \<open>
  The counters these functions move (\<open>metrics::REQUESTS_SEND_FAILED\<close>, \<open>REQUEST_TIMEOUTS\<close>,
  \<open>REQUEST_ERRORS\<close>).
\<close>

record flight_counters =
  fc_send_failed :: nat
  fc_timeouts :: nat
  fc_errors :: nat

definition note_discarded ::
  "nat \<Rightarrow> nat \<Rightarrow> 't in_flight \<Rightarrow> bool \<Rightarrow> flight_counters \<Rightarrow> 't in_flight \<times> flight_counters \<times> nat" where
  "note_discarded before after f count_failed m =
     (let discarded = saturating_sub before after;
          m = (if count_failed then m\<lparr>fc_send_failed := fc_send_failed m + discarded\<rparr> else m)
      in (forget_newest f discarded, m, discarded))"

definition note_failed_fire ::
  "nat \<Rightarrow> nat \<Rightarrow> 't in_flight \<Rightarrow> bool \<Rightarrow> flight_counters \<Rightarrow> 't in_flight \<times> flight_counters \<times> nat" where
  "note_failed_fire before after f count_failed m =
     (let m = (if count_failed then m\<lparr>fc_send_failed := fc_send_failed m + 1\<rparr> else m)
      in note_discarded before after f count_failed m)"

section \<open>Awaiting a reply under the timeout\<close>

datatype disconnect_reason = Eof | RecvError | SendError | ClosedEvent | ErrorEvent | ConnectFailed | Timeout

datatype begun = Unbounded | Bounded | Failed disconnect_reason

text \<open>Up to the await: \<open>t\<^sub>1\<close> is the reading for what remains, \<open>t\<^sub>2\<close> the time the timer is armed.\<close>

definition recv_begin :: "'t timers \<Rightarrow> nat \<Rightarrow> nat \<Rightarrow> 't in_flight \<Rightarrow> 't in_flight \<times> begun" where
  "recv_begin T t\<^sub>1 t\<^sub>2 f =
     (case remaining f t\<^sub>1 of
        None \<Rightarrow> (f, Unbounded)
      | Some left \<Rightarrow>
          (case if_timer f of
             Some _ \<Rightarrow> (f, Bounded)
           | None \<Rightarrow> (case arm T t\<^sub>2 f left of
                 (f, True) \<Rightarrow> (f, Bounded)
               | (f, False) \<Rightarrow> (f, Failed RecvError))))"

datatype 'v polled = Pending | Received 'v | Expired | Unarmed

text \<open>
  The loop on the timer in one poll, over the clock readings of its rounds: in each, the timer is
  polled at \<open>t\<^sub>1\<close>, what remains is taken at \<open>t\<^sub>2\<close> and a new timer armed at \<open>t\<^sub>3\<close>. \<open>None\<close> is a
  loop that has not ended within the readings given.
\<close>

fun timer_loop :: "'t timers \<Rightarrow> (nat \<times> nat \<times> nat) list \<Rightarrow> 't in_flight \<Rightarrow> ('t in_flight \<times> 'v polled) option" where
  "timer_loop T [] f = None"
| "timer_loop T ((t\<^sub>1, t\<^sub>2, t\<^sub>3) # ts) f =
     (case if_timer f of
        None \<Rightarrow> Some (f, Unarmed)
      | Some t \<Rightarrow>
          if \<not> tm_ready T t\<^sub>1 t then Some (f, Pending)
          else let f = f\<lparr>if_timer := None\<rparr> in
               case remaining f t\<^sub>2 of
                 None \<Rightarrow> Some (f, Expired)
               | Some left \<Rightarrow> if left = 0 then Some (f, Expired)
                              else timer_loop T ts (fst (arm T t\<^sub>3 f left)))"

definition recv_poll ::
  "'t timers \<Rightarrow> (nat \<times> nat \<times> nat) list \<Rightarrow> 'v option \<Rightarrow> 't in_flight \<Rightarrow> ('t in_flight \<times> 'v polled) option" where
  "recv_poll T ts reply f = (case reply of Some v \<Rightarrow> Some (f, Received v) | None \<Rightarrow> timer_loop T ts f)"

text \<open>\<open>None\<close> while the poll is pending.\<close>

definition recv_finish ::
  "'t in_flight \<Rightarrow> 'v polled \<Rightarrow> flight_counters \<Rightarrow> (flight_counters \<times> (disconnect_reason + 'v)) option" where
  "recv_finish f p m =
     (case p of
        Pending \<Rightarrow> None
      | Received v \<Rightarrow> Some (m, Inr v)
      | Expired \<Rightarrow> let n = inflight_len f in
          Some (m\<lparr>fc_timeouts := fc_timeouts m + n, fc_errors := fc_errors m + n\<rparr>, Inl Timeout)
      | Unarmed \<Rightarrow> Some (m, Inl RecvError))"

section \<open>The two queues are one queue of requests\<close>

definition inflight_inv :: "'t in_flight \<Rightarrow> bool" where
  "inflight_inv f \<longleftrightarrow> length (if_queued f) = (if if_track_queued f then length (if_fired f) else 0)"

text \<open>What is in flight: when each request was sent and how long it had been queued.\<close>

definition requests :: "'t in_flight \<Rightarrow> (nat \<times> nat) list" where
  "requests f = zip (if_fired f) (if if_track_queued f then if_queued f else replicate (length (if_fired f)) 0)"

datatype flight_op = Push_queued nat nat | Pop | Forget nat

fun flight_step :: "'t in_flight \<Rightarrow> flight_op \<Rightarrow> unit + 't in_flight" where
  "flight_step f (Push_queued t q) = Inr (push_queued f t q)"
| "flight_step f Pop = Inr (fst (inflight_pop f))"
| "flight_step f (Forget n) = Inr (forget_newest f n)"

text \<open>The specification, for a connection that tracks queue waits or one that does not.\<close>

fun flight_spec :: "bool \<times> (nat \<times> nat) list \<Rightarrow> flight_op \<Rightarrow> bool \<times> (nat \<times> nat) list" where
  "flight_spec (track, rs) (Push_queued t q) = (track, rs @ [(t, if track then q else 0)])"
| "flight_spec (track, rs) Pop = (track, tl rs)"
| "flight_spec (track, rs) (Forget n) = (track, take (length rs - n) rs)"

definition flight_abs :: "'t in_flight \<Rightarrow> bool \<times> (nat \<times> nat) list" where
  "flight_abs f = (if_track_queued f, requests f)"

lemma tl_zip_replicate: "tl (zip xs (replicate (length xs) c)) = zip (tl xs) (replicate (length xs - 1) c)"
  by (cases xs) simp_all

lemma tl_zip: "length xs = length ys \<Longrightarrow> tl (zip xs ys) = zip (tl xs) (tl ys)"
  by (cases xs; cases ys) simp_all

lemma requests_push:
  "inflight_inv f \<Longrightarrow> requests (push_queued f t q) = requests f @ [(t, if if_track_queued f then q else 0)]"
  by (auto simp: requests_def push_queued_def inflight_inv_def Let_def replicate_append_same [symmetric])

lemma requests_pop: "inflight_inv f \<Longrightarrow> requests (fst (inflight_pop f)) = tl (requests f)"
  by (auto simp: requests_def inflight_pop_def inflight_inv_def tl_zip tl_zip_replicate)

lemma requests_forget:
  "inflight_inv f \<Longrightarrow> requests (forget_newest f n) = take (length (requests f) - n) (requests f)"
  by (auto simp: requests_def forget_newest_def inflight_inv_def take_zip Let_def)

lemma inflight_ops_track:
  "if_track_queued (push_queued f t q) = if_track_queued f"
  "if_track_queued (fst (inflight_pop f)) = if_track_queued f"
  "if_track_queued (forget_newest f n) = if_track_queued f"
  by (simp_all add: push_queued_def inflight_pop_def forget_newest_def Let_def)

lemma inflight_ops_inv:
  "inflight_inv f \<Longrightarrow> inflight_inv (push_queued f t q)"
  "inflight_inv f \<Longrightarrow> inflight_inv (fst (inflight_pop f))"
  "inflight_inv f \<Longrightarrow> inflight_inv (forget_newest f n)"
  by (auto simp: inflight_inv_def push_queued_def inflight_pop_def forget_newest_def Let_def split: if_splits)

interpretation flight: refinement inflight_inv flight_abs flight_step flight_spec
proof unfold_locales
  fix s s' :: "'t in_flight" and x
  assume inv: "inflight_inv s" and st: "flight_step s x = Inr s'"
  show "inflight_inv s'" using st inv by (cases x) (auto simp: inflight_ops_inv)
  show "flight_abs s' = flight_spec (flight_abs s) x"
    using st inv
    by (cases x) (auto simp: flight_abs_def requests_push requests_pop requests_forget
        inflight_ops_track)
qed

text \<open>
  C15. The fire times and the queue waits kept beside them never drift apart. After any sequence of
  sends, replies and discards the two deques hold exactly the requests still in flight, in the order
  they were sent: a reply removes the oldest request and returns that request's own queue wait (0
  where waits are not tracked), and a discard of \<open>n\<close> removes the \<open>n\<close> newest.
\<close>

theorem inflight_is_request_queue:
  assumes start: "f\<^sub>0 = (if track then tracking_queued (inflight_new timeout) else inflight_new timeout)"
    and run: "run_ok flight_step f\<^sub>0 ops = Inr f"
  shows "flight_abs f = foldl flight_spec (track, []) ops \<and>
    length (if_fired f) = length (requests f) \<and>
    snd (inflight_pop f) = (case requests f of [] \<Rightarrow> 0 | r # _ \<Rightarrow> snd r) \<and>
    inflight_len f = length (snd (foldl flight_spec (track, []) ops))"
proof -
  have 0: "inflight_inv f\<^sub>0" "flight_abs f\<^sub>0 = (track, [])"
    by (auto simp: start inflight_inv_def flight_abs_def requests_def inflight_new_def tracking_queued_def)
  from flight.run_abs [OF 0(1) run] 0(2) have inv: "inflight_inv f" and
    abs: "flight_abs f = foldl flight_spec (track, []) ops" by auto
  have len: "length (if_fired f) = length (requests f)" using inv by (auto simp: requests_def inflight_inv_def)
  moreover have "snd (inflight_pop f) = (case requests f of [] \<Rightarrow> 0 | r # _ \<Rightarrow> snd r)"
    using inv by (cases "if_fired f"; cases "if_queued f")
      (auto simp: inflight_pop_def requests_def inflight_inv_def split: if_splits)
  moreover have "snd (flight_abs f) = requests f" by (simp add: flight_abs_def)
  ultimately show ?thesis using abs by (simp add: inflight_len_def)
qed

theorem inflight_is_request_queue_witness:
  "\<exists>f. run_ok flight_step (tracking_queued (inflight_new 1000))
         [Push_queued 5 40, Push_queued 7 41, Pop, Push_queued 9 42, Forget 1] = Inr (f :: unit in_flight) \<and>
       requests f = [(7, 41)]"
proof -
  let ?ops = "[Push_queued 5 40, Push_queued 7 41, Pop, Push_queued 9 42, Forget 1]"
  obtain f :: "unit in_flight" where f: "run_ok flight_step (tracking_queued (inflight_new 1000)) ?ops = Inr f"
    by simp
  from inflight_is_request_queue [OF _ f, of True 1000] f show ?thesis by (auto simp: flight_abs_def)
qed

section \<open>A stalled request is noticed at its deadline\<close>

text \<open>
  The timer that is left running is ready no later than \<open>skew\<close> after the deadline of every request
  in flight, or at \<open>now\<close>: it was armed for a request sent no later than any of them. \<open>skew\<close> bounds
  the time between taking what remains and arming the timer.
\<close>

definition armed_ok :: "'t timers \<Rightarrow> nat \<Rightarrow> nat \<Rightarrow> 't in_flight \<Rightarrow> bool" where
  "armed_ok T skew now f \<longleftrightarrow>
     (\<forall>t. if_timer f = Some t \<longrightarrow>
        (\<exists>base\<le>now. (\<forall>e\<in>set (if_fired f). base \<le> e) \<and>
           (\<forall>n. now \<le> n \<longrightarrow> base + if_timeout f + skew \<le> n \<longrightarrow> tm_ready T n t)))"

lemma armed_ok_later: "armed_ok T skew now f \<Longrightarrow> now \<le> now' \<Longrightarrow> armed_ok T skew now' f"
  unfolding armed_ok_def by (meson le_trans)

lemma armed_ok_subset:
  assumes "armed_ok T skew now f" and "if_timer f' = if_timer f" and "if_timeout f' = if_timeout f"
    and "set (if_fired f') \<subseteq> set (if_fired f) \<union> {e. now \<le> e}"
  shows "armed_ok T skew now f'"
  using assms unfolding armed_ok_def by (metis (no_types, lifting) Un_iff le_trans mem_Collect_eq subsetD)

lemma armed_ok_ops:
  assumes "armed_ok T skew now f"
  shows "now \<le> t \<Longrightarrow> armed_ok T skew now (push_queued f t q)"
    and "armed_ok T skew now (fst (inflight_pop f))"
    and "armed_ok T skew now (forget_newest f n)"
proof -
  have tl: "set (tl xs) \<subseteq> set xs" for xs :: "nat list" by (cases xs) auto
  show "now \<le> t \<Longrightarrow> armed_ok T skew now (push_queued f t q)"
    by (rule armed_ok_subset [OF assms]) (auto simp: push_queued_def Let_def)
  show "armed_ok T skew now (fst (inflight_pop f))"
    by (rule armed_ok_subset [OF assms]) (use tl in \<open>auto simp: inflight_pop_def\<close>)
  show "armed_ok T skew now (forget_newest f n)"
    by (rule armed_ok_subset [OF assms]) (auto simp: forget_newest_def Let_def dest: in_set_takeD)
qed

lemma arm_ok:
  assumes "timer_laws T" and "remaining f t\<^sub>1 = Some left" and "sorted (if_fired f)"
    and "\<forall>e\<in>set (if_fired f). e \<le> t\<^sub>1" and "t\<^sub>1 \<le> t\<^sub>2" and "t\<^sub>2 \<le> t\<^sub>1 + skew"
    and "arm T t\<^sub>2 f left = (f', True)"
  shows "armed_ok T skew t\<^sub>2 f'"
proof -
  obtain e es where f: "if_fired f = e # es" and left: "left = if_timeout f - (t\<^sub>1 - e)"
    using assms(2) by (auto simp: remaining_def split: if_splits list.splits)
  obtain t where t: "tm_try_sleep T t\<^sub>2 left = Some t" "f' = f\<lparr>if_timer := Some t\<rparr>"
    using assms(7) by (auto simp: arm_def split: option.splits)
  have "tm_ready T n t \<longleftrightarrow> t\<^sub>2 + left \<le> n" for n using assms(1) t(1) by (simp add: timer_laws_def)
  moreover have "e \<le> t\<^sub>1" "\<forall>x\<in>set (if_fired f). e \<le> x" using assms(3,4) f by auto
  ultimately show ?thesis
    using assms(5,6) left unfolding armed_ok_def t(2) by (auto intro!: exI [of _ e])
qed

lemma remaining_head:
  assumes "if_timeout f > 0" and "if_fired f = e # es"
  shows "remaining f now = Some (if_timeout f - (now - e))"
  using assms by (simp add: remaining_def)

lemma recv_begin_armed:
  assumes "timer_laws T" and "armed_ok T skew t\<^sub>1 f" and "sorted (if_fired f)"
    and "\<forall>e\<in>set (if_fired f). e \<le> t\<^sub>1" and "t\<^sub>1 \<le> t\<^sub>2" and "t\<^sub>2 \<le> t\<^sub>1 + skew"
    and "recv_begin T t\<^sub>1 t\<^sub>2 f = (f', Bounded)"
  shows "armed_ok T skew t\<^sub>2 f' \<and> if_timer f' \<noteq> None \<and> if_fired f' = if_fired f \<and> if_timeout f' = if_timeout f"
proof -
  obtain left where left: "remaining f t\<^sub>1 = Some left"
    using assms(7) by (auto simp: recv_begin_def split: option.splits)
  show ?thesis
  proof (cases "if_timer f")
    case (Some t)
    then show ?thesis using assms(2,5,7) left by (auto simp: recv_begin_def intro: armed_ok_later)
  next
    case None
    then have a: "arm T t\<^sub>2 f left = (f', True)"
      using assms(7) left by (auto simp: recv_begin_def split: prod.splits bool.splits)
    from arm_ok [OF assms(1) left assms(3-6) a] a show ?thesis
      by (auto simp: arm_def split: option.splits)
  qed
qed

lemma timer_loop_round:
  assumes laws: "timer_laws T" and ok: "armed_ok T skew now f" and f: "if_fired f = e # es"
    and to: "0 < if_timeout f" and t: "if_timer f = Some t" and now: "now \<le> t\<^sub>1" "t\<^sub>1 \<le> t\<^sub>2" "e \<le> t\<^sub>2"
  obtains (pending) "timer_loop T ((t\<^sub>1, t\<^sub>2, t\<^sub>3) # ts) f = Some (f, Pending :: 'v polled)" "t\<^sub>1 < e + if_timeout f + skew"
    | (expired) "timer_loop T ((t\<^sub>1, t\<^sub>2, t\<^sub>3) # ts) f = Some (f\<lparr>if_timer := None\<rparr>, Expired :: 'v polled)" "e + if_timeout f \<le> t\<^sub>2"
    | (rearm) f' where "timer_loop T ((t\<^sub>1, t\<^sub>2, t\<^sub>3) # ts) f = (timer_loop T ts f' :: ('t in_flight \<times> 'v polled) option)"
        "f' = fst (arm T t\<^sub>3 (f\<lparr>if_timer := None\<rparr>) (e + if_timeout f - t\<^sub>2))" "t\<^sub>2 < e + if_timeout f"
proof -
  let ?left = "if_timeout f - (t\<^sub>2 - e)"
  have rem: "remaining (f\<lparr>if_timer := None\<rparr>) t\<^sub>2 = Some ?left"
    using remaining_head [of "f\<lparr>if_timer := None\<rparr>" e es t\<^sub>2] f to by simp
  have early: "t\<^sub>1 < e + if_timeout f + skew" if "\<not> tm_ready T t\<^sub>1 t"
  proof (rule ccontr)
    assume *: "\<not> t\<^sub>1 < e + if_timeout f + skew"
    from ok t f obtain base where "base \<le> e"
      "\<forall>n. now \<le> n \<longrightarrow> base + if_timeout f + skew \<le> n \<longrightarrow> tm_ready T n t"
      by (auto simp: armed_ok_def)
    then show False using * now(1) that by auto
  qed
  show thesis
  proof (cases "tm_ready T t\<^sub>1 t")
    case False
    then show thesis using early t pending by simp
  next
    case True
    show thesis
    proof (cases "?left = 0")
      case True
      then have "e + if_timeout f \<le> t\<^sub>2" using now by linarith
      then show thesis using True \<open>tm_ready T t\<^sub>1 t\<close> t rem expired by simp
    next
      case False
      then have "t\<^sub>2 < e + if_timeout f" "?left = e + if_timeout f - t\<^sub>2" using now by linarith+
      then show thesis using False \<open>tm_ready T t\<^sub>1 t\<close> t rem rearm by simp
    qed
  qed
qed

text \<open>
  C14. A request that outlives its timeout is noticed, and none is timed out early. Take a bounded
  wait with requests in flight, its timer as \<open>recv_begin\<close> and every earlier poll left it, and a clock
  that does not run backwards. One poll with no reply ends within two rounds of its loop: it never
  spins. It leaves the requests as they are and (a) stays pending only if the oldest request has not
  yet outlived its timeout by more than the arming skew, with a timer still armed for the next poll;
  (b) expires only if the oldest request is at least as old as the timeout; (c) gives up unarmed
  only when the timer pool is exhausted.
\<close>

theorem request_timeout_sound:
  assumes laws: "timer_laws T" and ok: "armed_ok T skew now f" and timer: "if_timer f \<noteq> None"
    and fired: "if_fired f \<noteq> []" "sorted (if_fired f)" "\<forall>e\<in>set (if_fired f). e \<le> now"
    and to: "0 < if_timeout f"
    and clock: "now \<le> a\<^sub>1" "a\<^sub>1 \<le> a\<^sub>2" "a\<^sub>2 \<le> a\<^sub>3" "a\<^sub>3 \<le> a\<^sub>2 + skew" "a\<^sub>3 \<le> b\<^sub>1" "b\<^sub>1 \<le> b\<^sub>2"
  shows "\<exists>f' p. recv_poll T [(a\<^sub>1, a\<^sub>2, a\<^sub>3), (b\<^sub>1, b\<^sub>2, b\<^sub>3)] None f = Some (f', p :: 'v polled) \<and>
    if_fired f' = if_fired f \<and>
    (case p of
       Pending \<Rightarrow> a\<^sub>1 < hd (if_fired f) + if_timeout f + skew \<and> if_timer f' \<noteq> None \<and> armed_ok T skew b\<^sub>1 f'
     | Expired \<Rightarrow> hd (if_fired f) + if_timeout f \<le> b\<^sub>2
     | Unarmed \<Rightarrow> \<exists>left. tm_try_sleep T a\<^sub>3 left = None
     | Received v \<Rightarrow> False)"
proof -
  let ?ts = "[(b\<^sub>1, b\<^sub>2, b\<^sub>3)]"
  obtain e es where f: "if_fired f = e # es" using fired(1) by (cases "if_fired f") auto
  have e: "e \<le> now" using fired(3) f by simp
  obtain t where t: "if_timer f = Some t" using timer by auto
  have "e \<le> a\<^sub>2" using e clock by linarith
  from laws ok f to t clock(1,2) this show ?thesis
  proof (cases rule: timer_loop_round [where ?t\<^sub>3.0 = a\<^sub>3 and ts = ?ts and 'v = 'v])
    case pending
    then show ?thesis using f t armed_ok_later [OF ok, of b\<^sub>1] clock by (simp add: recv_poll_def)
  next
    case expired
    then show ?thesis using f clock by (simp add: recv_poll_def)
  next
    case (rearm f')
    let ?g = "f\<lparr>if_timer := None\<rparr>" and ?left = "e + if_timeout f - a\<^sub>2"
    show ?thesis
    proof (cases "tm_try_sleep T a\<^sub>3 ?left")
      case None
      then have "f' = ?g" using rearm(2) by (simp add: arm_def)
      then show ?thesis using rearm(1) None by (auto simp: recv_poll_def)
    next
      case (Some t')
      then have f': "f' = ?g\<lparr>if_timer := Some t'\<rparr>" and a: "arm T a\<^sub>3 ?g ?left = (f', True)"
        using rearm(2) by (simp_all add: arm_def)
      have "remaining ?g a\<^sub>2 = Some ?left" using remaining_head [of ?g e es] f to e clock by simp
      from arm_ok [OF laws this _ _ clock(3,4) a] fired e clock
      have ok': "armed_ok T skew a\<^sub>3 f'" by fastforce
      have "tm_ready T b\<^sub>1 t' \<longleftrightarrow> a\<^sub>3 + ?left \<le> b\<^sub>1" using laws Some by (simp add: timer_laws_def)
      then have due: "tm_ready T b\<^sub>1 t' \<Longrightarrow> e + if_timeout f \<le> b\<^sub>2" using clock rearm(3) by linarith
      have g: "if_fired f' = e # es" "0 < if_timeout f'" "if_timer f' = Some t'" "e \<le> b\<^sub>2"
        using f' f to e clock by simp_all
      from laws ok' g(1-3) clock(5,6) g(4) show ?thesis
      proof (cases rule: timer_loop_round [where ?t\<^sub>3.0 = b\<^sub>3 and ts = "[]" and 'v = 'v])
        case pending
        then show ?thesis using rearm(1) f' f clock armed_ok_later [OF ok' clock(5)] by (simp add: recv_poll_def)
      next
        case expired
        then show ?thesis using rearm(1) f' f clock by (simp add: recv_poll_def)
      next
        case (rearm f'')
        have "b\<^sub>2 < e + if_timeout f" using rearm(3) f' by simp
        then have "\<not> tm_ready T b\<^sub>1 t'" using due by linarith
        then have "timer_loop T ?ts f' = Some (f', Pending :: 'v polled)" using g(3) by simp
        then show ?thesis
          using \<open>timer_loop T ((a\<^sub>1, a\<^sub>2, a\<^sub>3) # ?ts) f = timer_loop T ?ts f'\<close> f' f clock rearm(3)
            armed_ok_later [OF ok' clock(5)] by (simp add: recv_poll_def)
      qed
    qed
  qed
qed

definition clock_timers :: "nat timers" where
  "clock_timers = \<lparr>tm_try_sleep = (\<lambda>now after. Some (now + after)), tm_ready = (\<lambda>now t. t \<le> now)\<rparr>"

lemma clock_timers_laws: "timer_laws clock_timers"
  by (simp add: timer_laws_def clock_timers_def)

text \<open>A timer armed for a request answered since: it fires early, is armed again, and the wait goes on.\<close>

theorem request_timeout_sound_witness:
  "\<exists>f' p. recv_poll clock_timers [(1000, 1001, 1002), (1003, 1004, 1005)] None
     \<lparr>if_fired = [600, 700], if_queued = [], if_track_queued = False, if_timeout = 900, if_timer = Some 1000\<rparr>
       = Some (f', p :: nat polled) \<and> if_fired f' = [600, 700]"
proof -
  let ?f = "\<lparr>if_fired = [600, 700], if_queued = [], if_track_queued = False, if_timeout = 900, if_timer = Some 1000\<rparr>"
  have ok: "armed_ok clock_timers 1 1000 ?f"
    unfolding armed_ok_def by (auto simp: clock_timers_def intro!: exI [of _ 100])
  have p: "if_timer ?f \<noteq> None" "if_fired ?f \<noteq> []" "sorted (if_fired ?f)" "\<forall>e\<in>set (if_fired ?f). e \<le> 1000"
    "0 < if_timeout ?f" by simp_all
  have c: "(1000::nat) \<le> 1000" "(1000::nat) \<le> 1001" "(1001::nat) \<le> 1002" "(1002::nat) \<le> 1001 + 1"
    "(1002::nat) \<le> 1003" "(1003::nat) \<le> 1004" by simp_all
  from request_timeout_sound [OF clock_timers_laws ok p c, of 1005, where 'v = nat]
  show ?thesis by (elim exE conjE) (intro exI conjI, assumption, simp)
qed

end
