(* ===== verification/Connection.thy ===== *)
theory Connection
  imports Requests Routed In_Flight
begin

unbundle bit_operations_syntax

text \<open>
  One RESP or memcache connection driving the workload (\<open>src/worker.rs\<close>, \<open>drive_resp_workload\<close>,
  \<open>drive_memcache_workload\<close> and what they call). The two are one loop: memcache always sends a value
  zero-copy, finds a key by rejection whatever the distribution, and has no redirects
  (\<open>dc_memcache\<close>, \<open>drive_memcache_reply\<close>).

  The function is one loop of the connection's task, cut here at its awaits: \<open>drive_iteration\<close> runs
  from the top of the loop to the point where the task waits, and says what it waits for; then
  \<open>drive_reply\<close> handles a reply, or the connection is given up and \<open>drive_disconnect\<close> requeues what it
  holds. Between two awaits the task runs without another task of its worker; the prefill queues it
  shares with other workers change one locked access at a time, and an iteration is shown here as
  if no other worker's access fell within it.

  The RESP client is a crate: a record of its operations, with what the source says of it as
  \<open>client_laws\<close>. Random draws and key sampling are arguments. Values are offsets into the pool.
  Panics are \<open>None\<close>.
\<close>

section \<open>What a connection works with\<close>

datatype fire =
    Fire_get bytes u64
  | Fire_del bytes u64
  | Fire_set bool bytes nat nat u64 \<comment> \<open>zero-copy, key, offset and length of the value, user data\<close>

fun fire_user_data :: "fire \<Rightarrow> u64" where
  "fire_user_data (Fire_get key ud) = ud"
| "fire_user_data (Fire_del key ud) = ud"
| "fire_user_data (Fire_set zc key off len ud) = ud"

record 'c client_api =
  cl_pending_count :: "'c \<Rightarrow> nat"
  cl_is_alive :: "'c \<Rightarrow> bool"
  cl_fire :: "'c \<Rightarrow> fire \<Rightarrow> bool \<times> 'c"
  cl_flush :: "'c \<Rightarrow> bool \<times> 'c"

text \<open>A uniform draw below a bound, and how the key of the next request is drawn (\<open>KeyDist\<close>).\<close>

record 'g sampling =
  sm_range :: "nat \<Rightarrow> 'g \<Rightarrow> nat \<times> 'g"
  sm_key :: "'g \<Rightarrow> nat \<times> 'g"
  sm_uniform :: bool
  sm_endpoint_keys :: "nat list list"
  sm_by_endpoint :: "(nat \<Rightarrow> 'g \<Rightarrow> nat option \<times> 'g) option"

record drive_config =
  dc_memcache :: bool
  dc_get_ratio :: nat
  dc_delete_ratio :: nat
  dc_value_len :: nat
  dc_pool_len :: nat
  dc_backfill_on_miss :: bool
  dc_num_endpoints :: nat
  dc_pipeline_depth :: nat
  dc_batch_size :: nat
  dc_endpoint_idx :: nat
  dc_key_len :: nat
  dc_key_format :: key_format

record ('c, 'rl, 'g, 't) drive =
  dr_client :: 'c
  dr_rng :: 'g
  dr_carried_tokens :: nat
  dr_prefill_in_flight :: "nat list"
  dr_inflight :: "'t in_flight"
  dr_backfill_queue :: "nat list"
  dr_prefill_queues :: queues
  dr_router :: router
  dr_limiter :: "'rl worker_limiter option"
  dr_pacer :: "'rl prefill_pacer option"
  dr_routed :: "routed_queues option"
  dr_flight :: flight_counters
  dr_metrics :: request_metrics
  dr_latency :: latency_metrics
  dr_requests_sent :: nat
  dr_slip_samples :: nat
  dr_worker_slip :: nat
  dr_confirmed :: nat \<comment> \<open>prefill keys this worker has confirmed\<close>
  dr_backfill_sets :: nat

text \<open>The locals of one iteration. \<open>it_prefill_wait\<close> is the sleep of a refusal held until its end.\<close>

record iter =
  it_fired_count :: nat
  it_starved :: bool
  it_send_failed :: bool
  it_prefill_wait :: "nat option"

abbreviation ZC_VALUE_THRESHOLD :: nat where "ZC_VALUE_THRESHOLD \<equiv> 4096"
abbreviation BACKFILL_QUEUE_CAP :: nat where "BACKFILL_QUEUE_CAP \<equiv> 1024"

section \<open>Firing\<close>

definition value_offset :: "'g sampling \<Rightarrow> nat \<Rightarrow> nat \<Rightarrow> 'g \<Rightarrow> nat \<times> 'g" where
  "value_offset G value_len pool_len g = sm_range G (pool_len - value_len + 1) g"

text \<open>\<open>make_value_guard\<close> keeps 32 bits of the offset and of the length.\<close>

definition set_command :: "'g sampling \<Rightarrow> drive_config \<Rightarrow> bytes \<Rightarrow> u64 \<Rightarrow> 'g \<Rightarrow> fire \<times> 'g" where
  "set_command G cfg key ud g =
     (let (off, g) = value_offset G (dc_value_len cfg) (dc_pool_len cfg) g in
      if dc_memcache cfg \<or> dc_value_len cfg \<ge> ZC_VALUE_THRESHOLD
      then (Fire_set True key (off mod 4294967296) (dc_value_len cfg mod 4294967296) ud, g)
      else (Fire_set False key off (dc_value_len cfg) ud, g))"

definition roll_command :: "'g sampling \<Rightarrow> drive_config \<Rightarrow> bytes \<Rightarrow> nat \<Rightarrow> 'g \<Rightarrow> fire \<times> 'g" where
  "roll_command G cfg key key_id g =
     (let (roll, g) = sm_range G 100 g in
      if roll < dc_get_ratio cfg then (Fire_get key (word_of_nat key_id), g)
      else if roll < dc_get_ratio cfg + dc_delete_ratio cfg then (Fire_del key 0, g)
      else set_command G cfg key 0 g)"

text \<open>
  A fire and its accounting: on success the request is in flight; on failure the client has
  discarded what it had buffered, which leaves \<open>InFlight\<close> and the count of this iteration's requests.
  The number discarded is returned.
\<close>

definition try_fire ::
  "'c client_api \<Rightarrow> nat \<Rightarrow> nat \<Rightarrow> fire \<Rightarrow> ('c, 'rl, 'g, 't) drive \<times> iter \<Rightarrow>
   (('c, 'rl, 'g, 't) drive \<times> iter) \<times> nat option" where
  "try_fire C fired_at queued_ns f di =
     (let (d, it) = di; before = cl_pending_count C (dr_client d); (ok, c) = cl_fire C (dr_client d) f;
          d = d\<lparr>dr_client := c\<rparr> in
      if ok then ((d\<lparr>dr_inflight := push_queued (dr_inflight d) fired_at queued_ns\<rparr>,
                   it\<lparr>it_fired_count := wrapping_add (it_fired_count it) 1\<rparr>), None)
      else let (infl, m, discarded) =
                 note_failed_fire before (cl_pending_count C c) (dr_inflight d) True (dr_flight d)
           in ((d\<lparr>dr_inflight := infl, dr_flight := m\<rparr>,
                it\<lparr>it_fired_count := wrapping_sub (it_fired_count it) discarded\<rparr>), Some discarded))"

section \<open>Filling the pipeline\<close>

text \<open>The prefill SET of a key this endpoint owns: in flight, or it and what was discarded go back.\<close>

definition prefill_send ::
  "'c client_api \<Rightarrow> 'g sampling \<Rightarrow> drive_config \<Rightarrow> nat \<Rightarrow> nat \<Rightarrow> ('c, 'rl, 'g, 't) drive \<times> iter \<Rightarrow>
   ((('c, 'rl, 'g, 't) drive \<times> iter) \<times> bool) option" where
  "prefill_send C G cfg fired_at key_id di =
     (let (d, it) = di; ep = dc_endpoint_idx cfg;
          (f, g) = set_command G cfg (write_key (dc_key_format cfg) (dc_key_len cfg) key_id)
                     (word_of_nat key_id OR PREFILL_MARKER) (dr_rng d)
      in case try_fire C fired_at 0 f (d\<lparr>dr_rng := g\<rparr>, it) of
           ((d, it), None) \<Rightarrow>
             Some ((d\<lparr>dr_prefill_in_flight := dr_prefill_in_flight d @ [key_id]\<rparr>, it), True)
         | ((d, it), Some discarded) \<Rightarrow>
             (case pq_push_front ep key_id (dr_prefill_queues d) of
                None \<Rightarrow> None
              | Some q \<Rightarrow>
                  (case requeue_newest ep discarded (dr_prefill_in_flight d) q of
                     None \<Rightarrow> None
                   | Some (pf, q) \<Rightarrow> Some ((d\<lparr>dr_prefill_queues := q, dr_prefill_in_flight := pf\<rparr>, it), False))))"

text \<open>With the pacer asked first: refused, the key keeps its place and the loop stops. The flag: go on.\<close>

definition prefill_fire ::
  "'rl ratelimit \<Rightarrow> 'c client_api \<Rightarrow> 'g sampling \<Rightarrow> drive_config \<Rightarrow> nat \<Rightarrow> nat \<Rightarrow> ('c, 'rl, 'g, 't) drive \<times> iter \<Rightarrow>
   ((('c, 'rl, 'g, 't) drive \<times> iter) \<times> bool) option" where
  "prefill_fire L C G cfg fired_at key_id di =
     (let (d, it) = di in
      case dr_pacer d of
        None \<Rightarrow> prefill_send C G cfg fired_at key_id (d, it)
      | Some p \<Rightarrow>
          (case pacer_try_take L fired_at p of
             (Inr _, p) \<Rightarrow> prefill_send C G cfg fired_at key_id (d\<lparr>dr_pacer := Some p\<rparr>, it)
           | (Inl sleep, p) \<Rightarrow>
               (case pq_push_front (dc_endpoint_idx cfg) key_id (dr_prefill_queues d) of
                  None \<Rightarrow> None
                | Some q \<Rightarrow> Some ((d\<lparr>dr_pacer := Some p, dr_prefill_queues := q\<rparr>,
                                   it\<lparr>it_prefill_wait := Some sleep\<rparr>), False))))"

definition prefill_body ::
  "'rl ratelimit \<Rightarrow> 'c client_api \<Rightarrow> 'g sampling \<Rightarrow> drive_config \<Rightarrow> nat \<Rightarrow> ('c, 'rl, 'g, 't) drive \<times> iter \<Rightarrow>
   ((('c, 'rl, 'g, 't) drive \<times> iter) \<times> bool) option" where
  "prefill_body L C G cfg fired_at di =
     (let (d, it) = di; ep = dc_endpoint_idx cfg in
      case pq_pop_front ep (dr_prefill_queues d) of
        None \<Rightarrow> None
      | Some (q, None) \<Rightarrow> Some ((d, it), False)
      | Some (q, Some key_id) \<Rightarrow>
          let d = d\<lparr>dr_prefill_queues := q\<rparr>;
              key = write_key (dc_key_format cfg) (dc_key_len cfg) key_id
          in if dc_num_endpoints cfg > 1 then
               (case route_key (dr_router d) (dc_num_endpoints cfg) key of
                  None \<Rightarrow> None
                | Some r \<Rightarrow>
                    if r \<noteq> ep then
                      (case pq_push_back r key_id q of
                         None \<Rightarrow> None
                       | Some q \<Rightarrow> Some ((d\<lparr>dr_prefill_queues := q\<rparr>, it), True))
                    else prefill_fire L C G cfg fired_at key_id (d, it))
             else prefill_fire L C G cfg fired_at key_id (d, it))"

text \<open>
  The loop over the queue. Every round that goes on has taken a key from this endpoint's queue for
  good, so as many rounds as the queue holds keys, and one more, are enough (\<open>prefill_fill\<close>).
\<close>

fun prefill_loop ::
  "nat \<Rightarrow> 'rl ratelimit \<Rightarrow> 'c client_api \<Rightarrow> 'g sampling \<Rightarrow> drive_config \<Rightarrow> nat \<Rightarrow> ('c, 'rl, 'g, 't) drive \<times> iter \<Rightarrow>
   (('c, 'rl, 'g, 't) drive \<times> iter) option" where
  "prefill_loop 0 L C G cfg fired_at di = None"
| "prefill_loop (Suc fuel) L C G cfg fired_at di =
     (if cl_pending_count C (dr_client (fst di)) < dc_pipeline_depth cfg then
        (case prefill_body L C G cfg fired_at di of
           None \<Rightarrow> None
         | Some (di, True) \<Rightarrow> prefill_loop fuel L C G cfg fired_at di
         | Some (di, False) \<Rightarrow> Some di)
      else Some di)"

definition prefill_fill ::
  "'rl ratelimit \<Rightarrow> 'c client_api \<Rightarrow> 'g sampling \<Rightarrow> drive_config \<Rightarrow> nat \<Rightarrow> ('c, 'rl, 'g, 't) drive \<times> iter \<Rightarrow>
   (('c, 'rl, 'g, 't) drive \<times> iter) option" where
  "prefill_fill L C G cfg fired_at di =
     prefill_loop (Suc (length (dr_prefill_queues (fst di) ! dc_endpoint_idx cfg))) L C G cfg fired_at di"

text \<open>
  A backfill SET of the newest key in the backfill queue, fired; on failure the key goes back.
  The flag: go on.
\<close>

definition backfill_fire ::
  "'c client_api \<Rightarrow> 'g sampling \<Rightarrow> drive_config \<Rightarrow> nat \<Rightarrow> nat \<Rightarrow> ('c, 'rl, 'g, 't) drive \<times> iter \<Rightarrow>
   (('c, 'rl, 'g, 't) drive \<times> iter) \<times> bool" where
  "backfill_fire C G cfg fired_at key_id di =
     (let (d, it) = di;
          (f, g) = set_command G cfg (write_key (dc_key_format cfg) (dc_key_len cfg) key_id)
                     (word_of_nat key_id OR BACKFILL_MARKER) (dr_rng d)
      in case try_fire C fired_at 0 f (d\<lparr>dr_rng := g\<rparr>, it) of
           (di, None) \<Rightarrow> (di, True)
         | ((d, it), Some _) \<Rightarrow> ((d\<lparr>dr_backfill_queue := dr_backfill_queue d @ [key_id]\<rparr>, it), False))"

text \<open>Routed: one round of the loop. A token for a backfill comes from the limiter.\<close>

definition routed_body ::
  "'rl ratelimit \<Rightarrow> 'c client_api \<Rightarrow> 'g sampling \<Rightarrow> drive_config \<Rightarrow> nat \<Rightarrow> nat \<Rightarrow> routed_queues \<Rightarrow>
   ('c, 'rl, 'g, 't) drive \<times> iter \<Rightarrow> (('c, 'rl, 'g, 't) drive \<times> iter) \<times> bool" where
  "routed_body L C G cfg now fired_at queues di =
     (let (d, it) = di;
          (d, backfill) =
            (if dr_backfill_queue d \<noteq> [] then
               (case dr_limiter d of
                  None \<Rightarrow> (d, None)
                | Some rl \<Rightarrow>
                    (case limiter_try_wait L now rl of
                       (Inr _, rl) \<Rightarrow> (d\<lparr>dr_limiter := Some rl, dr_backfill_queue := butlast (dr_backfill_queue d)\<rparr>,
                                       Some (last (dr_backfill_queue d)))
                     | (Inl _, rl) \<Rightarrow> (d\<lparr>dr_limiter := Some rl\<rparr>, None)))
             else (d, None))
      in case backfill of
           Some key_id \<Rightarrow>
             (case backfill_fire C G cfg fired_at key_id (d, it) of
                (di, True) \<Rightarrow> (di, True)
              | ((d, it), False) \<Rightarrow> ((d, it\<lparr>it_send_failed := True\<rparr>), False))
         | None \<Rightarrow>
             (case routed_pop queues (dc_endpoint_idx cfg) of
                (_, None) \<Rightarrow> ((d, it), False)
              | (queues, Some request) \<Rightarrow>
                  let d = d\<lparr>dr_routed := Some queues\<rparr>;
                      queued_ns = fired_at - rr_funded_at request;
                      (f, g) = roll_command G cfg (write_key (dc_key_format cfg) (dc_key_len cfg) (rr_key_id request))
                                 (rr_key_id request) (dr_rng d)
                  in case try_fire C fired_at queued_ns f (d\<lparr>dr_rng := g\<rparr>, it) of
                       (di, None) \<Rightarrow> (di, True)
                     | ((d, it), Some _) \<Rightarrow> ((d, it\<lparr>it_send_failed := True\<rparr>), False)))"

fun routed_loop ::
  "nat \<Rightarrow> 'rl ratelimit \<Rightarrow> 'c client_api \<Rightarrow> 'g sampling \<Rightarrow> drive_config \<Rightarrow> nat \<Rightarrow> nat \<Rightarrow>
   ('c, 'rl, 'g, 't) drive \<times> iter \<Rightarrow> (('c, 'rl, 'g, 't) drive \<times> iter) option" where
  "routed_loop 0 L C G cfg now fired_at di = None"
| "routed_loop (Suc fuel) L C G cfg now fired_at di =
     (if cl_pending_count C (dr_client (fst di)) < dc_pipeline_depth cfg then
        (case dr_routed (fst di) of
           None \<Rightarrow> Some di
         | Some queues \<Rightarrow>
             (case routed_body L C G cfg now fired_at queues di of
                (di, True) \<Rightarrow> routed_loop fuel L C G cfg now fired_at di
              | (di, False) \<Rightarrow> Some di))
      else Some di)"

text \<open>The tokens of this iteration: carried ones first, else a full batch from the limiter or none.\<close>

definition token_budget ::
  "'rl ratelimit \<Rightarrow> drive_config \<Rightarrow> nat \<Rightarrow> ('c, 'rl, 'g, 't) drive \<times> iter \<Rightarrow> (('c, 'rl, 'g, 't) drive \<times> iter) \<times> nat" where
  "token_budget L cfg now di =
     (let (d, it) = di in
      case dr_limiter d of
        None \<Rightarrow> ((d, it), dc_batch_size cfg)
      | Some rl \<Rightarrow>
          if dr_carried_tokens d > 0 then ((d\<lparr>dr_carried_tokens := 0\<rparr>, it), dr_carried_tokens d)
          else let n = min (dc_batch_size cfg) (limiter_max_tokens L rl) in
               if n = 0 then ((d, it\<lparr>it_starved := True\<rparr>), 0)
               else (case limiter_try_wait_n L now n rl of
                       (Inr _, rl) \<Rightarrow> ((d\<lparr>dr_limiter := Some rl\<rparr>, it), n)
                     | (Inl _, rl) \<Rightarrow> ((d\<lparr>dr_limiter := Some rl\<rparr>, it\<lparr>it_starved := True\<rparr>), 0)))"

definition max_routing_attempts :: "nat \<Rightarrow> nat" where
  "max_routing_attempts num_endpoints = max (saturating_mul num_endpoints 64) 64"

text \<open>The rejection loop: up to \<open>n\<close> draws for a key that routes here. The outer option is a panic.\<close>

fun reject_route :: "'g sampling \<Rightarrow> drive_config \<Rightarrow> router \<Rightarrow> nat \<Rightarrow> 'g \<Rightarrow> (nat option \<times> 'g) option" where
  "reject_route G cfg R 0 g = Some (None, g)"
| "reject_route G cfg R (Suc n) g =
     (let (k, g) = sm_key G g in
      case route_key R (dc_num_endpoints cfg) (write_key (dc_key_format cfg) (dc_key_len cfg) k) of
        None \<Rightarrow> None
      | Some r \<Rightarrow> if r = dc_endpoint_idx cfg then Some (Some k, g) else reject_route G cfg R n g)"

definition pick_key :: "'g sampling \<Rightarrow> drive_config \<Rightarrow> router \<Rightarrow> 'g \<Rightarrow> (nat option \<times> 'g) option" where
  "pick_key G cfg R g =
     (if dc_num_endpoints cfg \<le> 1 then (let (k, g) = sm_key G g in Some (Some k, g))
      else if dc_memcache cfg then reject_route G cfg R (max_routing_attempts (dc_num_endpoints cfg)) g
      else if sm_uniform G then
        if dc_endpoint_idx cfg < length (sm_endpoint_keys G) then
          let bucket = sm_endpoint_keys G ! dc_endpoint_idx cfg in
          if bucket = [] then Some (None, g)
          else let (i, g) = sm_range G (length bucket) g in Some (Some (bucket ! i), g)
        else None
      else case sm_by_endpoint G of
             Some by_endpoint \<Rightarrow> Some (by_endpoint (dc_endpoint_idx cfg) g)
           | None \<Rightarrow> reject_route G cfg R (max_routing_attempts (dc_num_endpoints cfg)) g)"

text \<open>
  The unrouted loop, by the tokens left: each round spends one token or stops. \<open>slip\<close> is the sample
  added for each request sent, when a limiter is configured.
\<close>

fun workload_loop ::
  "nat \<Rightarrow> 'c client_api \<Rightarrow> 'g sampling \<Rightarrow> drive_config \<Rightarrow> nat \<Rightarrow> bool \<Rightarrow> ('c, 'rl, 'g, 't) drive \<times> iter \<Rightarrow>
   (('c, 'rl, 'g, 't) drive \<times> iter) option" where
  "workload_loop 0 C G cfg fired_at slip di = Some di"
| "workload_loop (Suc budget) C G cfg fired_at slip (d, it) =
     (let sample = (\<lambda>d. if slip then d\<lparr>dr_slip_samples := dr_slip_samples d + 1\<rparr> else d) in
      if cl_pending_count C (dr_client d) < dc_pipeline_depth cfg then
        if dr_backfill_queue d \<noteq> [] then
          (case backfill_fire C G cfg fired_at (last (dr_backfill_queue d))
                  (d\<lparr>dr_backfill_queue := butlast (dr_backfill_queue d)\<rparr>, it) of
             ((d, it), True) \<Rightarrow> workload_loop budget C G cfg fired_at slip (sample d, it)
           | (di, False) \<Rightarrow> Some di)
        else
          (case pick_key G cfg (dr_router d) (dr_rng d) of
             None \<Rightarrow> None
           | Some (None, g) \<Rightarrow> Some (d\<lparr>dr_rng := g\<rparr>, it)
           | Some (Some key_id, g) \<Rightarrow>
               let (f, g) = roll_command G cfg (write_key (dc_key_format cfg) (dc_key_len cfg) key_id) key_id g
               in case try_fire C fired_at 0 f (d\<lparr>dr_rng := g\<rparr>, it) of
                    ((d, it), None) \<Rightarrow> workload_loop budget C G cfg fired_at slip (sample d, it)
                  | (di, Some _) \<Rightarrow> Some di)
      else Some (d, it))"

definition workload_fill ::
  "'rl ratelimit \<Rightarrow> 'c client_api \<Rightarrow> 'g sampling \<Rightarrow> drive_config \<Rightarrow> nat \<Rightarrow> nat \<Rightarrow> ('c, 'rl, 'g, 't) drive \<times> iter \<Rightarrow>
   (('c, 'rl, 'g, 't) drive \<times> iter) option" where
  "workload_fill L C G cfg now fired_at di =
     (let ((d, it), budget) = token_budget L cfg now di;
          d = (case dr_limiter d of Some rl \<Rightarrow> d\<lparr>dr_worker_slip := limiter_slip_ns L rl\<rparr> | None \<Rightarrow> d)
      in workload_loop budget C G cfg fired_at (dr_limiter d \<noteq> None) (d, it))"

section \<open>One iteration\<close>

text \<open>Sending what was buffered; a failed flush discards it, and in prefill its keys go back.\<close>

definition flush_batch ::
  "'rl ratelimit \<Rightarrow> 'c client_api \<Rightarrow> drive_config \<Rightarrow> phase \<Rightarrow> ('c, 'rl, 'g, 't) drive \<times> iter \<Rightarrow>
   (('c, 'rl, 'g, 't) drive \<times> iter) option" where
  "flush_batch L C cfg ph di =
     (let (d, it) = di; before = cl_pending_count C (dr_client d); (ok, c) = cl_flush C (dr_client d);
          d = d\<lparr>dr_client := c\<rparr>;
          flushed =
            (if ok then Some (d, it)
             else let (infl, m, discarded) =
                        note_discarded before (cl_pending_count C c) (dr_inflight d) True (dr_flight d);
                      d = d\<lparr>dr_inflight := infl, dr_flight := m\<rparr>;
                      it = it\<lparr>it_fired_count := wrapping_sub (it_fired_count it) discarded\<rparr>
                  in if ph = Prefill then
                       (case requeue_newest (dc_endpoint_idx cfg) discarded (dr_prefill_in_flight d)
                               (dr_prefill_queues d) of
                          None \<Rightarrow> None
                        | Some (pf, q) \<Rightarrow> Some (d\<lparr>dr_prefill_queues := q, dr_prefill_in_flight := pf\<rparr>, it))
                     else Some (d, it))
      in case flushed of
           None \<Rightarrow> None
         | Some (d, it) \<Rightarrow>
             let d = d\<lparr>dr_requests_sent := wrapping_add (dr_requests_sent d) (it_fired_count it)\<rparr>
             in Some (case dr_limiter d of
                        Some rl \<Rightarrow> (d\<lparr>dr_worker_slip := limiter_slip_ns L rl\<rparr>, it)
                      | None \<Rightarrow> (d, it)))"

datatype drive_await =
    Return_ok
  | Disconnect disconnect_reason
  | Wait_node
  | Acquire nat
  | Nap nat
  | Wait_node_or_reply
  | Recv_reply

text \<open>
  Where the loop waits. \<open>dispatching\<close>: this worker has a dispatcher. \<open>recv_ready\<close>: the client can
  report that a reply has started to arrive.
\<close>

definition drive_wait ::
  "'c client_api \<Rightarrow> drive_config \<Rightarrow> phase \<Rightarrow> bool \<Rightarrow> bool \<Rightarrow> ('c, 'rl, 'g, 't) drive \<times> iter \<Rightarrow> drive_await" where
  "drive_wait C cfg ph dispatching recv_ready di =
     (let (d, it) = di; pending = cl_pending_count C (dr_client d);
          routing = (dr_routed d \<noteq> None \<and> (ph = Warmup \<or> ph = Running) \<and> \<not> it_send_failed it) in
      if pending = 0 then
        if routing then Wait_node
        else if dispatching \<and> it_starved it then Acquire (dc_batch_size cfg)
        else Nap (case it_prefill_wait it of None \<Rightarrow> IDLE_SLEEP_MIN | Some s \<Rightarrow> max s IDLE_SLEEP_MIN)
      else if routing \<and> dc_pipeline_depth cfg - pending \<ge> dc_batch_size cfg \<and> recv_ready then Wait_node_or_reply
      else Recv_reply)"

text \<open>Keys of a connection that is given up go back to the queues of their current owners.\<close>

definition drive_disconnect ::
  "drive_config \<Rightarrow> ('c, 'rl, 'g, 't) drive \<Rightarrow> ('c, 'rl, 'g, 't) drive option" where
  "drive_disconnect cfg d =
     (case requeue_drained (dr_router d) (dc_key_format cfg) (dc_key_len cfg) (dc_num_endpoints cfg)
             (dr_prefill_in_flight d) (dr_prefill_queues d) of
        None \<Rightarrow> None
      | Some q \<Rightarrow> Some (d\<lparr>dr_prefill_queues := q, dr_prefill_in_flight := []\<rparr>))"

definition drive_iteration ::
  "'rl ratelimit \<Rightarrow> 'c client_api \<Rightarrow> 'g sampling \<Rightarrow> drive_config \<Rightarrow> phase \<Rightarrow> bool \<Rightarrow> bool \<Rightarrow> bool \<Rightarrow> nat \<Rightarrow> nat \<Rightarrow>
   ('c, 'rl, 'g, 't) drive \<Rightarrow> (('c, 'rl, 'g, 't) drive \<times> iter \<times> drive_await) option" where
  "drive_iteration L C G cfg ph prefill_done dispatching recv_ready now fired_at d =
     (let it = \<lparr>it_fired_count = 0, it_starved = False, it_send_failed = False, it_prefill_wait = None\<rparr> in
      if should_stop ph then Some (d, it, Return_ok)
      else if cl_pending_count C (dr_client d) = 0 \<and> \<not> cl_is_alive C (dr_client d) then
        map_option (\<lambda>d. (d, it, Disconnect Eof)) (drive_disconnect cfg d)
      else
        let want_fire = (dc_pipeline_depth cfg - cl_pending_count C (dr_client d) \<ge> dc_batch_size cfg);
            filled =
              (if ph = Prefill \<and> \<not> prefill_done then
                 if want_fire then prefill_fill L C G cfg fired_at (d, it) else Some (d, it)
               else if (ph = Warmup \<or> ph = Running) \<and> want_fire then
                 if dr_routed d \<noteq> None
                 then routed_loop (Suc (dc_pipeline_depth cfg)) L C G cfg now fired_at (d, it)
                 else workload_fill L C G cfg now fired_at (d, it)
               else Some (d, it))
        in case filled of
             None \<Rightarrow> None
           | Some di \<Rightarrow>
               (case flush_batch L C cfg ph di of
                  None \<Rightarrow> None
                | Some (d, it) \<Rightarrow> Some (d, it, drive_wait C cfg ph dispatching recv_ready (d, it))))"

section \<open>A reply\<close>

text \<open>\<open>confirm_prefill_key\<close>, on this worker's counter; the run's own counters are in \<open>Shared_State\<close>.\<close>

definition note_prefill ::
  "drive_config \<Rightarrow> request_result \<Rightarrow> ('c, 'rl, 'g, 't) drive \<Rightarrow> ('c, 'rl, 'g, 't) drive option" where
  "note_prefill cfg r d =
     (if rq_prefill r then
        (case (dr_prefill_in_flight d, rq_key_id r) of
           ([], None) \<Rightarrow> None
         | (pf, k) \<Rightarrow>
             let key_id = (case pf of x # _ \<Rightarrow> x | [] \<Rightarrow> the k); d = d\<lparr>dr_prefill_in_flight := tl pf\<rparr> in
             if rq_success r then Some (d\<lparr>dr_confirmed := dr_confirmed d + 1\<rparr>)
             else map_option (\<lambda>q. d\<lparr>dr_prefill_queues := q\<rparr>)
                    (pq_push_back (dc_endpoint_idx cfg) key_id (dr_prefill_queues d)))
      else Some d)"

definition note_backfill :: "drive_config \<Rightarrow> request_result \<Rightarrow> ('c, 'rl, 'g, 't) drive \<Rightarrow> ('c, 'rl, 'g, 't) drive" where
  "note_backfill cfg r d =
     (let d = (case rq_key_id r of
                 Some key_id \<Rightarrow>
                   if dc_backfill_on_miss cfg \<and> rq_request_type r = Get \<and> rq_success r \<and> rq_hit r = Some False \<and>
                      length (dr_backfill_queue d) < BACKFILL_QUEUE_CAP
                   then d\<lparr>dr_backfill_queue := dr_backfill_queue d @ [key_id]\<rparr> else d
               | None \<Rightarrow> d)
      in if rq_backfill r \<and> rq_request_type r = Set \<and> rq_success r
         then d\<lparr>dr_backfill_sets := dr_backfill_sets d + 1\<rparr> else d)"

text \<open>From the reply to the end of the loop body. \<open>c\<close> is the client once the reply has been taken from it.\<close>

definition drive_reply ::
  "(string \<Rightarrow> nat option) \<Rightarrow> drive_config \<Rightarrow> 'c \<Rightarrow> request_result \<Rightarrow> ('c, 'rl, 'g, 't) drive \<Rightarrow>
   ('c, 'rl, 'g, 't) drive option" where
  "drive_reply endpoint_of cfg c r d =
     (let (infl, queued_ns) = inflight_pop (dr_inflight d);
          d = d\<lparr>dr_client := c, dr_inflight := infl\<rparr> in
      case note_prefill cfg r d of
        None \<Rightarrow> None
      | Some d \<Rightarrow>
          let d = note_backfill cfg r d;
              redirected =
                (case rq_redirect r of
                   None \<Rightarrow> Some d
                 | Some rd \<Rightarrow>
                     (case check_resp_redirect_parsed endpoint_of rd (rt_slot_table (dr_router d)) (dr_metrics d) of
                        None \<Rightarrow> None
                      | Some (tbl, m) \<Rightarrow> Some (d\<lparr>dr_router := (dr_router d)\<lparr>rt_slot_table := tbl\<rparr>, dr_metrics := m\<rparr>)))
          in case redirected of
               None \<Rightarrow> None
             | Some d \<Rightarrow>
                 let d = d\<lparr>dr_metrics := record_counters r (dr_metrics d)\<rparr>
                 in Some (if dr_routed d \<noteq> None
                          then d\<lparr>dr_latency := record_routed_latency (dr_worker_slip d) r queued_ns (dr_latency d)\<rparr>
                          else d))"

section \<open>The memcache connection\<close>

definition drive_memcache_iteration ::
  "'rl ratelimit \<Rightarrow> 'c client_api \<Rightarrow> 'g sampling \<Rightarrow> drive_config \<Rightarrow> phase \<Rightarrow> bool \<Rightarrow> bool \<Rightarrow> bool \<Rightarrow> nat \<Rightarrow> nat \<Rightarrow>
   ('c, 'rl, 'g, 't) drive \<Rightarrow> (('c, 'rl, 'g, 't) drive \<times> iter \<times> drive_await) option" where
  "drive_memcache_iteration L C G cfg ph prefill_done dispatching recv_ready now fired_at d =
     drive_iteration L C G (cfg\<lparr>dc_memcache := True\<rparr>) ph prefill_done dispatching recv_ready now fired_at d"

text \<open>A memcache reply names no redirect, so the slot table and the endpoints play no part.\<close>

definition drive_memcache_reply ::
  "drive_config \<Rightarrow> 'c \<Rightarrow> mc_op \<Rightarrow> ('c, 'rl, 'g, 't) drive \<Rightarrow> ('c, 'rl, 'g, 't) drive option" where
  "drive_memcache_reply cfg c op d = drive_reply (\<lambda>_. None) (cfg\<lparr>dc_memcache := True\<rparr>) c (map_memcache_op op) d"

lemma map_memcache_no_redirect [simp]: "rq_redirect (map_memcache_op op) = None"
  by (cases op) (auto simp: map_memcache_op_def split: sum.splits option.splits prod.splits)

section \<open>What is in flight is what the client has pending\<close>

text \<open>
  What the source relies on of the client. \<open>pend\<close> is the user data of the requests it will report
  replies for, oldest first, and \<open>unf\<close> how many of them it still buffers: a failed fire or flush
  discards only buffered ones, which are the newest.
\<close>

definition client_laws :: "'c client_api \<Rightarrow> ('c \<Rightarrow> u64 list) \<Rightarrow> ('c \<Rightarrow> nat) \<Rightarrow> bool" where
  "client_laws C pend unf \<longleftrightarrow>
     (\<forall>c. cl_pending_count C c = length (pend c) \<and> unf c \<le> length (pend c)) \<and>
     (\<forall>c f ok c'. cl_fire C c f = (ok, c') \<longrightarrow>
        (if ok then pend c' = pend c @ [fire_user_data f] \<and> unf c' \<le> unf c + 1
         else \<exists>n\<le>unf c. pend c' = take (length (pend c) - n) (pend c) \<and> unf c' = unf c - n)) \<and>
     (\<forall>c ok c'. cl_flush C c = (ok, c') \<longrightarrow>
        (if ok then pend c' = pend c \<and> unf c' = 0
         else \<exists>n\<le>unf c. pend c' = take (length (pend c) - n) (pend c) \<and> unf c' = 0))"

definition prefill_ids :: "u64 list \<Rightarrow> nat list" where
  "prefill_ids uds = map user_data_id (filter (\<lambda>ud. bit ud 62) uds)"

definition drive_sync :: "('c \<Rightarrow> u64 list) \<Rightarrow> ('c, 'rl, 'g, 't) drive \<Rightarrow> bool" where
  "drive_sync pend d \<longleftrightarrow>
     inflight_inv (dr_inflight d) \<and> length (if_fired (dr_inflight d)) = length (pend (dr_client d)) \<and>
     dr_prefill_in_flight d = prefill_ids (pend (dr_client d))"

text \<open>The buffered requests are all prefill SETs.\<close>

definition buffered_prefill :: "('c \<Rightarrow> u64 list) \<Rightarrow> ('c \<Rightarrow> nat) \<Rightarrow> 'c \<Rightarrow> bool" where
  "buffered_prefill pend unf c \<longleftrightarrow> (\<forall>ud\<in>set (drop (length (pend c) - unf c) (pend c)). bit ud 62)"

lemma prefill_ids_append [simp]: "prefill_ids (a @ b) = prefill_ids a @ prefill_ids b"
  by (simp add: prefill_ids_def)

lemma prefill_ids_all: "\<forall>ud\<in>set uds. bit ud 62 \<Longrightarrow> length (prefill_ids uds) = length uds"
  by (simp add: prefill_ids_def)

text \<open>Dropping buffered prefill SETs drops as many keys.\<close>

lemma prefill_ids_drop_newest:
  assumes "n \<le> u" and "u \<le> length p" and "\<forall>ud\<in>set (drop (length p - u) p). bit ud 62"
  shows "prefill_ids (take (length p - n) p) = take (length (prefill_ids p) - n) (prefill_ids p)"
proof -
  have "\<forall>ud\<in>set (drop (length p - n) p). bit ud 62"
    using assms by (meson diff_le_mono2 set_drop_subset_set_drop subsetD)
  then have "length (prefill_ids (drop (length p - n) p)) = n" using prefill_ids_all assms(1,2) by fastforce
  moreover have "prefill_ids p = prefill_ids (take (length p - n) p) @ prefill_ids (drop (length p - n) p)"
    by (metis append_take_drop_id prefill_ids_append)
  ultimately show ?thesis by (metis add_diff_cancel_right' append_eq_conv_conj length_append)
qed

lemma forget_newest_len:
  "inflight_inv f \<Longrightarrow> length (if_fired (forget_newest f n)) = length (if_fired f) - n"
  by (simp add: forget_newest_def Let_def)

lemma client_lawsD:
  assumes "client_laws C pend unf"
  shows "cl_pending_count C c = length (pend c)" and "unf c \<le> length (pend c)"
    and "cl_fire C c f = (True, c') \<Longrightarrow> pend c' = pend c @ [fire_user_data f] \<and> unf c' \<le> unf c + 1"
    and "cl_fire C c f = (False, c') \<Longrightarrow>
      \<exists>n\<le>unf c. pend c' = take (length (pend c) - n) (pend c) \<and> unf c' = unf c - n"
    and "cl_flush C c = (True, c') \<Longrightarrow> pend c' = pend c \<and> unf c' = 0"
    and "cl_flush C c = (False, c') \<Longrightarrow> \<exists>n\<le>unf c. pend c' = take (length (pend c) - n) (pend c) \<and> unf c' = 0"
proof -
  note L = assms [unfolded client_laws_def]
  show "cl_pending_count C c = length (pend c)" "unf c \<le> length (pend c)" using L by simp_all
  have fire: "\<And>ok. cl_fire C c f = (ok, c') \<Longrightarrow>
      if ok then pend c' = pend c @ [fire_user_data f] \<and> unf c' \<le> unf c + 1
      else \<exists>n\<le>unf c. pend c' = take (length (pend c) - n) (pend c) \<and> unf c' = unf c - n"
    by (rule L [THEN conjunct2, THEN conjunct1, rule_format])
  have flush: "\<And>ok. cl_flush C c = (ok, c') \<Longrightarrow>
      if ok then pend c' = pend c \<and> unf c' = 0
      else \<exists>n\<le>unf c. pend c' = take (length (pend c) - n) (pend c) \<and> unf c' = 0"
    by (rule L [THEN conjunct2, THEN conjunct2, rule_format])
  show "cl_fire C c f = (True, c') \<Longrightarrow> pend c' = pend c @ [fire_user_data f] \<and> unf c' \<le> unf c + 1"
    using fire [of True] by simp
  show "cl_fire C c f = (False, c') \<Longrightarrow>
      \<exists>n\<le>unf c. pend c' = take (length (pend c) - n) (pend c) \<and> unf c' = unf c - n"
    using fire [of False] by simp
  show "cl_flush C c = (True, c') \<Longrightarrow> pend c' = pend c \<and> unf c' = 0" using flush [of True] by simp
  show "cl_flush C c = (False, c') \<Longrightarrow> \<exists>n\<le>unf c. pend c' = take (length (pend c) - n) (pend c) \<and> unf c' = 0"
    using flush [of False] by simp
qed

lemma try_fire_spec:
  assumes laws: "client_laws C pend unf" and inv: "inflight_inv (dr_inflight d)"
    and len: "length (if_fired (dr_inflight d)) = length (pend (dr_client d))"
    and tf: "try_fire C fired_at q f (d, it) = ((d', it'), r)"
  shows "\<exists>c infl fl. d' = d\<lparr>dr_client := c, dr_inflight := infl, dr_flight := fl\<rparr> \<and> inflight_inv infl \<and>
    length (if_fired infl) = length (pend c) \<and>
    (case r of
       None \<Rightarrow> pend c = pend (dr_client d) @ [fire_user_data f] \<and> unf c \<le> unf (dr_client d) + 1 \<and>
         it' = it\<lparr>it_fired_count := wrapping_add (it_fired_count it) 1\<rparr>
     | Some n \<Rightarrow> n \<le> unf (dr_client d) \<and> pend c = take (length (pend (dr_client d)) - n) (pend (dr_client d)) \<and>
         unf c = unf (dr_client d) - n \<and> it' = it\<lparr>it_fired_count := wrapping_sub (it_fired_count it) n\<rparr>)"
proof -
  obtain ok c where f: "cl_fire C (dr_client d) f = (ok, c)" by fastforce
  have cnt: "cl_pending_count C c = length (pend c)" "unf c \<le> length (pend c)" for c
    using laws by (auto simp: client_laws_def)
  show ?thesis
  proof (cases ok)
    case True
    then have p: "pend c = pend (dr_client d) @ [fire_user_data f]" "unf c \<le> unf (dr_client d) + 1"
      using client_lawsD(3) [OF laws] f by auto
    let ?i = "push_queued (dr_inflight d) fired_at q"
    have "length (if_fired ?i) = length (pend c)" using len p by (simp add: push_queued_def Let_def)
    moreover have "d' = d\<lparr>dr_client := c, dr_inflight := ?i, dr_flight := dr_flight d\<rparr>"
      "r = None" "it' = it\<lparr>it_fired_count := wrapping_add (it_fired_count it) 1\<rparr>"
      using tf f True by (auto simp: try_fire_def Let_def)
    ultimately show ?thesis using p inflight_ops_inv(1) [OF inv] by fastforce
  next
    case False
    then obtain n where n: "n \<le> unf (dr_client d)" "pend c = take (length (pend (dr_client d)) - n) (pend (dr_client d))"
      "unf c = unf (dr_client d) - n"
      using client_lawsD(4) [OF laws, of "dr_client d" f c] f by auto
    have "length (pend c) = length (pend (dr_client d)) - n" "n \<le> length (pend (dr_client d))"
      using n cnt(2) [of "dr_client d"] by auto
    then have disc: "cl_pending_count C (dr_client d) - cl_pending_count C c = n" by (simp add: cnt(1))
    let ?i = "forget_newest (dr_inflight d) n"
    obtain fl where "d' = d\<lparr>dr_client := c, dr_inflight := ?i, dr_flight := fl\<rparr>" "r = Some n"
      "it' = it\<lparr>it_fired_count := wrapping_sub (it_fired_count it) n\<rparr>"
      using tf f False disc by (auto simp: try_fire_def Let_def note_failed_fire_def note_discarded_def)
    moreover have "length (if_fired ?i) = length (pend c)"
      using forget_newest_len [OF inv] len n(2) by simp
    ultimately show ?thesis using n inflight_ops_inv(3) [OF inv] by fastforce
  qed
qed

section \<open>No prefill key is lost\<close>

definition all_keys :: "('c, 'rl, 'g, 't) drive \<Rightarrow> nat multiset" where
  "all_keys d = mset (concat (dr_prefill_queues d)) + mset (dr_prefill_in_flight d)"

text \<open>A connection whose endpoint exists, with a router into the queues and ids that fit the marker.\<close>

definition drive_ready :: "drive_config \<Rightarrow> ('c, 'rl, 'g, 't) drive \<Rightarrow> bool" where
  "drive_ready cfg d \<longleftrightarrow>
     dc_endpoint_idx cfg < length (dr_prefill_queues d) \<and>
     length (dr_prefill_queues d) = max (dc_num_endpoints cfg) 1 \<and>
     router_ok (dr_router d) (length (dr_prefill_queues d)) \<and>
     (\<forall>k\<in>#all_keys d. k < 2 ^ 61)"

definition prefill_state ::
  "('c \<Rightarrow> u64 list) \<Rightarrow> ('c \<Rightarrow> nat) \<Rightarrow> drive_config \<Rightarrow> nat multiset \<Rightarrow> ('c, 'rl, 'g, 't) drive \<Rightarrow> bool" where
  "prefill_state pend unf cfg K d \<longleftrightarrow>
     drive_sync pend d \<and> buffered_prefill pend unf (dr_client d) \<and> drive_ready cfg d \<and> all_keys d = K"

lemma mset_concat_update:
  "e < length q \<Longrightarrow> mset (concat (q[e := x])) + mset (q ! e) = mset (concat q) + mset x"
proof (induction q arbitrary: e)
  case (Cons a q)
  then show ?case by (cases e) (auto simp: add.assoc add.commute add.left_commute)
qed simp

lemma mset_pop_front:
  assumes "pq_pop_front ep q = Some (q', Some k)"
  shows "mset (concat q) = add_mset k (mset (concat q'))" "length q' = length q" "ep < length q"
    "q ! ep = k # q' ! ep" "j \<noteq> ep \<Longrightarrow> q' ! j = q ! j"
proof -
  obtain ks where e: "ep < length q" "q ! ep = k # ks" "q' = q[ep := ks]"
    using assms by (auto simp: pq_pop_front_def split: if_splits list.splits)
  have "mset (concat q') + mset (q ! ep) = mset (concat q) + mset ks"
    unfolding e(3) by (rule mset_concat_update [OF e(1)])
  then show "mset (concat q) = add_mset k (mset (concat q'))" using e(2) by simp
  show "length q' = length q" "ep < length q" "q ! ep = k # q' ! ep" "j \<noteq> ep \<Longrightarrow> q' ! j = q ! j"
    using e by simp_all
qed

lemma mset_push_front:
  assumes "ep < length q"
  shows "\<exists>q'. pq_push_front ep k q = Some q' \<and> mset (concat q') = add_mset k (mset (concat q)) \<and> length q' = length q"
  using assms mset_concat_update [OF assms, of "k # q ! ep"] by (simp add: pq_push_front_def)

lemma mset_push_back:
  assumes "ep < length q"
  shows "\<exists>q'. pq_push_back ep k q = Some q' \<and> mset (concat q') = add_mset k (mset (concat q)) \<and> length q' = length q \<and>
    (\<forall>j. j \<noteq> ep \<longrightarrow> q' ! j = q ! j)"
  using assms mset_concat_update [OF assms, of "q ! ep @ [k]"] by (simp add: pq_push_back_def)

lemma mset_requeue_newest:
  assumes "ep < length q"
  shows "\<exists>pf q'. requeue_newest ep n ks q = Some (pf, q') \<and> pf = take (length ks - n) ks \<and>
    mset (concat q') + mset pf = mset (concat q) + mset ks \<and> length q' = length q"
proof -
  let ?q = "q[ep := drop (length ks - n) ks @ q ! ep]"
  have "mset (concat ?q) + mset (q ! ep) = mset (concat q) + (mset (drop (length ks - n) ks) + mset (q ! ep))"
    using mset_concat_update [OF assms] by simp
  then have "mset (concat ?q) = mset (concat q) + mset (drop (length ks - n) ks)" by simp
  moreover have "mset ks = mset (take (length ks - n) ks) + mset (drop (length ks - n) ks)"
    by (metis append_take_drop_id mset_append)
  ultimately show ?thesis using requeue_newest_spec [OF assms] by simp
qed

lemma prefill_marked:
  assumes "k < 2 ^ 61"
  shows "bit (word_of_nat k OR PREFILL_MARKER) 62" "prefill_ids [word_of_nat k OR PREFILL_MARKER] = [k]"
  using user_data_id_marked [OF assms, of PREFILL_MARKER] by (simp_all add: bit_or_iff bit_markers prefill_ids_def)

lemma set_command_user_data: "set_command G cfg key ud g = (f, g') \<Longrightarrow> fire_user_data f = ud"
  by (auto simp: set_command_def Let_def split: prod.splits if_splits)

text \<open>What both give, from a state that holds every key but the one taken from the queue.\<close>

definition fire_kept ::
  "('c \<Rightarrow> u64 list) \<Rightarrow> ('c \<Rightarrow> nat) \<Rightarrow> nat \<Rightarrow> ('c, 'rl, 'g, 't) drive \<Rightarrow> ('c, 'rl, 'g, 't) drive \<Rightarrow> bool \<Rightarrow> bool" where
  "fire_kept pend unf k d d' go \<longleftrightarrow>
     drive_sync pend d' \<and> buffered_prefill pend unf (dr_client d') \<and>
     length (dr_prefill_queues d') = length (dr_prefill_queues d) \<and> dr_router d' = dr_router d \<and>
     all_keys d' = add_mset k (all_keys d) \<and> (go \<longrightarrow> dr_prefill_queues d' = dr_prefill_queues d) \<and>
     dr_confirmed d' = dr_confirmed d"

lemma prefill_send_ok:
  assumes laws: "client_laws C pend unf"
    and st: "drive_sync pend d" "buffered_prefill pend unf (dr_client d)"
      "dc_endpoint_idx cfg < length (dr_prefill_queues d)" and k: "k < 2 ^ 61"
  shows "\<exists>d' it' go. prefill_send C G cfg t k (d, it) = Some ((d', it'), go) \<and> fire_kept pend unf k d d' go"
proof -
  let ?ep = "dc_endpoint_idx cfg"
  note front = mset_push_front [OF st(3)]
  obtain f g where f: "set_command G cfg (write_key (dc_key_format cfg) (dc_key_len cfg) k)
      (word_of_nat k OR PREFILL_MARKER) (dr_rng d) = (f, g)" by fastforce
  obtain d1 it1 r where tf: "try_fire C t 0 f (d\<lparr>dr_rng := g\<rparr>, it) = ((d1, it1), r)" by (metis surj_pair)
  have "inflight_inv (dr_inflight (d\<lparr>dr_rng := g\<rparr>))"
    "length (if_fired (dr_inflight (d\<lparr>dr_rng := g\<rparr>))) = length (pend (dr_client (d\<lparr>dr_rng := g\<rparr>)))"
    using st(1) by (simp_all add: drive_sync_def)
  from try_fire_spec [OF laws this tf] obtain c infl fl where
    d1: "d1 = d\<lparr>dr_rng := g, dr_client := c, dr_inflight := infl, dr_flight := fl\<rparr>"
    and infl: "inflight_inv infl" "length (if_fired infl) = length (pend c)"
    and r: "case r of
       None \<Rightarrow> pend c = pend (dr_client d) @ [fire_user_data f] \<and> unf c \<le> unf (dr_client d) + 1
     | Some n \<Rightarrow> n \<le> unf (dr_client d) \<and> pend c = take (length (pend (dr_client d)) - n) (pend (dr_client d)) \<and>
         unf c = unf (dr_client d) - n"
    by (auto split: option.splits)
  show ?thesis
  proof (cases r)
    case None
    then have p: "pend c = pend (dr_client d) @ [word_of_nat k OR PREFILL_MARKER]" "unf c \<le> unf (dr_client d) + 1"
      using r set_command_user_data [OF f] by auto
    have "buffered_prefill pend unf c"
    proof -
      have "set (drop (length (pend c) - unf c) (pend c)) \<subseteq>
          set (drop (length (pend c) - (unf (dr_client d) + 1)) (pend c))"
        using p(2) by (intro set_drop_subset_set_drop) simp
      also have "\<dots> \<subseteq> insert (word_of_nat k OR PREFILL_MARKER)
          (set (drop (length (pend (dr_client d)) - unf (dr_client d)) (pend (dr_client d))))"
        using p(1) by auto
      finally show ?thesis using st(2) prefill_marked(1) [OF k] by (auto simp: buffered_prefill_def)
    qed
    then show ?thesis using f tf None d1 infl p st(1) prefill_marked(2) [OF k]
      by (simp add: prefill_send_def fire_kept_def drive_sync_def all_keys_def) blast
  next
    case (Some n)
    then have p: "n \<le> unf (dr_client d)" "pend c = take (length (pend (dr_client d)) - n) (pend (dr_client d))"
      "unf c = unf (dr_client d) - n" using r by auto
    have u: "unf (dr_client d) \<le> length (pend (dr_client d))" by (rule client_lawsD(2) [OF laws])
    have buf: "buffered_prefill pend unf c"
    proof -
      have "length (pend c) - unf c = length (pend (dr_client d)) - unf (dr_client d)"
        using p u by simp
      then show ?thesis using st(2) unfolding buffered_prefill_def p(2)
        by (auto simp: drop_take dest: in_set_takeD)
    qed
    have ids: "prefill_ids (pend c) = take (length (dr_prefill_in_flight d) - n) (dr_prefill_in_flight d)"
      using prefill_ids_drop_newest [OF p(1) u] st(1,2) p(2) by (simp add: drive_sync_def buffered_prefill_def)
    obtain q where q: "pq_push_front ?ep k (dr_prefill_queues d) = Some q"
      "mset (concat q) = add_mset k (mset (concat (dr_prefill_queues d)))" "length q = length (dr_prefill_queues d)"
      using front by blast
    obtain pf q' where rq: "requeue_newest ?ep n (dr_prefill_in_flight d) q = Some (pf, q')"
      "pf = take (length (dr_prefill_in_flight d) - n) (dr_prefill_in_flight d)"
      "mset (concat q') + mset pf = mset (concat q) + mset (dr_prefill_in_flight d)" "length q' = length q"
      using mset_requeue_newest [of ?ep q n "dr_prefill_in_flight d"] q(3) st(3) by auto
    show ?thesis using f tf Some d1 infl buf ids q rq by (simp add: prefill_send_def fire_kept_def drive_sync_def all_keys_def) blast
  qed
qed

lemma prefill_fire_ok:
  assumes laws: "client_laws C pend unf"
    and st: "drive_sync pend d" "buffered_prefill pend unf (dr_client d)"
      "dc_endpoint_idx cfg < length (dr_prefill_queues d)" and k: "k < 2 ^ 61"
  shows "\<exists>d' it' go. prefill_fire L C G cfg t k (d, it) = Some ((d', it'), go) \<and> fire_kept pend unf k d d' go"
proof (cases "dr_pacer d")
  case None
  then show ?thesis using prefill_send_ok [OF laws st k] by (simp add: prefill_fire_def)
next
  case (Some p)
  obtain res p' where tk: "pacer_try_take L t p = (res, p')" by fastforce
  show ?thesis
  proof (cases res)
    case (Inr u)
    let ?d = "d\<lparr>dr_pacer := Some p'\<rparr>"
    have "drive_sync pend ?d" "buffered_prefill pend unf (dr_client ?d)" "dc_endpoint_idx cfg < length (dr_prefill_queues ?d)"
      using st by (simp_all add: drive_sync_def)
    from prefill_send_ok [OF laws this k, of G t it] show ?thesis
      using Some tk Inr by (simp add: prefill_fire_def fire_kept_def all_keys_def)
  next
    case (Inl sleep)
    then show ?thesis using Some tk mset_push_front [OF st(3), of k] st
      by (auto simp: prefill_fire_def fire_kept_def drive_sync_def all_keys_def)
  qed
qed

lemma drive_ready_keys:
  assumes "drive_ready cfg d" and "all_keys d' = all_keys d" and "length (dr_prefill_queues d') = length (dr_prefill_queues d)"
    and "dr_router d' = dr_router d"
  shows "drive_ready cfg d'"
  using assms by (auto simp: drive_ready_def)

lemma prefill_body_ok:
  assumes laws: "client_laws C pend unf" and st: "prefill_state pend unf cfg K d"
  shows "\<exists>d' it' go. prefill_body L C G cfg t (d, it) = Some ((d', it'), go) \<and> prefill_state pend unf cfg K d' \<and>
    dr_confirmed d' = dr_confirmed d \<and>
    (go \<longrightarrow> length (dr_prefill_queues d' ! dc_endpoint_idx cfg) < length (dr_prefill_queues d ! dc_endpoint_idx cfg))"
proof -
  let ?ep = "dc_endpoint_idx cfg" and ?q = "dr_prefill_queues d"
  have rdy: "drive_ready cfg d" "?ep < length ?q" and sync: "drive_sync pend d" "buffered_prefill pend unf (dr_client d)"
    and K: "all_keys d = K"
    using st by (auto simp: prefill_state_def drive_ready_def)
  show ?thesis
  proof (cases "?q ! ?ep")
    case Nil
    then show ?thesis using st rdy by (simp add: prefill_body_def pq_pop_front_def) blast
  next
    case (Cons k ks)
    define q where "q = ?q[?ep := ks]"
    have pop: "pq_pop_front ?ep ?q = Some (q, Some k)" using Cons rdy by (simp add: pq_pop_front_def q_def)
    note P = mset_pop_front [OF pop]
    define d0 where "d0 = d\<lparr>dr_prefill_queues := q\<rparr>"
    have d0: "add_mset k (all_keys d0) = K" using P(1) K by (simp add: d0_def all_keys_def)
    then have "k \<in># all_keys d" using K by (metis union_single_eq_member)
    then have k: "k < 2 ^ 61" using rdy(1) by (simp add: drive_ready_def)
    have q: "q ! ?ep = ks" "length q = length ?q" using rdy(2) by (simp_all add: q_def)
    have "drive_sync pend d0" "buffered_prefill pend unf (dr_client d0)" "?ep < length (dr_prefill_queues d0)"
      using sync rdy q by (simp_all add: d0_def drive_sync_def)
    from prefill_fire_ok [OF laws this k, of L G t it] obtain d' it' go where
      fire: "prefill_fire L C G cfg t k (d0, it) = Some ((d', it'), go)" and
      F: "drive_sync pend d'" "buffered_prefill pend unf (dr_client d')" "length (dr_prefill_queues d') = length ?q"
        "dr_router d' = dr_router d" "all_keys d' = K" "go \<longrightarrow> dr_prefill_queues d' = q" "dr_confirmed d' = dr_confirmed d"
      using d0 q by (auto simp: d0_def fire_kept_def)
    have "prefill_state pend unf cfg K d'"
      using F drive_ready_keys [OF rdy(1), of d'] K by (simp add: prefill_state_def)
    moreover have "go \<longrightarrow> length (dr_prefill_queues d' ! ?ep) < length (?q ! ?ep)" using F(6) q(1) Cons by auto
    ultimately have fired: ?thesis if "prefill_body L C G cfg t (d, it) = prefill_fire L C G cfg t k (d0, it)"
      using that fire F(7) by auto
    show ?thesis
    proof (cases "dc_num_endpoints cfg > 1")
      case False
      then show ?thesis using pop by (intro fired) (simp add: prefill_body_def d0_def Let_def)
    next
      case True
      then have n: "length ?q = dc_num_endpoints cfg" using rdy(1) by (simp add: drive_ready_def)
      obtain r where r: "route_key (dr_router d) (dc_num_endpoints cfg) (write_key (dc_key_format cfg) (dc_key_len cfg) k) = Some r"
        "r < length ?q"
        using rdy(1) n unfolding drive_ready_def router_ok_def route_key_def by metis
      show ?thesis
      proof (cases "r = ?ep")
        case same: True
        then show ?thesis using pop r True by (intro fired) (simp add: prefill_body_def d0_def Let_def)
      next
        case other: False
        obtain q' where q': "pq_push_back r k q = Some q'" "mset (concat q') = add_mset k (mset (concat q))"
          "length q' = length q" "\<forall>j. j \<noteq> r \<longrightarrow> q' ! j = q ! j"
          using mset_push_back [of r q k] r(2) q(2) by auto
        let ?d = "d\<lparr>dr_prefill_queues := q'\<rparr>"
        have "prefill_body L C G cfg t (d, it) = Some ((?d, it), True)"
          using pop True r other q'(1) by (simp add: prefill_body_def Let_def)
        moreover have keys: "all_keys ?d = K" using d0 q'(2) by (simp add: d0_def all_keys_def)
        moreover have "prefill_state pend unf cfg K ?d"
          using sync keys q q'(3) K drive_ready_keys [OF rdy(1), of ?d] by (simp add: prefill_state_def drive_sync_def)
        moreover have "length (q' ! ?ep) < length (?q ! ?ep)" using q'(4) other q(1) Cons by (metis length_Cons lessI)
        ultimately show ?thesis by fastforce
      qed
    qed
  qed
qed

lemma prefill_loop_ok:
  assumes laws: "client_laws C pend unf"
  shows "prefill_state pend unf cfg K d \<Longrightarrow> length (dr_prefill_queues d ! dc_endpoint_idx cfg) < fuel \<Longrightarrow>
    \<exists>d' it'. prefill_loop fuel L C G cfg t (d, it) = Some (d', it') \<and> prefill_state pend unf cfg K d' \<and>
      dr_confirmed d' = dr_confirmed d"
proof (induction fuel arbitrary: d it)
  case 0
  then show ?case by simp
next
  case (Suc fuel)
  obtain d1 it1 go where b: "prefill_body L C G cfg t (d, it) = Some ((d1, it1), go)" "prefill_state pend unf cfg K d1"
    "dr_confirmed d1 = dr_confirmed d"
    "go \<longrightarrow> length (dr_prefill_queues d1 ! dc_endpoint_idx cfg) < length (dr_prefill_queues d ! dc_endpoint_idx cfg)"
    using prefill_body_ok [OF laws Suc.prems(1)] by blast
  show ?case
  proof (cases go)
    case True
    then have "length (dr_prefill_queues d1 ! dc_endpoint_idx cfg) < fuel" using b(4) Suc.prems(2) by simp
    from Suc.IH [OF b(2) this, of it1] b True Suc.prems(1) show ?thesis by auto
  next
    case False
    then show ?thesis using b Suc.prems(1) by auto
  qed
qed

lemma prefill_fill_ok:
  assumes "client_laws C pend unf" and "prefill_state pend unf cfg K d"
  shows "\<exists>d' it'. prefill_fill L C G cfg t (d, it) = Some (d', it') \<and> prefill_state pend unf cfg K d' \<and>
      dr_confirmed d' = dr_confirmed d"
  unfolding prefill_fill_def fst_conv by (rule prefill_loop_ok [OF assms]) simp

lemma flush_batch_ok:
  assumes laws: "client_laws C pend unf" and st: "prefill_state pend unf cfg K d"
  shows "\<exists>d' it'. flush_batch L C cfg Prefill (d, it) = Some (d', it') \<and> drive_sync pend d' \<and> drive_ready cfg d' \<and>
    all_keys d' = K \<and> unf (dr_client d') = 0 \<and> dr_confirmed d' = dr_confirmed d"
proof -
  let ?ep = "dc_endpoint_idx cfg" and ?c = "dr_client d"
  have rdy: "drive_ready cfg d" "?ep < length (dr_prefill_queues d)" and sync: "drive_sync pend d" "buffered_prefill pend unf ?c"
    and K: "all_keys d = K"
    using st by (auto simp: prefill_state_def drive_ready_def)
  obtain ok c where fl: "cl_flush C ?c = (ok, c)" by fastforce
  show ?thesis
  proof (cases ok)
    case True
    then have "pend c = pend ?c" "unf c = 0" using client_lawsD(5) [OF laws] fl by auto
    then show ?thesis using True fl sync rdy K
      by (cases "dr_limiter d") (auto simp: flush_batch_def Let_def drive_sync_def drive_ready_def all_keys_def)
  next
    case False
    then obtain n where n: "n \<le> unf ?c" "pend c = take (length (pend ?c) - n) (pend ?c)" "unf c = 0"
      using client_lawsD(6) [OF laws, of ?c c] fl by auto
    have u: "unf ?c \<le> length (pend ?c)" by (rule client_lawsD(2) [OF laws])
    have disc: "cl_pending_count C ?c - cl_pending_count C c = n" using n u by (simp add: client_lawsD(1) [OF laws])
    have ids: "prefill_ids (pend c) = take (length (dr_prefill_in_flight d) - n) (dr_prefill_in_flight d)"
      using prefill_ids_drop_newest [OF n(1) u] sync n(2) by (simp add: drive_sync_def buffered_prefill_def)
    obtain pf q where rq: "requeue_newest ?ep n (dr_prefill_in_flight d) (dr_prefill_queues d) = Some (pf, q)"
      "pf = take (length (dr_prefill_in_flight d) - n) (dr_prefill_in_flight d)"
      "mset (concat q) + mset pf = all_keys d" "length q = length (dr_prefill_queues d)"
      using mset_requeue_newest [OF rdy(2), of n "dr_prefill_in_flight d"] by (auto simp: all_keys_def)
    have inf: "inflight_inv (forget_newest (dr_inflight d) n)"
      "length (if_fired (forget_newest (dr_inflight d) n)) = length (pend c)"
      using sync(1) n(2) by (simp_all add: drive_sync_def inflight_ops_inv forget_newest_len)
    define d' where "d' = d\<lparr>dr_client := c, dr_inflight := forget_newest (dr_inflight d) n,
        dr_flight := (dr_flight d)\<lparr>fc_send_failed := fc_send_failed (dr_flight d) + n\<rparr>,
        dr_prefill_queues := q, dr_prefill_in_flight := pf\<rparr>"
    have keys: "all_keys d' = K" using rq(3) K by (simp add: all_keys_def d'_def)
    have "drive_sync pend d'" using ids inf rq(2) by (simp add: drive_sync_def d'_def)
    moreover have "drive_ready cfg d'" by (rule drive_ready_keys [OF rdy(1)]) (simp add: keys K, simp_all add: rq(4) d'_def)
    moreover have "flush_batch L C cfg Prefill (d, it) = Some (case dr_limiter d of
         Some rl \<Rightarrow> (d'\<lparr>dr_requests_sent := wrapping_add (dr_requests_sent d) (wrapping_sub (it_fired_count it) n),
             dr_worker_slip := limiter_slip_ns L rl\<rparr>, it\<lparr>it_fired_count := wrapping_sub (it_fired_count it) n\<rparr>)
       | None \<Rightarrow> (d'\<lparr>dr_requests_sent := wrapping_add (dr_requests_sent d) (wrapping_sub (it_fired_count it) n)\<rparr>,
             it\<lparr>it_fired_count := wrapping_sub (it_fired_count it) n\<rparr>))"
      using False fl disc rq(1)
      by (cases "dr_limiter d") (simp_all add: flush_batch_def Let_def note_discarded_def d'_def)
    moreover have "dr_client d' = c" "dr_confirmed d' = dr_confirmed d" by (simp_all add: d'_def)
    ultimately show ?thesis using n(3) keys
      by (cases "dr_limiter d") (auto simp: drive_sync_def drive_ready_def all_keys_def)
  qed
qed

lemma flush_no_prefill:
  assumes laws: "client_laws C pend unf" and "unf (dr_client d) = 0" and "drive_sync pend d" and "drive_ready cfg d"
  shows "prefill_state pend unf cfg (all_keys d) d"
  using assms by (simp add: prefill_state_def buffered_prefill_def)

text \<open>
  C4. No key of a prefill is lost or written twice by the bookkeeping, whatever fails. Take a
  connection whose client has nothing buffered. An iteration in prefill does not panic; afterwards
  the queues and the keys in flight together hold exactly the keys they held, the keys in flight are
  exactly the prefill SETs the client has pending, in order, and \<open>InFlight\<close> has one entry per pending
  request. Giving the connection up puts every key in flight back into a queue.
\<close>

theorem prefill_iteration_keeps_keys:
  assumes laws: "client_laws C pend unf" and sync: "drive_sync pend d" and rdy: "drive_ready cfg d"
    and clean: "unf (dr_client d) = 0"
  shows "(\<exists>d' it' w. drive_iteration L C G cfg Prefill prefill_done dispatching ready now t d = Some (d', it', w) \<and>
      drive_sync pend d' \<and> drive_ready cfg d' \<and> all_keys d' = all_keys d \<and> dr_confirmed d' = dr_confirmed d) \<or>
    (\<exists>d' it'. drive_iteration L C G cfg Prefill prefill_done dispatching ready now t d = Some (d', it', Disconnect Eof) \<and>
      dr_prefill_in_flight d' = [] \<and> all_keys d' = all_keys d \<and> dr_confirmed d' = dr_confirmed d)"
    (is "?run \<or> ?gone")
proof (cases "cl_pending_count C (dr_client d) = 0 \<and> \<not> cl_is_alive C (dr_client d)")
  case True
  have none: "dr_prefill_in_flight d = []"
    using sync True client_lawsD(1) [OF laws] by (simp add: drive_sync_def prefill_ids_def)
  then have "drive_disconnect cfg d = Some d"
    by (simp add: drive_disconnect_def requeue_drained_def)
  then show ?thesis using True none by (auto simp: drive_iteration_def should_stop_def)
next
  case False
  let ?it = "\<lparr>it_fired_count = 0, it_starved = False, it_send_failed = False, it_prefill_wait = None\<rparr>"
  have st: "prefill_state pend unf cfg (all_keys d) d" by (rule flush_no_prefill [OF laws clean sync rdy])
  define fill where "fill = (if \<not> prefill_done then
      if dc_batch_size cfg \<le> dc_pipeline_depth cfg - cl_pending_count C (dr_client d)
      then prefill_fill L C G cfg t (d, ?it) else Some (d, ?it) else Some (d, ?it))"
  have "\<exists>d1 it1. fill = Some (d1, it1) \<and> prefill_state pend unf cfg (all_keys d) d1 \<and> dr_confirmed d1 = dr_confirmed d"
    using prefill_fill_ok [OF laws st, of L G t ?it] st unfolding fill_def
    by (cases prefill_done; cases "dc_batch_size cfg \<le> dc_pipeline_depth cfg - cl_pending_count C (dr_client d)") simp_all
  then obtain d1 it1 where fill: "fill = Some (d1, it1)"
    and st1: "prefill_state pend unf cfg (all_keys d) d1" "dr_confirmed d1 = dr_confirmed d" by blast
  from flush_batch_ok [OF laws st1(1), of L it1] obtain d2 it2 where
    fl: "flush_batch L C cfg Prefill (d1, it1) = Some (d2, it2)" "drive_sync pend d2" "drive_ready cfg d2"
      "all_keys d2 = all_keys d" "dr_confirmed d2 = dr_confirmed d" using st1(2) by auto
  have "drive_iteration L C G cfg Prefill prefill_done dispatching ready now t d =
      Some (d2, it2, drive_wait C cfg Prefill dispatching ready (d2, it2))"
    using False fill fl(1) unfolding drive_iteration_def fill_def
    by (auto simp: should_stop_def Let_def split: if_splits)
  then show ?thesis using fl by blast
qed

text \<open>A client that accepts everything, and a connection that uses it.\<close>

record queue_client =
  qc_pending :: "u64 list"
  qc_buffered :: nat

definition queue_client_api :: "queue_client client_api" where
  "queue_client_api =
     \<lparr>cl_pending_count = (\<lambda>c. length (qc_pending c)), cl_is_alive = (\<lambda>_. True),
      cl_fire = (\<lambda>c f. (True, \<lparr>qc_pending = qc_pending c @ [fire_user_data f], qc_buffered = min (qc_buffered c) (length (qc_pending c)) + 1\<rparr>)),
      cl_flush = (\<lambda>c. (True, c\<lparr>qc_buffered := 0\<rparr>))\<rparr>"

definition qc_unflushed :: "queue_client \<Rightarrow> nat" where
  "qc_unflushed c = min (qc_buffered c) (length (qc_pending c))"

lemma queue_client_laws: "client_laws queue_client_api qc_pending qc_unflushed"
  by (auto simp: client_laws_def queue_client_api_def qc_unflushed_def)

definition demo_drive :: "(queue_client, bucket, nat, nat) drive" where
  "demo_drive =
     \<lparr>dr_client = \<lparr>qc_pending = [], qc_buffered = 0\<rparr>, dr_rng = 0, dr_carried_tokens = 0, dr_prefill_in_flight = [],
      dr_inflight = inflight_new 1000, dr_backfill_queue = [], dr_prefill_queues = [[3, 5, 8]],
      dr_router = \<lparr>rt_slot_table = None, rt_hash_slot = (\<lambda>_. 0), rt_ring = (\<lambda>_. 0)\<rparr>, dr_limiter = None,
      dr_pacer = None, dr_routed = None, dr_flight = \<lparr>fc_send_failed = 0, fc_timeouts = 0, fc_errors = 0\<rparr>,
      dr_metrics = \<lparr>m_responses = 0, m_errors = 0, m_hits = 0, m_misses = 0, m_gets = 0, m_sets = 0, m_deletes = 0, m_redirects = 0\<rparr>,
      dr_latency = \<lparr>h_get = [], h_set = [], h_delete = [], h_response = [], h_perceived = [], h_ttfb = [], m_bytes_tx = 0, m_bytes_rx = 0\<rparr>,
      dr_requests_sent = 0, dr_slip_samples = 0, dr_worker_slip = 0, dr_confirmed = 0, dr_backfill_sets = 0\<rparr>"

definition demo_drive_config :: drive_config where
  "demo_drive_config =
     \<lparr>dc_memcache = False, dc_get_ratio = 80, dc_delete_ratio = 0, dc_value_len = 64, dc_pool_len = 1024, dc_backfill_on_miss = False,
      dc_num_endpoints = 1, dc_pipeline_depth = 8, dc_batch_size = 2, dc_endpoint_idx = 0, dc_key_len = 16,
      dc_key_format = Hex\<rparr>"

definition demo_sampling :: "nat sampling" where
  "demo_sampling =
     \<lparr>sm_range = (\<lambda>n g. (g mod n, g + 1)), sm_key = (\<lambda>g. (g mod 100, g + 1)), sm_uniform = True,
      sm_endpoint_keys = [], sm_by_endpoint = None\<rparr>"

lemma demo_drive_ok: "drive_sync qc_pending demo_drive" "drive_ready demo_drive_config demo_drive" "qc_unflushed (dr_client demo_drive) = 0"
  by (auto simp: drive_sync_def demo_drive_def inflight_inv_def inflight_new_def prefill_ids_def drive_ready_def
      demo_drive_config_def router_ok_def route_partition_def all_keys_def qc_unflushed_def)

theorem prefill_iteration_keeps_keys_witness:
  "\<exists>d' it' w. drive_iteration bucket_api queue_client_api demo_sampling demo_drive_config Prefill False False False 0 7 demo_drive = Some (d', it', w) \<and>
     all_keys d' = {#3, 5, 8#}"
proof -
  have k: "all_keys demo_drive = {#3, 5, 8#}" by (simp add: all_keys_def demo_drive_def)
  show ?thesis
    using prefill_iteration_keeps_keys [OF queue_client_laws demo_drive_ok, of bucket_api demo_sampling False False False 0 7] k by auto
qed

text \<open>The reply answers the oldest pending request, and the client then has one fewer pending.\<close>

definition reply_to :: "u64 \<Rightarrow> request_result \<Rightarrow> bool" where
  "reply_to ud r \<longleftrightarrow> rq_prefill r = bit ud 62 \<and> (rq_prefill r \<longrightarrow> rq_key_id r = Some (user_data_id ud))"



end
