(* ===== verification/Trace_Replay.thy ===== *)
theory Trace_Replay
  imports Sizing Connection "HOL-Library.Sublist"
begin

text \<open>
  Replaying an object-level trace (\<open>src/tracereplay.rs\<close>): the reader thread that turns trace entries into
  batches of rows, the rows a worker has claimed, and the loop of a connection that sends them (\<open>run\<close>, cut at
  its awaits) with what becomes of rows that could not be sent.

  The crates cachetrace (entries and their operations) and ringline-redis (the client) are arguments;
  \<open>never\<close> says of a client whose last call failed whether the error was one that can never succeed. What
  a connection works on is threaded through: the state all workers share, the rows its worker has claimed, and the
  connection's own.
\<close>

section \<open>Rows\<close>

abbreviation CLAIM_BATCH :: nat where "CLAIM_BATCH \<equiv> 64"
abbreviation MAX_SEND_ATTEMPTS :: nat where "MAX_SEND_ATTEMPTS \<equiv> 3"
abbreviation READ_AHEAD_BATCHES :: nat where "READ_AHEAD_BATCHES \<equiv> 256"
abbreviation READER_POLL :: nat where "READER_POLL \<equiv> 1000000"

datatype charge = Charge_nothing | Charge_failed | Charge_all

definition must_flush_first :: "nat \<Rightarrow> bool \<Rightarrow> nat \<Rightarrow> bool \<Rightarrow> nat \<Rightarrow> bool" where
  "must_flush_first copied has_guard next_copied next_guarded slot \<longleftrightarrow>
     copied > 0 \<and> (has_guard \<or> next_guarded) \<and> copied + next_copied > slot"

datatype row_op = Row_get | Row_set | Row_del

text \<open>What cachetrace says of an operation code.\<close>

record trace_ops =
  op_is_delete :: "nat \<Rightarrow> bool"
  op_is_write :: "nat \<Rightarrow> bool"
  op_is_read :: "nat \<Rightarrow> bool"

definition row_op_from_trace :: "trace_ops \<Rightarrow> nat option \<Rightarrow> row_op option" where
  "row_op_from_trace ops code =
     (case code of
        None \<Rightarrow> Some Row_get
      | Some c \<Rightarrow> if op_is_delete ops c then Some Row_del else if op_is_write ops c then Some Row_set
                  else if op_is_read ops c then Some Row_get else None)"

record row =
  rw_obj_id :: nat
  rw_size :: nat
  rw_op :: row_op
  rw_failed_sends :: nat

record trace_entry =
  te_obj_id :: nat
  te_obj_size :: nat
  te_op :: "nat option"

definition row_from_entry :: "trace_ops \<Rightarrow> trace_entry \<Rightarrow> nat \<Rightarrow> row option" where
  "row_from_entry ops entry max_value =
     (case row_op_from_trace ops (te_op entry) of
        None \<Rightarrow> None
      | Some p \<Rightarrow> if p = Row_set \<and> te_obj_size entry > max_value then None
                   else Some \<lparr>rw_obj_id = te_obj_id entry, rw_size = te_obj_size entry, rw_op = p, rw_failed_sends = 0\<rparr>)"

section \<open>The reader and what workers share\<close>

datatype trace_reader_at =
    TReading "row list" \<comment> \<open>the batch so far\<close>
  | TSending "row list" bool \<comment> \<open>counted, blocked while the channel is full; whether it is the last\<close>
  | TStopping
  | TGone

record trace_shared =
  tv_rest :: "(string + trace_entry) list"
  tv_reader :: trace_reader_at
  tv_sent :: nat
  tv_stopped :: bool
  tv_error :: "string option"
  tv_batches :: "row list list"
  tv_done :: nat
  tv_started :: bool
  tv_returned :: "row list"
  tv_rows :: nat
  tv_rows_failed :: nat
  tv_rows_skipped :: nat
  tv_gets :: nat
  tv_sets :: nat
  tv_dels :: nat
  tv_read_waits :: nat

definition trace_set_once :: "'a option \<Rightarrow> 'a \<Rightarrow> 'a option" where
  "trace_set_once c v = (case c of None \<Rightarrow> Some v | Some w \<Rightarrow> Some w)"

definition trace_reader_stop :: "trace_shared \<Rightarrow> trace_shared" where
  "trace_reader_stop sh = sh\<lparr>tv_stopped := True, tv_reader := TStopping\<rparr>"

definition trace_send :: "row list \<Rightarrow> bool \<Rightarrow> trace_shared \<Rightarrow> trace_shared" where
  "trace_send batch final sh = sh\<lparr>tv_sent := tv_sent sh + length batch, tv_reader := TSending batch final\<rparr>"

text \<open>After the loop over the entries: what is left of the batch is sent.\<close>

definition trace_read_end :: "row list \<Rightarrow> trace_shared \<Rightarrow> trace_shared" where
  "trace_read_end batch sh = (if batch \<noteq> [] then trace_send batch True sh else trace_reader_stop sh)"

text \<open>One step of the thread; \<open>panicked\<close> when reading the next entry panics.\<close>

definition trace_reader_step :: "trace_ops \<Rightarrow> bool \<Rightarrow> trace_shared \<Rightarrow> trace_shared option" where
  "trace_reader_step ops panicked sh =
     (case tv_reader sh of
        TReading batch \<Rightarrow>
          Some (if panicked then
                  trace_reader_stop (sh\<lparr>tv_error := trace_set_once (tv_error sh) ''trace_replay: the trace reader thread panicked''\<rparr>)
                else case tv_rest sh of
                       [] \<Rightarrow> trace_read_end batch sh
                     | Inl e # rest \<Rightarrow> trace_read_end batch (sh\<lparr>tv_rest := rest, tv_error := trace_set_once (tv_error sh) e\<rparr>)
                     | Inr entry # rest \<Rightarrow>
                         let sh = sh\<lparr>tv_rest := rest\<rparr> in
                         (case row_from_entry ops entry VALUE_POOL_SIZE of
                            Some r \<Rightarrow> if length (batch @ [r]) = CLAIM_BATCH then trace_send (batch @ [r]) False sh
                                       else sh\<lparr>tv_reader := TReading (batch @ [r])\<rparr>
                          | None \<Rightarrow> sh\<lparr>tv_rows_skipped := tv_rows_skipped sh + 1\<rparr>))
      | TSending batch final \<Rightarrow>
          if length (tv_batches sh) < READ_AHEAD_BATCHES then
            let sh = sh\<lparr>tv_batches := tv_batches sh @ [batch]\<rparr>
            in Some (if final then trace_reader_stop sh else sh\<lparr>tv_reader := TReading []\<rparr>)
          else None
      | TStopping \<Rightarrow> Some (sh\<lparr>tv_reader := TGone\<rparr>)
      | TGone \<Rightarrow> None)"

definition trace_is_finished :: "trace_shared \<Rightarrow> bool" where
  "trace_is_finished sh \<longleftrightarrow> tv_stopped sh \<and> tv_done sh \<ge> tv_sent sh"

definition trace_start :: "trace_shared \<Rightarrow> trace_shared" where
  "trace_start sh = sh\<lparr>tv_started := True\<rparr>"

definition mark_done :: "nat \<Rightarrow> trace_shared \<Rightarrow> trace_shared" where
  "mark_done n sh = (if n > 0 then sh\<lparr>tv_done := tv_done sh + n\<rparr> else sh)"

section \<open>Claimed rows\<close>

datatype next_row_result = Next_row row | Next_not_ready | Next_exhausted

definition next_row :: "trace_shared \<Rightarrow> row list \<Rightarrow> trace_shared \<times> row list \<times> next_row_result" where
  "next_row sh claimed =
     (case claimed of
        r # claimed \<Rightarrow> (sh, claimed, Next_row r)
      | [] \<Rightarrow>
          if tv_returned sh \<noteq> [] then
            let n = min (length (tv_returned sh)) CLAIM_BATCH; claimed = take n (tv_returned sh)
            in (sh\<lparr>tv_returned := drop n (tv_returned sh)\<rparr>, tl claimed, Next_row (hd claimed))
          else case tv_batches sh of
                 batch # bs \<Rightarrow>
                   let sh = sh\<lparr>tv_batches := bs\<rparr>
                   in (case batch of [] \<Rightarrow> (sh, [], Next_not_ready) | r # claimed \<Rightarrow> (sh, claimed, Next_row r))
               | [] \<Rightarrow> (sh, [], if tv_reader sh = TGone then Next_exhausted else Next_not_ready))"

text \<open>Rows are pushed to the front last to first, which keeps their order.\<close>

definition unclaim :: "row list \<Rightarrow> row list \<Rightarrow> row list" where
  "unclaim rows claimed = foldr (\<lambda>r c. r # c) rows claimed"

definition return_claimed :: "trace_shared \<Rightarrow> row list \<Rightarrow> trace_shared \<times> row list" where
  "return_claimed sh claimed = (sh\<lparr>tv_returned := foldr (\<lambda>r c. r # c) claimed (tv_returned sh)\<rparr>, [])"

section \<open>A connection\<close>

datatype sent = Sent_row row | Sent_backfill nat nat \<comment> \<open>object and size\<close>

record ('c, 'rl, 'g, 't) trace_conn =
  tc_client :: 'c
  tc_rng :: 'g
  tc_carried_tokens :: nat
  tc_inflight :: "'t in_flight"
  tc_flight :: flight_counters
  tc_backfill :: "(nat \<times> nat) list"
  tc_sent :: "sent list"
  tc_batch_copied :: nat
  tc_batch_guard :: bool
  tc_limiter :: "'rl worker_limiter option"
  tc_metrics :: request_metrics
  tc_requests_sent :: nat
  tc_slip_samples :: nat
  tc_backfill_latency :: "nat list"

record trace_config =
  tg_key_prefix :: bytes
  tg_key_format :: kv_key_format
  tg_pipeline_depth :: nat
  tg_batch_size :: nat
  tg_pool_len :: nat
  tg_backfill_on_miss :: bool

definition trace_key :: "trace_config \<Rightarrow> nat \<Rightarrow> bytes" where
  "trace_key cfg i =
     tg_key_prefix cfg @ (case tg_key_format cfg of KvHex \<Rightarrow> write_key Hex 16 i | KvDecimal \<Rightarrow> map of_char (decimal i))"

definition trace_max_key_len :: "trace_config \<Rightarrow> nat" where
  "trace_max_key_len cfg = length (tg_key_prefix cfg) + (case tg_key_format cfg of KvHex \<Rightarrow> 16 | KvDecimal \<Rightarrow> 20)"

text \<open>
  What \<open>requeue\<close> makes of the requests that never left, \<open>i\<close> the index of the first of them: the rows to send again
  and how many were given up.
\<close>

fun requeue_rows :: "charge \<Rightarrow> nat \<Rightarrow> nat \<Rightarrow> sent list \<Rightarrow> row list \<times> nat" where
  "requeue_rows charge n_discarded i [] = ([], 0)"
| "requeue_rows charge n_discarded i (Sent_backfill obj sz # ss) = requeue_rows charge n_discarded (i + 1) ss"
| "requeue_rows charge n_discarded i (Sent_row r # ss) =
     (let charged = (case charge of Charge_nothing \<Rightarrow> False | Charge_failed \<Rightarrow> i \<ge> n_discarded | Charge_all \<Rightarrow> True);
          r = (if charged then r\<lparr>rw_failed_sends := rw_failed_sends r + 1\<rparr> else r);
          (rows, given_up) = requeue_rows charge n_discarded (i + 1) ss
      in if rw_failed_sends r \<ge> MAX_SEND_ATTEMPTS then (rows, given_up + 1) else (r # rows, given_up))"

definition requeue :: "sent list \<Rightarrow> nat \<Rightarrow> sent option \<Rightarrow> charge \<Rightarrow> row list \<Rightarrow> sent list \<times> row list \<times> nat" where
  "requeue sent discarded failed charge claimed =
     (let keep = length sent - discarded; n_discarded = length sent - keep;
          (rows, given_up) = requeue_rows charge n_discarded 0 (drop keep sent @ (case failed of None \<Rightarrow> [] | Some s \<Rightarrow> [s]))
      in (take keep sent, unclaim rows claimed, given_up))"

definition requeue_with_next :: "sent list \<Rightarrow> nat \<Rightarrow> sent \<Rightarrow> charge \<Rightarrow> row list \<Rightarrow> sent list \<times> row list \<times> nat" where
  "requeue_with_next sent discarded nxt charge claimed =
     (let claimed = (case nxt of Sent_row r \<Rightarrow> unclaim [r] claimed | Sent_backfill _ _ \<Rightarrow> claimed)
      in requeue sent discarded None charge claimed)"

definition note_given_up :: "trace_shared \<Rightarrow> nat \<Rightarrow> trace_shared" where
  "note_given_up sh n = mark_done n (sh\<lparr>tv_rows_failed := tv_rows_failed sh + n\<rparr>)"

type_synonym ('c, 'rl, 'g, 't) trace_view = "trace_shared \<times> row list \<times> ('c, 'rl, 'g, 't) trace_conn \<times> nat"

text \<open>The next request to send: a backfill first, then a row.\<close>

definition trace_next :: "('c, 'rl, 'g, 't) trace_view \<Rightarrow> ('c, 'rl, 'g, 't) trace_view \<times> (next_row_result + sent)" where
  "trace_next v =
     (case v of (sh, claimed, c, fired) \<Rightarrow>
        (case tc_backfill c of
           (obj, sz) # bf \<Rightarrow> ((sh, claimed, c\<lparr>tc_backfill := bf\<rparr>, fired), Inr (Sent_backfill obj sz))
         | [] \<Rightarrow>
             (case next_row sh claimed of
                (sh, claimed, Next_row r) \<Rightarrow> ((sh, claimed, c, fired), Inr (Sent_row r))
              | (sh, claimed, Next_not_ready) \<Rightarrow> ((sh\<lparr>tv_read_waits := tv_read_waits sh + 1\<rparr>, claimed, c, fired), Inl Next_not_ready)
              | (sh, claimed, Next_exhausted) \<Rightarrow> ((sh, claimed, c, fired), Inl Next_exhausted))))"

fun sent_op :: "sent \<Rightarrow> row_op" where
  "sent_op (Sent_row r) = rw_op r"
| "sent_op (Sent_backfill obj sz) = Row_set"

fun sent_size :: "sent \<Rightarrow> nat" where
  "sent_size (Sent_row r) = rw_size r"
| "sent_size (Sent_backfill obj sz) = sz"

fun sent_obj :: "sent \<Rightarrow> nat" where
  "sent_obj (Sent_row r) = rw_obj_id r"
| "sent_obj (Sent_backfill obj sz) = obj"

definition sent_guarded :: "sent \<Rightarrow> bool" where
  "sent_guarded s \<longleftrightarrow> sent_op s = Row_set \<and> sent_size s \<ge> ZC_VALUE_THRESHOLD"

definition sent_copied :: "trace_config \<Rightarrow> sent \<Rightarrow> nat" where
  "sent_copied cfg s =
     length (trace_key cfg (sent_obj s)) + REQUEST_FRAMING + (if sent_op s = Row_set \<and> \<not> sent_guarded s then sent_size s else 0)"

definition trace_command :: "'g sampling \<Rightarrow> trace_config \<Rightarrow> sent \<Rightarrow> 'g \<Rightarrow> fire \<times> 'g" where
  "trace_command G cfg s g =
     (let key = trace_key cfg (sent_obj s); sz = sent_size s in
      case sent_op s of
        Row_get \<Rightarrow> (Fire_get key 0, g)
      | Row_del \<Rightarrow> (Fire_del key 0, g)
      | Row_set \<Rightarrow>
          let (off, g) = value_offset G sz (tg_pool_len cfg) g in
          if sz \<ge> ZC_VALUE_THRESHOLD then (Fire_set True key (off mod 4294967296) (sz mod 4294967296) 0, g)
          else (Fire_set False key off sz 0, g))"

text \<open>
  A flush, and what it leaves when it fails: \<open>nxt\<close> is the request that was about to be added. Inside the fire loop
  it ends the loop, at the end of the iteration it does not.
\<close>

definition trace_flush :: "'c client_api \<Rightarrow> ('c \<Rightarrow> bool) \<Rightarrow> sent option \<Rightarrow> ('c, 'rl, 'g, 't) trace_view \<Rightarrow> ('c, 'rl, 'g, 't) trace_view \<times> bool" where
  "trace_flush C never nxt v =
     (case v of (sh, claimed, c, fired) \<Rightarrow>
        let before = cl_pending_count C (tc_client c); (ok, cl) = cl_flush C (tc_client c);
            c = c\<lparr>tc_client := cl, tc_batch_copied := 0, tc_batch_guard := False\<rparr>
        in if ok then ((sh, claimed, c, fired), True)
           else
             let (infl, m, discarded) = note_discarded before (cl_pending_count C cl) (tc_inflight c) True (tc_flight c);
                 charge = (if never cl then Charge_all else Charge_nothing);
                 (sent, claimed, given_up) =
                   (case nxt of Some s \<Rightarrow> requeue_with_next (tc_sent c) discarded s charge claimed
                              | None \<Rightarrow> requeue (tc_sent c) discarded None charge claimed)
             in ((note_given_up sh given_up, claimed, c\<lparr>tc_inflight := infl, tc_flight := m, tc_sent := sent\<rparr>,
                  wrapping_sub fired discarded), False))"

definition trace_fire_one ::
  "'c client_api \<Rightarrow> ('c \<Rightarrow> bool) \<Rightarrow> 'g sampling \<Rightarrow> trace_config \<Rightarrow> nat \<Rightarrow> bool \<Rightarrow> sent \<Rightarrow> ('c, 'rl, 'g, 't) trace_view \<Rightarrow>
   ('c, 'rl, 'g, 't) trace_view \<times> bool" where
  "trace_fire_one C never G cfg fired_at slip s v =
     (case v of (sh, claimed, c, fired) \<Rightarrow>
        let before = cl_pending_count C (tc_client c); (f, g) = trace_command G cfg s (tc_rng c);
            (ok, cl) = cl_fire C (tc_client c) f; c = c\<lparr>tc_client := cl, tc_rng := g\<rparr>
        in if ok then
             ((sh, claimed,
               c\<lparr>tc_slip_samples := tc_slip_samples c + (if slip then 1 else 0), tc_inflight := inflight_push (tc_inflight c) fired_at,
                 tc_sent := tc_sent c @ [s], tc_batch_copied := tc_batch_copied c + sent_copied cfg s,
                 tc_batch_guard := (tc_batch_guard c \<or> sent_guarded s)\<rparr>, wrapping_add fired 1), True)
           else
             let (infl, m, discarded) = note_failed_fire before (cl_pending_count C cl) (tc_inflight c) True (tc_flight c);
                 charge = (if never cl then Charge_failed else Charge_nothing);
                 (sent, claimed, given_up) = requeue (tc_sent c) discarded (Some s) charge claimed
             in ((note_given_up sh given_up, claimed, c\<lparr>tc_inflight := infl, tc_flight := m, tc_sent := sent\<rparr>,
                  wrapping_sub fired discarded), False))"

text \<open>The fire loop: the tokens left, and whether the reader was behind or the trace exhausted.\<close>

fun trace_fire ::
  "'c client_api \<Rightarrow> ('c \<Rightarrow> bool) \<Rightarrow> 'g sampling \<Rightarrow> trace_config \<Rightarrow> nat \<Rightarrow> bool \<Rightarrow> nat \<Rightarrow> ('c, 'rl, 'g, 't) trace_view \<Rightarrow>
   ('c, 'rl, 'g, 't) trace_view \<times> nat \<times> bool \<times> bool" where
  "trace_fire C never G cfg fired_at slip 0 v = (v, 0, False, False)"
| "trace_fire C never G cfg fired_at slip (Suc b) v =
     (if cl_pending_count C (tc_client (fst (snd (snd v)))) < tg_pipeline_depth cfg then
        (case trace_next v of
           (v, Inl r) \<Rightarrow> (v, Suc b, r = Next_not_ready, r = Next_exhausted)
         | (v, Inr s) \<Rightarrow>
             (let c = fst (snd (snd v)) in
              case (if must_flush_first (tc_batch_copied c) (tc_batch_guard c) (sent_copied cfg s) (sent_guarded s) RINGLINE_SEND_SLOT_SIZE
                    then trace_flush C never (Some s) v else (v, True)) of
                (v, False) \<Rightarrow> (v, Suc b, False, False)
              | (v, True) \<Rightarrow>
                  (case trace_fire_one C never G cfg fired_at slip s v of
                     (v, False) \<Rightarrow> (v, b, False, False)
                   | (v, True) \<Rightarrow> trace_fire C never G cfg fired_at slip b v)))
      else (v, Suc b, False, False))"

definition trace_budget :: "'rl ratelimit \<Rightarrow> trace_config \<Rightarrow> nat \<Rightarrow> ('c, 'rl, 'g, 't) trace_conn \<Rightarrow> ('c, 'rl, 'g, 't) trace_conn \<times> nat \<times> bool" where
  "trace_budget L cfg now c =
     (case tc_limiter c of
        None \<Rightarrow> (c, tg_batch_size cfg, False)
      | Some rl \<Rightarrow>
          if tc_carried_tokens c > 0 then (c\<lparr>tc_carried_tokens := 0\<rparr>, tc_carried_tokens c, False)
          else let n = min (tg_batch_size cfg) (limiter_max_tokens L rl) in
               if n = 0 then (c, 0, True)
               else (case limiter_try_wait_n L now n rl of
                       (Inr _, rl) \<Rightarrow> (c\<lparr>tc_limiter := Some rl\<rparr>, n, False)
                     | (Inl _, rl) \<Rightarrow> (c\<lparr>tc_limiter := Some rl\<rparr>, 0, True)))"

datatype trace_end =
    Trace_return "disconnect_reason option"
  | Trace_acquire nat
  | Trace_sleep nat
  | Trace_recv

text \<open>Filling the pipeline: what was starved of tokens, found the reader behind, or the trace exhausted.\<close>

definition trace_fill ::
  "'rl ratelimit \<Rightarrow> 'c client_api \<Rightarrow> ('c \<Rightarrow> bool) \<Rightarrow> 'g sampling \<Rightarrow> trace_config \<Rightarrow> phase \<Rightarrow> nat \<Rightarrow>
   trace_shared \<Rightarrow> row list \<Rightarrow> ('c, 'rl, 'g, 't) trace_conn \<Rightarrow> ('c, 'rl, 'g, 't) trace_view \<times> bool \<times> bool \<times> bool" where
  "trace_fill L C never G cfg ph now sh claimed c =
     (let want_fire = (tg_pipeline_depth cfg - cl_pending_count C (tc_client c) \<ge> tg_batch_size cfg) in
      if (ph = Warmup \<or> ph = Running) \<and> want_fire \<and> tv_started sh then
        let (c, budget, starved) = trace_budget L cfg now c;
            ((sh, claimed, c, fired), left, reader_behind, exhausted) =
              trace_fire C never G cfg now (tc_limiter c \<noteq> None) budget (sh, claimed, c, 0);
            c = (if (reader_behind \<or> exhausted) \<and> left > 0
                 then c\<lparr>tc_carried_tokens := wrapping_add (tc_carried_tokens c) left\<rparr> else c)
        in ((sh, claimed, c, fired), starved, reader_behind, exhausted)
      else ((sh, claimed, c, 0), False, False, False))"

text \<open>One iteration of the loop of \<open>run\<close>, up to its await.\<close>

definition trace_iteration ::
  "'rl ratelimit \<Rightarrow> 'c client_api \<Rightarrow> ('c \<Rightarrow> bool) \<Rightarrow> 'g sampling \<Rightarrow> trace_config \<Rightarrow> phase \<Rightarrow> bool \<Rightarrow> nat \<Rightarrow>
   trace_shared \<Rightarrow> row list \<Rightarrow> ('c, 'rl, 'g, 't) trace_conn \<Rightarrow>
   trace_shared \<times> row list \<times> ('c, 'rl, 'g, 't) trace_conn \<times> trace_end" where
  "trace_iteration L C never G cfg ph dispatching now sh claimed c =
     (if should_stop ph then (sh, claimed, c, Trace_return None)
      else if cl_pending_count C (tc_client c) = 0 \<and> \<not> cl_is_alive C (tc_client c) then (sh, claimed, c, Trace_return (Some Eof))
      else
        let waiting_start = (\<not> tv_started sh);
            (v, starved, reader_behind, exhausted) = trace_fill L C never G cfg ph now sh claimed c;
            ((sh, claimed, c, fired), _) = trace_flush C never None v;
            c = c\<lparr>tc_requests_sent := wrapping_add (tc_requests_sent c) fired\<rparr>
        in (sh, claimed, c,
            if cl_pending_count C (tc_client c) = 0 then
              if dispatching \<and> starved then Trace_acquire (tg_batch_size cfg)
              else Trace_sleep (if exhausted then IDLE_SLEEP_MAX else if reader_behind \<or> waiting_start then READER_POLL else IDLE_SLEEP_MIN)
            else Trace_recv))"

text \<open>The tokens granted, when the iteration ended in \<open>Trace_acquire\<close>.\<close>

definition trace_acquired :: "nat \<Rightarrow> ('c, 'rl, 'g, 't) trace_conn \<Rightarrow> ('c, 'rl, 'g, 't) trace_conn" where
  "trace_acquired granted c = c\<lparr>tc_carried_tokens := wrapping_add (tc_carried_tokens c) granted\<rparr>"

text \<open>A reply, when it ended in \<open>Trace_recv\<close>; \<open>rcv\<close> is the client after it. \<open>None\<close>: the \<open>expect\<close> panics.\<close>

definition trace_row_done :: "row \<Rightarrow> trace_shared \<Rightarrow> trace_shared" where
  "trace_row_done r sh =
     (let sh = (mark_done 1 sh); sh = sh\<lparr>tv_rows := tv_rows sh + 1\<rparr> in
      case rw_op r of
        Row_get \<Rightarrow> sh\<lparr>tv_gets := tv_gets sh + 1\<rparr>
      | Row_set \<Rightarrow> sh\<lparr>tv_sets := tv_sets sh + 1\<rparr>
      | Row_del \<Rightarrow> sh\<lparr>tv_dels := tv_dels sh + 1\<rparr>)"

definition trace_reply ::
  "('c \<Rightarrow> 'c) \<Rightarrow> trace_config \<Rightarrow> resp_meta \<Rightarrow> trace_shared \<Rightarrow> ('c, 'rl, 'g, 't) trace_conn \<Rightarrow>
   (trace_shared \<times> ('c, 'rl, 'g, 't) trace_conn) option" where
  "trace_reply rcv cfg m sh c =
     (let r = map_respmeta m; c = c\<lparr>tc_client := rcv (tc_client c), tc_inflight := fst (inflight_pop (tc_inflight c))\<rparr> in
      case tc_sent c of
        [] \<Rightarrow> None
      | d # sent \<Rightarrow>
          let c = c\<lparr>tc_sent := sent, tc_metrics := record_counters r (tc_metrics c)\<rparr> in
          Some (case d of
                  Sent_row w \<Rightarrow>
                    (trace_row_done w sh,
                     if tg_backfill_on_miss cfg \<and> rw_op w = Row_get \<and> rq_success r \<and> rq_hit r = Some False \<and>
                        length (tc_backfill c) < BACKFILL_QUEUE_CAP \<and> rw_size w \<le> VALUE_POOL_SIZE
                     then c\<lparr>tc_backfill := tc_backfill c @ [(rw_obj_id w, rw_size w)]\<rparr> else c)
                | Sent_backfill _ _ \<Rightarrow>
                    (sh, if rq_success r then c\<lparr>tc_backfill_latency := rq_latency_ns r # tc_backfill_latency c\<rparr> else c)))"

definition is_row :: "sent \<Rightarrow> bool" where
  "is_row s \<longleftrightarrow> (case s of Sent_row _ \<Rightarrow> True | Sent_backfill _ _ \<Rightarrow> False)"

text \<open>\<open>drive\<close> once \<open>run\<close> has returned: \<open>failed\<close> when it was an error.\<close>

definition trace_drive_end :: "bool \<Rightarrow> bool \<Rightarrow> sent list \<Rightarrow> trace_shared \<Rightarrow> row list \<Rightarrow> trace_shared \<times> row list" where
  "trace_drive_end stop failed sent sh claimed =
     (let n = length (filter is_row sent);
          sh = (if \<not> stop then mark_done n (sh\<lparr>tv_rows_failed := tv_rows_failed sh + n\<rparr>) else sh)
      in if failed then return_claimed sh claimed else (sh, claimed))"

section \<open>Where rows are\<close>

text \<open>A row without its count of failed sends; the rows of a list, and those among the requests in flight.\<close>

definition rid :: "row \<Rightarrow> row" where
  "rid r = r\<lparr>rw_failed_sends := 0\<rparr>"

definition rows_of :: "row list \<Rightarrow> row multiset" where
  "rows_of rs = image_mset rid (mset rs)"

fun sent_rows :: "sent list \<Rightarrow> row list" where
  "sent_rows [] = []"
| "sent_rows (Sent_row r # ss) = r # sent_rows ss"
| "sent_rows (Sent_backfill obj sz # ss) = sent_rows ss"

definition shared_rows :: "trace_shared \<Rightarrow> row multiset" where
  "shared_rows sh = rows_of (concat (tv_batches sh)) + rows_of (tv_returned sh)"

text \<open>A row that may be sent: it has sends left, and a SET fits the value pool.\<close>

definition good_row :: "row \<Rightarrow> bool" where
  "good_row r \<longleftrightarrow> rw_failed_sends r < MAX_SEND_ATTEMPTS \<and> rw_obj_id r < U64_LIMIT \<and> (rw_op r = Row_set \<longrightarrow> rw_size r \<le> VALUE_POOL_SIZE)"

definition good_shared :: "trace_shared \<Rightarrow> bool" where
  "good_shared sh \<longleftrightarrow> (\<forall>b\<in>set (tv_batches sh). \<forall>r\<in>set b. good_row r) \<and> (\<forall>r\<in>set (tv_returned sh). good_row r)"

lemma rows_of_simps [simp]:
  "rows_of [] = {#}" "rows_of (r # rs) = add_mset (rid r) (rows_of rs)" "rows_of (xs @ ys) = rows_of xs + rows_of ys"
  by (simp_all add: rows_of_def)

lemma rows_of_split: "rows_of xs = rows_of (take n xs) + rows_of (drop n xs)"
  by (metis append_take_drop_id rows_of_simps(3))

lemma sent_rows_append [simp]: "sent_rows (xs @ ys) = sent_rows xs @ sent_rows ys"
  by (induction xs rule: sent_rows.induct) auto

lemma sent_rows_take: "rows_of (sent_rows ss) = rows_of (sent_rows (take n ss)) + rows_of (sent_rows (drop n ss))"
  by (metis append_take_drop_id rows_of_simps(3) sent_rows_append)

lemma set_sent_rows: "set (sent_rows ss) = {r. Sent_row r \<in> set ss}"
  by (induction ss rule: sent_rows.induct) auto

lemma foldr_Cons_append: "foldr (#) xs ys = xs @ ys"
  by (induction xs) auto

lemma unclaim_append [simp]: "unclaim rows claimed = rows @ claimed"
  by (simp add: unclaim_def foldr_Cons_append)

lemma return_claimed_append: "return_claimed sh claimed = (sh\<lparr>tv_returned := claimed @ tv_returned sh\<rparr>, [])"
  by (simp add: return_claimed_def foldr_Cons_append)

lemma requeue_rows_spec:
  "requeue_rows ch n i ss = (rows, g) \<Longrightarrow>
   (\<exists>fin. rows_of rows + fin = rows_of (sent_rows ss) \<and> size fin = g) \<and>
   ((\<forall>r\<in>set (sent_rows ss). good_row r) \<longrightarrow> (\<forall>r\<in>set rows. good_row r)) \<and>
   (ch = Charge_nothing \<and> (\<forall>r\<in>set (sent_rows ss). good_row r) \<longrightarrow> rows = sent_rows ss \<and> g = 0)"
proof (induction ch n i ss arbitrary: rows g rule: requeue_rows.induct)
  case (3 ch n i r ss)
  obtain rows1 g1 where ih: "requeue_rows ch n (i + 1) ss = (rows1, g1)" by fastforce
  define charged where "charged = (case ch of Charge_nothing \<Rightarrow> False | Charge_failed \<Rightarrow> i \<ge> n | Charge_all \<Rightarrow> True)"
  define r1 where "r1 = (if charged then r\<lparr>rw_failed_sends := rw_failed_sends r + 1\<rparr> else r)"
  have res: "(rows, g) = (if rw_failed_sends r1 \<ge> MAX_SEND_ATTEMPTS then (rows1, g1 + 1) else (r1 # rows1, g1))"
    using 3(2) by (simp only: requeue_rows.simps Let_def charged_def [symmetric] r1_def [symmetric] ih prod.case)
  have rid: "rid r1 = rid r" by (simp add: r1_def rid_def)
  note IH = 3(1) [OF charged_def r1_def ih]
  then obtain fin where fin: "rows_of rows1 + fin = rows_of (sent_rows ss)" "size fin = g1" by blast
  have one: "\<exists>fin. rows_of rows + fin = rows_of (sent_rows (Sent_row r # ss)) \<and> size fin = g"
  proof (cases "rw_failed_sends r1 \<ge> MAX_SEND_ATTEMPTS")
    case True
    then show ?thesis using res fin by (intro exI [of _ "add_mset (rid r) fin"]) simp
  next
    case False
    then show ?thesis using res fin rid by (intro exI [of _ fin]) simp
  qed
  have two: "\<forall>r\<in>set rows. good_row r" if "\<forall>r\<in>set (sent_rows (Sent_row r # ss)). good_row r"
    using that IH res by (auto simp: good_row_def r1_def split: if_splits)
  have three: "rows = sent_rows (Sent_row r # ss) \<and> g = 0" if "ch = Charge_nothing" "\<forall>r\<in>set (sent_rows (Sent_row r # ss)). good_row r"
    using that IH res by (auto simp: good_row_def r1_def charged_def split: if_splits)
  show ?case using one two three by blast
next
  case (1 ch n i)
  then show ?case by simp
next
  case (2 ch n i obj sz ss)
  show ?case using 2(1) [OF 2(2) [unfolded requeue_rows.simps]] unfolding sent_rows.simps .
qed

definition opt_list :: "'a option \<Rightarrow> 'a list" where
  "opt_list x = (case x of None \<Rightarrow> [] | Some y \<Rightarrow> [y])"

lemma requeue_spec:
  assumes r: "requeue sent n failed ch claimed = (sent', claimed', g)" and good: "\<forall>r\<in>set (sent_rows (sent @ opt_list failed)) \<union> set claimed. good_row r"
  shows "sent' = take (length sent - n) sent"
    and "\<exists>fin. rows_of claimed' + rows_of (sent_rows sent') + fin = rows_of claimed + rows_of (sent_rows (sent @ opt_list failed)) \<and> size fin = g"
    and "\<forall>r\<in>set (sent_rows sent') \<union> set claimed'. good_row r"
    and "ch = Charge_nothing \<Longrightarrow> g = 0 \<and> claimed' = sent_rows (drop (length sent - n) sent @ opt_list failed) @ claimed"
proof -
  let ?ss = "drop (length sent - n) sent @ opt_list failed"
  obtain rows where q: "requeue_rows ch (length sent - (length sent - n)) 0 ?ss = (rows, g)"
    and e: "sent' = take (length sent - n) sent" "claimed' = rows @ claimed"
    using r by (auto simp: requeue_def Let_def opt_list_def split: prod.splits option.splits)
  note Q = requeue_rows_spec [OF q]
  have sub: "set (sent_rows ?ss) \<subseteq> set (sent_rows (sent @ opt_list failed))" by (auto simp: set_sent_rows dest: in_set_dropD)
  obtain fin where fin: "rows_of rows + fin = rows_of (sent_rows ?ss)" "size fin = g" using Q by blast
  show "sent' = take (length sent - n) sent" by (fact e)
  show "\<exists>fin. rows_of claimed' + rows_of (sent_rows sent') + fin = rows_of claimed + rows_of (sent_rows (sent @ opt_list failed)) \<and> size fin = g"
    using fin sent_rows_take [of sent "length sent - n"] by (intro exI [of _ fin]) (simp add: e add_ac)
  show "\<forall>r\<in>set (sent_rows sent') \<union> set claimed'. good_row r"
    using Q good sub by (auto simp: e set_sent_rows dest: in_set_takeD)
  show "g = 0 \<and> claimed' = sent_rows ?ss @ claimed" if "ch = Charge_nothing" using Q that good sub by (auto simp: e)
qed

text \<open>Rows move, or are done; the reader's side is not touched.\<close>

definition tmoves :: "trace_shared \<Rightarrow> row multiset \<Rightarrow> trace_shared \<Rightarrow> row multiset \<Rightarrow> bool" where
  "tmoves sh J sh' J' \<longleftrightarrow>
     tv_rest sh' = tv_rest sh \<and> tv_reader sh' = tv_reader sh \<and> tv_sent sh' = tv_sent sh \<and> tv_stopped sh' = tv_stopped sh \<and>
     tv_error sh' = tv_error sh \<and> tv_started sh' = tv_started sh \<and> length (tv_batches sh') \<le> length (tv_batches sh) \<and>
     (\<exists>fin. shared_rows sh' + J' + fin = shared_rows sh + J \<and> tv_done sh' = tv_done sh + size fin)"

lemma tmoves_refl [intro, simp]: "tmoves sh J sh J"
  by (simp add: tmoves_def)

lemma tmoves_trans:
  assumes "tmoves a A b B" and "tmoves b B c C"
  shows "tmoves a A c C"
proof -
  obtain f where f: "shared_rows b + B + f = shared_rows a + A" "tv_done b = tv_done a + size f" using assms(1) by (auto simp: tmoves_def)
  obtain g where g: "shared_rows c + C + g = shared_rows b + B" "tv_done c = tv_done b + size g" using assms(2) by (auto simp: tmoves_def)
  have "shared_rows c + C + (g + f) = shared_rows a + A" using f(1) g(1) by (metis add.assoc)
  then have "\<exists>fin. shared_rows c + C + fin = shared_rows a + A \<and> tv_done c = tv_done a + size fin" using f(2) g(2) by (intro exI [of _ "g + f"]) simp
  then show ?thesis using assms by (simp add: tmoves_def)
qed

lemma tmoves_frame: "tmoves sh J sh' J' \<Longrightarrow> tmoves sh (J + K) sh' (J' + K)"
  unfolding tmoves_def by (auto simp: add.assoc)

lemma mark_done_fields [simp]:
  "tv_done (mark_done n sh) = tv_done sh + n" "tv_rest (mark_done n sh) = tv_rest sh" "tv_reader (mark_done n sh) = tv_reader sh"
  "tv_sent (mark_done n sh) = tv_sent sh" "tv_stopped (mark_done n sh) = tv_stopped sh" "tv_error (mark_done n sh) = tv_error sh"
  "tv_started (mark_done n sh) = tv_started sh" "tv_batches (mark_done n sh) = tv_batches sh" "tv_returned (mark_done n sh) = tv_returned sh"
  by (simp_all add: mark_done_def)

lemma tmoves_done:
  assumes "\<exists>fin. J' + fin = J \<and> size fin = n"
  shows "tmoves sh J (mark_done n (sh\<lparr>tv_rows_failed := x\<rparr>)) J'"
  using assms by (auto simp: tmoves_def shared_rows_def)

lemma next_row_spec:
  assumes "next_row sh claimed = (sh', claimed', r)" and good: "good_shared sh" "\<forall>r\<in>set claimed. good_row r"
  shows "tmoves sh (rows_of claimed) sh' (rows_of claimed' + (case r of Next_row x \<Rightarrow> {#rid x#} | _ \<Rightarrow> {#}))"
    and "good_shared sh'" "\<forall>r\<in>set claimed'. good_row r" "\<And>x. r = Next_row x \<Longrightarrow> good_row x"
proof -
  consider (claimed) x cl where "claimed = x # cl" | (returned) "claimed = []" "tv_returned sh \<noteq> []"
    | (batch) b bs where "claimed = []" "tv_returned sh = []" "tv_batches sh = b # bs"
    | (none) "claimed = []" "tv_returned sh = []" "tv_batches sh = []"
    by (metis neq_Nil_conv)
  then have "tmoves sh (rows_of claimed) sh' (rows_of claimed' + (case r of Next_row x \<Rightarrow> {#rid x#} | _ \<Rightarrow> {#})) \<and> good_shared sh' \<and>
     (\<forall>r\<in>set claimed'. good_row r) \<and> (\<forall>x. r = Next_row x \<longrightarrow> good_row x)"
  proof cases
    case claimed
    then show ?thesis using assms by (auto simp: next_row_def tmoves_def)
  next
    case returned
    define n where "n = min (length (tv_returned sh)) CLAIM_BATCH"
    define tk where "tk = take n (tv_returned sh)"
    have n: "0 < n" using returned by (simp add: n_def)
    then obtain x cl where tk: "tk = x # cl" using returned by (cases "tv_returned sh"; cases n) (auto simp: tk_def)
    have e: "sh' = sh\<lparr>tv_returned := drop n (tv_returned sh)\<rparr>" "claimed' = cl" "r = Next_row x"
      using assms(1) unfolding next_row_def returned(1) list.case if_P [OF returned(2)] Let_def n_def [symmetric] tk_def [symmetric] tk by simp_all
    have sp: "rows_of (tv_returned sh) = rows_of tk + rows_of (drop n (tv_returned sh))" unfolding tk_def by (rule rows_of_split)
    have sub: "set tk \<subseteq> set (tv_returned sh)" "set (drop n (tv_returned sh)) \<subseteq> set (tv_returned sh)" by (auto simp: tk_def dest: in_set_takeD in_set_dropD)
    then have "good_shared sh'" "\<forall>r\<in>set claimed'. good_row r" "good_row x" using good tk by (auto simp: e good_shared_def)
    then show ?thesis using returned sp by (simp add: e tmoves_def shared_rows_def tk add_ac)
  next
    case batch
    then show ?thesis using assms
      by (cases b) (auto simp: next_row_def Let_def tmoves_def shared_rows_def good_shared_def add_ac)
  next
    case none
    then show ?thesis using assms by (auto simp: next_row_def split: if_splits)
  qed
  then show "tmoves sh (rows_of claimed) sh' (rows_of claimed' + (case r of Next_row x \<Rightarrow> {#rid x#} | _ \<Rightarrow> {#}))"
    "good_shared sh'" "\<forall>r\<in>set claimed'. good_row r" "\<And>x. r = Next_row x \<Longrightarrow> good_row x" by blast+
qed

section \<open>A connection in step with its client\<close>

text \<open>
  \<open>pend\<close> and \<open>unf\<close> are those of \<open>client_laws\<close>. The requests recorded as sent and those in flight are the client's;
  what it still buffers was fired in this iteration; no batch with a zero-copy value outgrows a slot of the send pool.
\<close>

definition conn_wf :: "('c \<Rightarrow> u64 list) \<Rightarrow> ('c, 'rl, 'g, 't) trace_conn \<Rightarrow> bool" where
  "conn_wf pend c \<longleftrightarrow>
     inflight_inv (tc_inflight c) \<and> length (if_fired (tc_inflight c)) = length (pend (tc_client c)) \<and>
     length (tc_sent c) = length (pend (tc_client c)) \<and> (\<forall>r\<in>set (sent_rows (tc_sent c)). good_row r) \<and>
     (\<forall>(obj, sz)\<in>set (tc_backfill c). obj < U64_LIMIT \<and> sz \<le> VALUE_POOL_SIZE) \<and>
     (tc_batch_guard c \<longrightarrow> tc_batch_copied c \<le> RINGLINE_SEND_SLOT_SIZE)"

definition view_wf :: "('c \<Rightarrow> u64 list) \<Rightarrow> ('c \<Rightarrow> nat) \<Rightarrow> ('c, 'rl, 'g, 't) trace_view \<Rightarrow> bool" where
  "view_wf pend unf v \<longleftrightarrow> (case v of (sh, claimed, c, fired) \<Rightarrow>
     conn_wf pend c \<and> good_shared sh \<and> (\<forall>r\<in>set claimed. good_row r) \<and>
     unf (tc_client c) \<le> fired \<and> fired \<le> length (pend (tc_client c)) \<and> fired < U64_LIMIT)"

text \<open>The rows a worker's connection holds, claimed or in flight.\<close>

definition view_rows :: "row list \<Rightarrow> ('c, 'rl, 'g, 't) trace_conn \<Rightarrow> row multiset" where
  "view_rows claimed c = rows_of claimed + rows_of (sent_rows (tc_sent c))"

definition vmoves :: "('c, 'rl, 'g, 't) trace_view \<Rightarrow> ('c, 'rl, 'g, 't) trace_view \<Rightarrow> bool" where
  "vmoves v v' \<longleftrightarrow> (case v of (sh, claimed, c, fired) \<Rightarrow> case v' of (sh', claimed', c', fired') \<Rightarrow>
     tmoves sh (view_rows claimed c) sh' (view_rows claimed' c'))"

lemma vmoves_trans: "vmoves a b \<Longrightarrow> vmoves b c \<Longrightarrow> vmoves a c"
  by (auto simp: vmoves_def intro: tmoves_trans)

lemma vmoves_refl [simp, intro]: "vmoves v v"
  by (simp add: vmoves_def split: prod.splits)

text \<open>A request that was given to the client and did not leave.\<close>

definition sent_row :: "sent \<Rightarrow> row multiset" where
  "sent_row s = rows_of (sent_rows [s])"

definition good_sent :: "sent \<Rightarrow> bool" where
  "good_sent s \<longleftrightarrow> sent_obj s < U64_LIMIT \<and> (\<forall>r\<in>set (sent_rows [s]). good_row r) \<and> (sent_op s = Row_set \<longrightarrow> sent_size s \<le> VALUE_POOL_SIZE)"

lemma trace_next_ok:
  assumes wf: "view_wf pend unf (sh, claimed, c, fired)" and n: "trace_next (sh, claimed, c, fired) = ((sh', claimed', c', fired'), r)"
  shows "view_wf pend unf (sh', claimed', c', fired') \<and>
    tmoves sh (view_rows claimed c) sh' (view_rows claimed' c' + (case r of Inr s \<Rightarrow> sent_row s | Inl _ \<Rightarrow> {#})) \<and>
    (\<forall>s. r = Inr s \<longrightarrow> good_sent s) \<and> tc_client c' = tc_client c \<and> fired' = fired"
proof (cases "tc_backfill c")
  case (Cons b bf)
  then show ?thesis using wf n
    by (auto simp: trace_next_def view_wf_def conn_wf_def view_rows_def sent_row_def good_sent_def)
next
  case Nil
  obtain sh1 cl1 x where nr: "next_row sh claimed = (sh1, cl1, x)" using prod_cases3 by blast
  have g: "good_shared sh" "\<forall>r\<in>set claimed. good_row r" using wf by (simp_all add: view_wf_def)
  note N = next_row_spec [OF nr g]
  have mv: "tmoves sh (view_rows claimed c) sh1 (view_rows cl1 c + (case x of Next_row y \<Rightarrow> {#rid y#} | _ \<Rightarrow> {#}))"
    using tmoves_frame [OF N(1), of "rows_of (sent_rows (tc_sent c))"] by (simp add: view_rows_def add_ac)
  show ?thesis
  proof (cases x)
    case (Next_row y)
    then have e: "sh' = sh1" "claimed' = cl1" "c' = c" "fired' = fired" "r = Inr (Sent_row y)" using n Nil nr by (auto simp: trace_next_def)
    have "good_row y" using N(4) Next_row by simp
    then show ?thesis using mv wf N(2,3) Next_row by (auto simp: e view_wf_def sent_row_def good_sent_def good_row_def)
  next
    case Next_not_ready
    then have e: "sh' = sh1\<lparr>tv_read_waits := tv_read_waits sh1 + 1\<rparr>" "claimed' = cl1" "c' = c" "fired' = fired" "r = Inl Next_not_ready"
      using n Nil nr by (auto simp: trace_next_def)
    have "tmoves sh (view_rows claimed c) sh' (view_rows claimed' c')" using mv Next_not_ready by (simp add: e tmoves_def shared_rows_def)
    then show ?thesis using wf N(2,3) by (simp add: e view_wf_def good_shared_def)
  next
    case Next_exhausted
    then have e: "sh' = sh1" "claimed' = cl1" "c' = c" "fired' = fired" "r = Inl Next_exhausted" using n Nil nr by (auto simp: trace_next_def)
    then show ?thesis using mv wf N(2,3) Next_exhausted by (simp add: view_wf_def)
  qed
qed

text \<open>The client discarded its \<open>n\<close> newest requests, and the rows among them, with those of \<open>K\<close>, are requeued.\<close>

lemma discard_ok:
  assumes wf: "view_wf pend unf (sh, claimed, c, fired)"
    and n: "n \<le> unf (tc_client c)" "pend cl = take (length (pend (tc_client c)) - n) (pend (tc_client c))" "unf cl \<le> unf (tc_client c) - n"
      "unf (tc_client c) \<le> length (pend (tc_client c))"
    and q: "requeue (tc_sent c) n failed ch cl2 = (sent', claimed', g)"
    and good: "\<forall>r\<in>set cl2 \<union> set (sent_rows (opt_list failed)). good_row r"
    and rows: "rows_of cl2 + rows_of (sent_rows (opt_list failed)) = rows_of claimed + K"
    and c': "tc_client c' = cl" "tc_inflight c' = forget_newest (tc_inflight c) n" "tc_sent c' = sent'" "tc_backfill c' = tc_backfill c"
      "tc_batch_guard c' \<longrightarrow> tc_batch_copied c' \<le> RINGLINE_SEND_SLOT_SIZE"
  shows "view_wf pend unf (note_given_up sh g, claimed', c', wrapping_sub fired n) \<and>
    tmoves sh (view_rows claimed c + K) (note_given_up sh g) (view_rows claimed' c')"
proof -
  have w: "conn_wf pend c" "good_shared sh" "unf (tc_client c) \<le> fired" "fired \<le> length (pend (tc_client c))" "fired < U64_LIMIT"
    using wf by (simp_all add: view_wf_def)
  have "\<forall>r\<in>set (sent_rows (tc_sent c @ opt_list failed)) \<union> set cl2. good_row r" using good w(1) by (auto simp: conn_wf_def)
  note Q = requeue_spec [OF q this]
  have fired: "wrapping_sub fired n = fired - n" using n(1) w(3,5) by (intro wrapping_sub_exact) simp_all
  have len: "length (pend cl) = length (pend (tc_client c)) - n" using n(2) by simp
  have c1: "conn_wf pend c'"
    using w(1) Q(1,3) n(1,4) len c' unfolding conn_wf_def
    by (auto simp: inflight_ops_inv(3) forget_newest_len)
  have gs: "good_shared (note_given_up sh g)" using w(2) by (simp add: good_shared_def note_given_up_def)
  have "view_wf pend unf (note_given_up sh g, claimed', c', wrapping_sub fired n)"
    using c1 gs Q(3) n w len by (auto simp: view_wf_def fired c')
  moreover obtain fin where fin: "rows_of claimed' + rows_of (sent_rows sent') + fin = rows_of cl2 + rows_of (sent_rows (tc_sent c @ opt_list failed))" "size fin = g"
    using Q(2) by blast
  have "view_rows claimed' c' + fin = view_rows claimed c + K"
    using fin(1) rows by (simp add: view_rows_def c' add_ac)
  then have "tmoves sh (view_rows claimed c + K) (note_given_up sh g) (view_rows claimed' c')"
    unfolding note_given_up_def using fin(2) by (intro tmoves_done) blast
  ultimately show ?thesis by blast
qed

lemma trace_flush_ok:
  assumes laws: "client_laws C pend unf" and wf: "view_wf pend unf (sh, claimed, c, fired)"
    and s: "case nxt of Some s \<Rightarrow> good_sent s | None \<Rightarrow> True"
    and f: "trace_flush C never nxt (sh, claimed, c, fired) = ((sh', claimed', c', fired'), ok)"
  shows "view_wf pend unf (sh', claimed', c', fired') \<and> unf (tc_client c') = 0 \<and> tc_batch_copied c' = 0 \<and> \<not> tc_batch_guard c' \<and>
    length (pend (tc_client c')) \<le> length (pend (tc_client c)) \<and>
    (if ok then tmoves sh (view_rows claimed c) sh' (view_rows claimed' c')
     else tmoves sh (view_rows claimed c + (case nxt of Some s \<Rightarrow> sent_row s | None \<Rightarrow> {#})) sh' (view_rows claimed' c'))"
proof -
  obtain ok1 cl where fl: "cl_flush C (tc_client c) = (ok1, cl)" by fastforce
  let ?c = "c\<lparr>tc_client := cl, tc_batch_copied := 0, tc_batch_guard := False\<rparr>"
  show ?thesis
  proof (cases ok1)
    case True
    then have e: "sh' = sh" "claimed' = claimed" "c' = ?c" "fired' = fired" "ok" using f fl by (auto simp: trace_flush_def)
    have "pend cl = pend (tc_client c)" "unf cl = 0" using client_lawsD(5) [OF laws] fl True by auto
    then show ?thesis using wf by (auto simp: e view_wf_def conn_wf_def view_rows_def)
  next
    case False
    obtain n where n: "n \<le> unf (tc_client c)" "pend cl = take (length (pend (tc_client c)) - n) (pend (tc_client c))" "unf cl = 0"
      using client_lawsD(6) [OF laws, of "tc_client c" cl] fl False by auto
    have u: "unf (tc_client c) \<le> length (pend (tc_client c))" by (rule client_lawsD(2) [OF laws])
    have disc: "saturating_sub (cl_pending_count C (tc_client c)) (cl_pending_count C cl) = n" using n u by (simp add: client_lawsD(1) [OF laws])
    define ch where "ch = (if never cl then Charge_all else Charge_nothing)"
    define cl2 where "cl2 = (case nxt of Some (Sent_row r) \<Rightarrow> r # claimed | _ \<Rightarrow> claimed)"
    have rq: "(case nxt of Some s \<Rightarrow> requeue_with_next (tc_sent c) n s ch claimed | None \<Rightarrow> requeue (tc_sent c) n None ch claimed)
        = requeue (tc_sent c) n None ch cl2"
      by (auto simp: requeue_with_next_def cl2_def split: option.splits sent.splits)
    obtain sent1 claimed1 g where q: "requeue (tc_sent c) n None ch cl2 = (sent1, claimed1, g)" using prod_cases3 by blast
    obtain m where nd: "note_discarded (cl_pending_count C (tc_client c)) (cl_pending_count C cl) (tc_inflight c) True (tc_flight c) = (forget_newest (tc_inflight c) n, m, n)"
      using disc by (simp add: note_discarded_def Let_def)
    have e: "sh' = note_given_up sh g" "claimed' = claimed1" "c' = ?c\<lparr>tc_inflight := forget_newest (tc_inflight c) n, tc_flight := m, tc_sent := sent1\<rparr>"
        "fired' = wrapping_sub fired n" "\<not> ok"
      using f fl False nd rq [unfolded q] by (cases nxt; auto simp: trace_flush_def Let_def ch_def)+
    let ?K = "case nxt of Some s \<Rightarrow> sent_row s | None \<Rightarrow> {#}"
    have k: "rows_of cl2 + rows_of (sent_rows (opt_list None)) = rows_of claimed + ?K" "\<forall>r\<in>set cl2 \<union> set (sent_rows (opt_list None)). good_row r"
      using s wf by (auto simp: cl2_def sent_row_def opt_list_def good_sent_def view_wf_def split: option.splits sent.splits)
    have "view_wf pend unf (note_given_up sh g, claimed1, c', wrapping_sub fired n) \<and> tmoves sh (view_rows claimed c + ?K) (note_given_up sh g) (view_rows claimed1 c')"
      by (rule discard_ok [OF wf n(1,2) _ u q k(2,1)]) (simp_all add: e n(3))
    then show ?thesis using n u by (simp add: e)
  qed
qed

lemma trace_fire_one_ok:
  assumes laws: "client_laws C pend unf" and wf: "view_wf pend unf (sh, claimed, c, fired)" and s: "good_sent s"
    and room: "length (pend (tc_client c)) + 1 < U64_LIMIT"
    and slot: "tc_batch_guard c \<or> sent_guarded s \<longrightarrow> tc_batch_copied c + sent_copied cfg s \<le> RINGLINE_SEND_SLOT_SIZE"
    and f: "trace_fire_one C never G cfg fired_at slip s (sh, claimed, c, fired) = ((sh', claimed', c', fired'), ok)"
  shows "view_wf pend unf (sh', claimed', c', fired') \<and> length (pend (tc_client c')) \<le> length (pend (tc_client c)) + 1 \<and>
    tmoves sh (view_rows claimed c + sent_row s) sh' (view_rows claimed' c')"
proof -
  obtain cmd g1 where cmd: "trace_command G cfg s (tc_rng c) = (cmd, g1)" by fastforce
  obtain ok1 cl where fi: "cl_fire C (tc_client c) cmd = (ok1, cl)" by fastforce
  have u: "unf (tc_client c) \<le> length (pend (tc_client c))" by (rule client_lawsD(2) [OF laws])
  show ?thesis
  proof (cases ok1)
    case True
    have e: "sh' = sh" "claimed' = claimed" "fired' = wrapping_add fired 1"
        "c' = c\<lparr>tc_client := cl, tc_rng := g1, tc_slip_samples := tc_slip_samples c + (if slip then 1 else 0), tc_inflight := inflight_push (tc_inflight c) fired_at,
                tc_sent := tc_sent c @ [s], tc_batch_copied := tc_batch_copied c + sent_copied cfg s, tc_batch_guard := (tc_batch_guard c \<or> sent_guarded s)\<rparr>"
      using f cmd fi True by (auto simp: trace_fire_one_def)
    have p: "pend cl = pend (tc_client c) @ [fire_user_data cmd]" "unf cl \<le> unf (tc_client c) + 1" using client_lawsD(3) [OF laws] fi True by auto
    have fr: "fired \<le> length (pend (tc_client c))" "unf (tc_client c) \<le> fired" using wf by (simp_all add: view_wf_def)
    then have w: "wrapping_add fired 1 = fired + 1" using room by (intro wrapping_add_exact) simp
    have cw: "conn_wf pend c" using wf by (simp add: view_wf_def)
    have "inflight_inv (tc_inflight c)" using cw by (simp add: conn_wf_def)
    then have "inflight_inv (inflight_push (tc_inflight c) fired_at)" unfolding inflight_push_def by (rule inflight_ops_inv(1))
    moreover have "length (if_fired (inflight_push (tc_inflight c) fired_at)) = Suc (length (if_fired (tc_inflight c)))"
      by (simp add: inflight_push_def push_queued_def Let_def)
    moreover have "\<forall>r\<in>set (sent_rows (tc_sent c @ [s])). good_row r" using cw s by (auto simp: conn_wf_def good_sent_def)
    ultimately have "conn_wf pend c'" using cw slot p(1) unfolding conn_wf_def e(4) by simp
    then have "view_wf pend unf (sh', claimed', c', fired')" using wf p fr room w by (auto simp: view_wf_def e)
    moreover have "view_rows claimed' c' = view_rows claimed c + sent_row s" by (simp add: view_rows_def e sent_row_def add_ac)
    ultimately show ?thesis using p by (simp add: e)
  next
    case False
    obtain n where n: "n \<le> unf (tc_client c)" "pend cl = take (length (pend (tc_client c)) - n) (pend (tc_client c))" "unf cl = unf (tc_client c) - n"
      using client_lawsD(4) [OF laws, of "tc_client c" cmd cl] fi False by auto
    have disc: "saturating_sub (cl_pending_count C (tc_client c)) (cl_pending_count C cl) = n" using n u by (simp add: client_lawsD(1) [OF laws])
    define ch where "ch = (if never cl then Charge_failed else Charge_nothing)"
    obtain sent1 claimed1 g where q: "requeue (tc_sent c) n (Some s) ch claimed = (sent1, claimed1, g)" using prod_cases3 by blast
    obtain m where nd: "note_failed_fire (cl_pending_count C (tc_client c)) (cl_pending_count C cl) (tc_inflight c) True (tc_flight c) = (forget_newest (tc_inflight c) n, m, n)"
      using disc by (simp add: note_failed_fire_def note_discarded_def Let_def)
    have e: "sh' = note_given_up sh g" "claimed' = claimed1" "fired' = wrapping_sub fired n"
        "c' = c\<lparr>tc_client := cl, tc_rng := g1, tc_inflight := forget_newest (tc_inflight c) n, tc_flight := m, tc_sent := sent1\<rparr>"
      using f cmd fi False nd q by (auto simp: trace_fire_one_def Let_def ch_def)
    have k: "rows_of claimed + rows_of (sent_rows (opt_list (Some s))) = rows_of claimed + sent_row s"
        "\<forall>r\<in>set claimed \<union> set (sent_rows (opt_list (Some s))). good_row r"
      using s wf by (auto simp: sent_row_def opt_list_def good_sent_def view_wf_def)
    have "view_wf pend unf (note_given_up sh g, claimed1, c', wrapping_sub fired n) \<and> tmoves sh (view_rows claimed c + sent_row s) (note_given_up sh g) (view_rows claimed1 c')"
      by (rule discard_ok [OF wf n(1,2) _ u q k(2,1)]) (use wf in \<open>simp_all add: e n(3) view_wf_def conn_wf_def\<close>)
    then show ?thesis using n u by (simp add: e)
  qed
qed

text \<open>A key and a copied value fit a slot of the send pool.\<close>

definition fits_slot :: "trace_config \<Rightarrow> bool" where
  "fits_slot cfg \<longleftrightarrow> (\<forall>s. sent_obj s < U64_LIMIT \<longrightarrow> sent_copied cfg s \<le> RINGLINE_SEND_SLOT_SIZE)"

lemma trace_fire_ok:
  assumes laws: "client_laws C pend unf" and depth: "tg_pipeline_depth cfg < U64_LIMIT" and fits: "fits_slot cfg"
  shows "view_wf pend unf v \<Longrightarrow> trace_fire C never G cfg fired_at slip b v = (v', left, rb, ex) \<Longrightarrow> view_wf pend unf v' \<and> vmoves v v'"
proof (induction b arbitrary: v)
  case 0
  then show ?case by auto
next
  case (Suc b)
  obtain sh claimed c fired where v: "v = (sh, claimed, c, fired)" using prod_cases4 by blast
  show ?case
  proof (cases "cl_pending_count C (tc_client c) < tg_pipeline_depth cfg")
    case False
    then show ?thesis using Suc.prems by (auto simp: v)
  next
    case room: True
    obtain sh1 cl1 c1 f1 r where n: "trace_next v = ((sh1, cl1, c1, f1), r)" using prod_cases5 by (metis surj_pair)
    note N = trace_next_ok [OF Suc.prems(1) [unfolded v] n [unfolded v]]
    show ?thesis
    proof (cases r)
      case (Inl x)
      then have "v' = (sh1, cl1, c1, f1)" using Suc.prems(2) n room by (auto simp: v)
      then show ?thesis using N Inl by (auto simp: vmoves_def v)
    next
      case (Inr s)
      let ?mf = "must_flush_first (tc_batch_copied c1) (tc_batch_guard c1) (sent_copied cfg s) (sent_guarded s) RINGLINE_SEND_SLOT_SIZE"
      obtain sh2 cl2 c2 f2 ok where fl: "(if ?mf then trace_flush C never (Some s) (sh1, cl1, c1, f1) else ((sh1, cl1, c1, f1), True)) = ((sh2, cl2, c2, f2), ok)"
        using prod_cases5 by (metis surj_pair)
      have good: "good_sent s" using N Inr by simp
      have fs: "sent_copied cfg s \<le> RINGLINE_SEND_SLOT_SIZE" using fits good by (simp add: fits_slot_def good_sent_def)
      have wf1: "view_wf pend unf (sh1, cl1, c1, f1)" using N by blast
      have mv1: "tmoves sh (view_rows claimed c) sh1 (view_rows cl1 c1 + sent_row s)" using N Inr by simp
      have F: "view_wf pend unf (sh2, cl2, c2, f2) \<and> length (pend (tc_client c2)) \<le> length (pend (tc_client c1)) \<and>
          (if ok then tmoves sh1 (view_rows cl1 c1) sh2 (view_rows cl2 c2) \<and>
                      (tc_batch_guard c2 \<or> sent_guarded s \<longrightarrow> tc_batch_copied c2 + sent_copied cfg s \<le> RINGLINE_SEND_SLOT_SIZE)
           else tmoves sh1 (view_rows cl1 c1 + sent_row s) sh2 (view_rows cl2 c2))"
      proof (cases ?mf)
        case True
        then have "trace_flush C never (Some s) (sh1, cl1, c1, f1) = ((sh2, cl2, c2, f2), ok)" using fl by simp
        from trace_flush_ok [OF laws wf1 _ this] good show ?thesis using fs by auto
      next
        case False
        then have "sh2 = sh1" "cl2 = cl1" "c2 = c1" "f2 = f1" ok using fl by auto
        then show ?thesis using wf1 False fs by (auto simp: must_flush_first_def)
      qed
      show ?thesis
      proof (cases ok)
        case False
        then have "v' = (sh2, cl2, c2, f2)" using Suc.prems(2) n room Inr fl by (auto simp: v Let_def)
        then show ?thesis using F False tmoves_trans [OF mv1] by (auto simp: vmoves_def v)
      next
        case True
        obtain sh3 cl3 c3 f3 ok3 where fi: "trace_fire_one C never G cfg fired_at slip s (sh2, cl2, c2, f2) = ((sh3, cl3, c3, f3), ok3)"
          using prod_cases5 by (metis surj_pair)
        have "length (pend (tc_client c2)) + 1 < U64_LIMIT" using F N room depth client_lawsD(1) [OF laws] by auto
        with F True have O: "view_wf pend unf (sh3, cl3, c3, f3)" "tmoves sh2 (view_rows cl2 c2 + sent_row s) sh3 (view_rows cl3 c3)"
          using trace_fire_one_ok [OF laws _ good _ _ fi] by auto
        have "tmoves sh1 (view_rows cl1 c1 + sent_row s) sh2 (view_rows cl2 c2 + sent_row s)" using F True by (intro tmoves_frame) simp
        from tmoves_trans [OF tmoves_trans [OF mv1 this] O(2)] have m3: "vmoves v (sh3, cl3, c3, f3)" by (simp add: vmoves_def v)
        show ?thesis
        proof (cases ok3)
          case True
          then have "trace_fire C never G cfg fired_at slip b (sh3, cl3, c3, f3) = (v', left, rb, ex)"
            using Suc.prems(2) n room Inr fl \<open>ok\<close> fi by (auto simp: v Let_def)
          from Suc.IH [OF O(1) this] show ?thesis using vmoves_trans [OF m3] by blast
        next
          case False
          then have "v' = (sh3, cl3, c3, f3)" using Suc.prems(2) n room Inr fl \<open>ok\<close> fi by (auto simp: v Let_def)
          then show ?thesis using O m3 by simp
        qed
      qed
    qed
  qed
qed

section \<open>An iteration, a reply, the end of a connection\<close>

text \<open>Between iterations the client buffers nothing.\<close>

definition conn_idle :: "('c \<Rightarrow> u64 list) \<Rightarrow> ('c \<Rightarrow> nat) \<Rightarrow> ('c, 'rl, 'g, 't) trace_conn \<Rightarrow> bool" where
  "conn_idle pend unf c \<longleftrightarrow> conn_wf pend c \<and> unf (tc_client c) = 0"

lemma trace_budget_fields:
  assumes "trace_budget L cfg now c = (c', b, st)"
  shows "tc_client c' = tc_client c" "tc_inflight c' = tc_inflight c" "tc_sent c' = tc_sent c" "tc_backfill c' = tc_backfill c"
    "tc_batch_copied c' = tc_batch_copied c" "tc_batch_guard c' = tc_batch_guard c"
  using assms by (auto simp: trace_budget_def Let_def split: option.splits if_splits prod.splits sum.splits)

lemma trace_fill_ok:
  assumes laws: "client_laws C pend unf" and depth: "tg_pipeline_depth cfg < U64_LIMIT" and fits: "fits_slot cfg"
    and wf: "view_wf pend unf (sh, claimed, c, 0)" and f: "trace_fill L C never G cfg ph now sh claimed c = (v, st, rb, ex)"
  shows "view_wf pend unf v \<and> vmoves (sh, claimed, c, 0) v"
proof (cases "(ph = Warmup \<or> ph = Running) \<and> tg_batch_size cfg \<le> tg_pipeline_depth cfg - cl_pending_count C (tc_client c) \<and> tv_started sh")
  case False
  then have "v = (sh, claimed, c, 0)" using f unfolding trace_fill_def Let_def if_not_P [OF False] by simp
  then show ?thesis using wf by simp
next
  case True
  obtain c0 b s0 where bud: "trace_budget L cfg now c = (c0, b, s0)" using prod_cases3 by blast
  obtain sh1 cl1 c1 f1 left rb1 ex1 where fr: "trace_fire C never G cfg now (tc_limiter c0 \<noteq> None) b (sh, claimed, c0, 0) = ((sh1, cl1, c1, f1), left, rb1, ex1)"
    using prod_cases7 by (metis surj_pair)
  define c2 where "c2 = (if (rb1 \<or> ex1) \<and> left > 0 then c1\<lparr>tc_carried_tokens := wrapping_add (tc_carried_tokens c1) left\<rparr> else c1)"
  have v: "v = (sh1, cl1, c2, f1)" using f unfolding trace_fill_def Let_def if_P [OF True] bud prod.case fr c2_def [symmetric] by simp
  have B: "view_wf pend unf (sh, claimed, c0, 0)" "view_rows claimed c0 = view_rows claimed c"
    using wf trace_budget_fields [OF bud] by (simp_all add: view_wf_def conn_wf_def view_rows_def)
  note F = trace_fire_ok [OF laws depth fits B(1) fr]
  have "view_wf pend unf v" using F by (auto simp: view_wf_def conn_wf_def c2_def v)
  moreover have "view_rows cl1 c2 = view_rows cl1 c1" by (simp add: view_rows_def c2_def)
  ultimately show ?thesis using F B(2) by (simp add: v vmoves_def)
qed

lemma trace_iteration_ok:
  assumes laws: "client_laws C pend unf" and depth: "tg_pipeline_depth cfg < U64_LIMIT" and fits: "fits_slot cfg"
    and idle: "conn_idle pend unf c" and good: "good_shared sh" "\<forall>r\<in>set claimed. good_row r"
    and i: "trace_iteration L C never G cfg ph disp now sh claimed c = (sh', claimed', c', e)"
  shows "conn_idle pend unf c' \<and> good_shared sh' \<and> (\<forall>r\<in>set claimed'. good_row r) \<and>
    tmoves sh (view_rows claimed c) sh' (view_rows claimed' c') \<and> (e = Trace_recv \<longrightarrow> pend (tc_client c') \<noteq> [])"
proof (cases "should_stop ph \<or> cl_pending_count C (tc_client c) = 0 \<and> \<not> cl_is_alive C (tc_client c)")
  case True
  then have "sh' = sh" "claimed' = claimed" "c' = c" "e \<noteq> Trace_recv" using i unfolding trace_iteration_def by (cases "should_stop ph"; auto)+
  then show ?thesis using idle good by simp
next
  case False
  then have nots: "\<not> should_stop ph" "\<not> (cl_pending_count C (tc_client c) = 0 \<and> \<not> cl_is_alive C (tc_client c))" by blast+
  obtain v st rb ex where fi: "trace_fill L C never G cfg ph now sh claimed c = (v, st, rb, ex)" using prod_cases4 by blast
  obtain shv clv cv fv where v: "v = (shv, clv, cv, fv)" using prod_cases4 by blast
  obtain sh3 cl3 c3 f3 ok where fl: "trace_flush C never None (shv, clv, cv, fv) = ((sh3, cl3, c3, f3), ok)" using prod_cases5 by (metis surj_pair)
  have res: "sh' = sh3" "claimed' = cl3" "c' = c3\<lparr>tc_requests_sent := wrapping_add (tc_requests_sent c3) f3\<rparr>"
      "e = Trace_recv \<longrightarrow> cl_pending_count C (tc_client c3) \<noteq> 0"
    using i unfolding trace_iteration_def if_not_P [OF nots(1)] if_not_P [OF nots(2)] Let_def fi v prod.case fl by (auto split: if_splits)
  have "view_wf pend unf (sh, claimed, c, 0)" using idle good by (simp add: view_wf_def conn_idle_def)
  from trace_fill_ok [OF laws depth fits this fi] have V: "view_wf pend unf (shv, clv, cv, fv)" "tmoves sh (view_rows claimed c) shv (view_rows clv cv)"
    by (simp_all add: v vmoves_def)
  have L: "view_wf pend unf (sh3, cl3, c3, f3)" "unf (tc_client c3) = 0" "tmoves shv (view_rows clv cv) sh3 (view_rows cl3 c3)"
    using trace_flush_ok [OF laws V(1) _ fl] by (auto split: if_splits)
  have "conn_idle pend unf c'" using L(1,2) by (simp add: res view_wf_def conn_idle_def conn_wf_def)
  moreover have "view_rows cl3 c' = view_rows cl3 c3" by (simp add: view_rows_def res)
  ultimately show ?thesis using L tmoves_trans [OF V(2) L(3)] res client_lawsD(1) [OF laws] by (auto simp: view_wf_def)
qed

text \<open>The client after a reply: the oldest pending request is gone, and nothing becomes buffered.\<close>

definition reply_law :: "('c \<Rightarrow> u64 list) \<Rightarrow> ('c \<Rightarrow> nat) \<Rightarrow> ('c \<Rightarrow> 'c) \<Rightarrow> bool" where
  "reply_law pend unf rcv \<longleftrightarrow> (\<forall>c. pend c \<noteq> [] \<longrightarrow> pend (rcv c) = tl (pend c) \<and> (unf c = 0 \<longrightarrow> unf (rcv c) = 0))"

lemma trace_reply_ok:
  assumes rcv: "reply_law pend unf rcv"
    and idle: "conn_idle pend unf c" and p: "pend (tc_client c) \<noteq> []" and good: "good_shared sh"
  shows "\<exists>sh' c'. trace_reply rcv cfg m sh c = Some (sh', c') \<and> conn_idle pend unf c' \<and> good_shared sh' \<and>
    tmoves sh (view_rows claimed c) sh' (view_rows claimed c')"
proof -
  have w: "inflight_inv (tc_inflight c)" "length (if_fired (tc_inflight c)) = length (pend (tc_client c))" "length (tc_sent c) = length (pend (tc_client c))"
      "\<forall>r\<in>set (sent_rows (tc_sent c)). good_row r" using idle by (simp_all add: conn_idle_def conn_wf_def)
  obtain d ss where s: "tc_sent c = d # ss" using w(3) p by (cases "tc_sent c") auto
  have i: "inflight_inv (fst (inflight_pop (tc_inflight c)))" "length (if_fired (fst (inflight_pop (tc_inflight c)))) = length ss"
    using w s inflight_ops_inv(2) by (simp_all add: inflight_pop_def)
  have pn: "length (pend (rcv (tc_client c))) = length ss" using rcv p w(3) s by (simp add: reply_law_def)
  obtain sh' c' where r: "trace_reply rcv cfg m sh c = Some (sh', c')"
    by (cases "trace_reply rcv cfg m sh c") (auto simp: trace_reply_def s Let_def)
  have c': "tc_client c' = rcv (tc_client c)" "tc_inflight c' = fst (inflight_pop (tc_inflight c))" "tc_sent c' = ss"
      "tc_batch_copied c' = tc_batch_copied c" "tc_batch_guard c' = tc_batch_guard c"
    using r by (auto simp: trace_reply_def s Let_def split: sent.splits if_splits)
  have b: "\<forall>(obj, sz)\<in>set (tc_backfill c'). obj < U64_LIMIT \<and> sz \<le> VALUE_POOL_SIZE"
    using r idle w(4) by (auto simp: trace_reply_def s Let_def conn_idle_def conn_wf_def good_row_def split: sent.splits if_splits)
  have "conn_idle pend unf c'"
    using idle i pn b rcv p w(4) unfolding reply_law_def conn_idle_def conn_wf_def c' by (auto simp: s set_sent_rows)
  moreover have "good_shared sh' \<and> tmoves sh (view_rows claimed c) sh' (view_rows claimed c')"
  proof (cases d)
    case (Sent_row w)
    then have "sh' = trace_row_done w sh" using r by (auto simp: trace_reply_def s Let_def)
    moreover have "view_rows claimed c = add_mset (rid w) (view_rows claimed c')" by (simp add: view_rows_def c' s Sent_row)
    ultimately show ?thesis using good
      by (cases "rw_op w") (auto simp: trace_row_done_def Let_def tmoves_def shared_rows_def good_shared_def intro!: exI [of _ "{#rid w#}"])
  next
    case (Sent_backfill obj sz)
    then have "sh' = sh" "view_rows claimed c' = view_rows claimed c" using r by (auto simp: trace_reply_def s Let_def view_rows_def c')
    then show ?thesis using good by simp
  qed
  ultimately show ?thesis using r by blast
qed

lemma length_sent_rows: "length (filter is_row ss) = size (rows_of (sent_rows ss))"
  by (induction ss rule: sent_rows.induct) (auto simp: is_row_def)

lemma trace_drive_end_ok:
  assumes d: "trace_drive_end stop failed ss sh claimed = (sh', claimed')" and good: "good_shared sh" "\<forall>r\<in>set claimed. good_row r"
  shows "good_shared sh' \<and> (\<forall>r\<in>set claimed'. good_row r) \<and>
    (if stop then tmoves sh (rows_of claimed) sh' (rows_of claimed') else tmoves sh (rows_of claimed + rows_of (sent_rows ss)) sh' (rows_of claimed'))"
proof -
  define sh1 where "sh1 = (if \<not> stop then mark_done (length (filter is_row ss)) (sh\<lparr>tv_rows_failed := tv_rows_failed sh + length (filter is_row ss)\<rparr>) else sh)"
  have m: "if stop then tmoves sh (rows_of claimed) sh1 (rows_of claimed) else tmoves sh (rows_of claimed + rows_of (sent_rows ss)) sh1 (rows_of claimed)"
    unfolding sh1_def by (auto simp: length_sent_rows intro!: tmoves_done)
  have g: "good_shared sh1" using good by (auto simp: sh1_def good_shared_def)
  have e: "(sh', claimed') = (if failed then return_claimed sh1 claimed else (sh1, claimed))" using d by (auto simp: trace_drive_end_def sh1_def Let_def)
  have r: "tmoves sh1 (rows_of claimed) sh' (rows_of claimed')"
    using e by (auto simp: return_claimed_append tmoves_def shared_rows_def add_ac split: if_splits)
  have "good_shared sh' \<and> (\<forall>r\<in>set claimed'. good_row r)"
    using e g good by (auto simp: return_claimed_append good_shared_def split: if_splits)
  then show ?thesis using m tmoves_trans [OF _ r] by (auto split: if_splits)
qed

section \<open>The whole replay\<close>

text \<open>A worker: the rows it claimed and its connections, \<open>None\<close> while one is not connected.\<close>

type_synonym ('c, 'rl, 'g, 't) trace_worker = "row list \<times> ('c, 'rl, 'g, 't) trace_conn option list"

text \<open>A connection as \<open>run\<close> starts it.\<close>

definition trace_conn_new :: "('c \<Rightarrow> u64 list) \<Rightarrow> ('c \<Rightarrow> nat) \<Rightarrow> ('c, 'rl, 'g, 't) trace_conn \<Rightarrow> bool" where
  "trace_conn_new pend unf c \<longleftrightarrow>
     pend (tc_client c) = [] \<and> unf (tc_client c) = 0 \<and> tc_sent c = [] \<and> tc_backfill c = [] \<and> tc_carried_tokens c = 0 \<and>
     (\<exists>timeout. tc_inflight c = inflight_new timeout) \<and> tc_batch_copied c = 0 \<and> \<not> tc_batch_guard c"

text \<open>
  What one connection does: \<open>stop\<close> when the run has stopped. The result has \<open>None\<close> for the connection when \<open>drive\<close> has
  returned.
\<close>

inductive conn_step ::
  "'rl ratelimit \<Rightarrow> 'c client_api \<Rightarrow> ('c \<Rightarrow> bool) \<Rightarrow> 'g sampling \<Rightarrow> trace_config \<Rightarrow> ('c \<Rightarrow> u64 list) \<Rightarrow> ('c \<Rightarrow> nat) \<Rightarrow> ('c \<Rightarrow> 'c) \<Rightarrow> bool \<Rightarrow>
   trace_shared \<Rightarrow> row list \<Rightarrow> ('c, 'rl, 'g, 't) trace_conn option \<Rightarrow>
   trace_shared \<times> row list \<times> ('c, 'rl, 'g, 't) trace_conn option \<Rightarrow> bool"
  for L C never G cfg pend unf rcv stop sh claimed where
  connect: "trace_conn_new pend unf c \<Longrightarrow> conn_step L C never G cfg pend unf rcv stop sh claimed None (sh, claimed, Some c)"
| iterate: "trace_iteration L C never G cfg ph disp now sh claimed c = (sh', claimed', c', e) \<Longrightarrow> \<forall>r. e \<noteq> Trace_return r \<Longrightarrow>
    conn_step L C never G cfg pend unf rcv stop sh claimed (Some c) (sh', claimed', Some c')"
| finish: "trace_iteration L C never G cfg ph disp now sh claimed c = (sh\<^sub>1, claimed\<^sub>1, c', Trace_return r) \<Longrightarrow>
    trace_drive_end stop (r \<noteq> None) (tc_sent c') sh\<^sub>1 claimed\<^sub>1 = (sh', claimed') \<Longrightarrow>
    conn_step L C never G cfg pend unf rcv stop sh claimed (Some c) (sh', claimed', None)"
| acquired: "conn_step L C never G cfg pend unf rcv stop sh claimed (Some c) (sh, claimed, Some (trace_acquired n c))"
| reply: "pend (tc_client c) \<noteq> [] \<Longrightarrow> trace_reply rcv cfg m sh c = Some (sh', c') \<Longrightarrow>
    conn_step L C never G cfg pend unf rcv stop sh claimed (Some c) (sh', claimed, Some c')"
| lost: "trace_drive_end stop True (tc_sent c) sh claimed = (sh', claimed') \<Longrightarrow>
    conn_step L C never G cfg pend unf rcv stop sh claimed (Some c) (sh', claimed', None)"

inductive trace_step ::
  "'rl ratelimit \<Rightarrow> 'c client_api \<Rightarrow> ('c \<Rightarrow> bool) \<Rightarrow> 'g sampling \<Rightarrow> trace_config \<Rightarrow> ('c \<Rightarrow> u64 list) \<Rightarrow> ('c \<Rightarrow> nat) \<Rightarrow> ('c \<Rightarrow> 'c) \<Rightarrow> trace_ops \<Rightarrow>
   bool \<times> trace_shared \<times> ('c, 'rl, 'g, 't) trace_worker list \<Rightarrow> bool \<times> trace_shared \<times> ('c, 'rl, 'g, 't) trace_worker list \<Rightarrow> bool"
  for L C never G cfg pend unf rcv ops where
  reader: "trace_reader_step ops panicked sh = Some sh' \<Longrightarrow> trace_step L C never G cfg pend unf rcv ops (stop, sh, ws) (stop, sh', ws)"
| start: "trace_step L C never G cfg pend unf rcv ops (stop, sh, ws) (stop, trace_start sh, ws)"
| stop: "trace_step L C never G cfg pend unf rcv ops (stop, sh, ws) (True, sh, ws)"
| conn: "k < length ws \<Longrightarrow> ws ! k = (claimed, cs) \<Longrightarrow> j < length cs \<Longrightarrow>
    conn_step L C never G cfg pend unf rcv stop sh claimed (cs ! j) (sh', claimed', c') \<Longrightarrow>
    trace_step L C never G cfg pend unf rcv ops (stop, sh, ws) (stop, sh', ws[k := (claimed', cs[j := c'])])"

definition conn_rows :: "('c, 'rl, 'g, 't) trace_conn option \<Rightarrow> row multiset" where
  "conn_rows c = (case c of None \<Rightarrow> {#} | Some c \<Rightarrow> rows_of (sent_rows (tc_sent c)))"

definition tworker_rows :: "('c, 'rl, 'g, 't) trace_worker \<Rightarrow> row multiset" where
  "tworker_rows w = rows_of (fst w) + (\<Sum>c\<leftarrow>snd w. conn_rows c)"

definition tworker_wf :: "('c \<Rightarrow> u64 list) \<Rightarrow> ('c \<Rightarrow> nat) \<Rightarrow> ('c, 'rl, 'g, 't) trace_worker \<Rightarrow> bool" where
  "tworker_wf pend unf w \<longleftrightarrow> (\<forall>r\<in>set (fst w). good_row r) \<and> (\<forall>c. Some c \<in> set (snd w) \<longrightarrow> conn_idle pend unf c)"

text \<open>A step of a connection moves rows; those in flight when the run has stopped are left out of every count.\<close>

lemma no_loss: "tmoves sh J sh' J' \<Longrightarrow> \<exists>lost. tmoves sh J sh' (J' + lost) \<and> (\<not> stop \<longrightarrow> lost = {#})"
  by (intro exI [of _ "{#}"]) simp

lemma conn_step_ok:
  assumes laws: "client_laws C pend unf" "reply_law pend unf rcv" and cfg: "tg_pipeline_depth cfg < U64_LIMIT" "fits_slot cfg"
    and s: "conn_step L C never G cfg pend unf rcv stop sh claimed x (sh', claimed', x')"
    and wf: "\<And>c. x = Some c \<Longrightarrow> conn_idle pend unf c" and good: "good_shared sh" "\<forall>r\<in>set claimed. good_row r"
  shows "(\<forall>c. x' = Some c \<longrightarrow> conn_idle pend unf c) \<and> good_shared sh' \<and> (\<forall>r\<in>set claimed'. good_row r) \<and>
    (\<exists>lost. tmoves sh (rows_of claimed + conn_rows x) sh' (rows_of claimed' + conn_rows x' + lost) \<and> (\<not> stop \<longrightarrow> lost = {#}))"
  using s
proof cases
  case (connect c)
  have "conn_idle pend unf c" using connect by (auto simp: trace_conn_new_def conn_idle_def conn_wf_def inflight_inv_def inflight_new_def)
  moreover have "conn_rows x' = conn_rows x" using connect by (simp add: conn_rows_def trace_conn_new_def)
  ultimately show ?thesis using connect good no_loss [of sh "rows_of claimed + conn_rows x" sh "rows_of claimed + conn_rows x'" stop] by simp
next
  case (iterate ph disp now c c' e)
  note I = trace_iteration_ok [OF laws(1) cfg wf [OF iterate(1)] good iterate(3)]
  then have "tmoves sh (rows_of claimed + conn_rows x) sh' (rows_of claimed' + conn_rows x')"
    using iterate by (simp add: conn_rows_def view_rows_def)
  then show ?thesis using I iterate no_loss by simp
next
  case (finish ph disp now c sh\<^sub>1 claimed\<^sub>1 c' r)
  note I = trace_iteration_ok [OF laws(1) cfg wf [OF finish(1)] good finish(3)]
  have g: "good_shared sh\<^sub>1" "\<forall>r\<in>set claimed\<^sub>1. good_row r" using I by blast+
  note E = trace_drive_end_ok [OF finish(4) g]
  have m: "tmoves sh (rows_of claimed + conn_rows x) sh\<^sub>1 (rows_of claimed\<^sub>1 + rows_of (sent_rows (tc_sent c')))"
    using I finish by (simp add: conn_rows_def view_rows_def)
  have "\<exists>lost. tmoves sh\<^sub>1 (rows_of claimed\<^sub>1 + rows_of (sent_rows (tc_sent c'))) sh' (rows_of claimed' + lost) \<and> (\<not> stop \<longrightarrow> lost = {#})"
    using E tmoves_frame [of sh\<^sub>1 "rows_of claimed\<^sub>1" sh' "rows_of claimed'" "rows_of (sent_rows (tc_sent c'))"] by (cases stop) auto
  then show ?thesis using E finish tmoves_trans [OF m] by (auto simp: conn_rows_def)
next
  case (acquired c n)
  then have "conn_idle pend unf (trace_acquired n c)" "conn_rows x' = conn_rows x"
    using wf [of c] by (simp_all add: conn_idle_def conn_wf_def trace_acquired_def conn_rows_def)
  then show ?thesis using acquired good no_loss [of sh "rows_of claimed + conn_rows x" sh "rows_of claimed + conn_rows x'" stop] by simp
next
  case (reply c m c')
  have idle: "conn_idle pend unf c" using wf reply by simp
  have "conn_idle pend unf c' \<and> good_shared sh' \<and> tmoves sh (view_rows claimed c) sh' (view_rows claimed c')"
    using trace_reply_ok [OF laws(2) idle reply(4) good(1), of cfg m claimed] reply(5) by auto
  then show ?thesis using reply good no_loss [of sh "rows_of claimed + conn_rows x" sh' "rows_of claimed + conn_rows x'" stop]
    by (simp add: conn_rows_def view_rows_def)
next
  case (lost c)
  note E = trace_drive_end_ok [OF lost(3) good]
  have "\<exists>lost. tmoves sh (rows_of claimed + rows_of (sent_rows (tc_sent c))) sh' (rows_of claimed' + lost) \<and> (\<not> stop \<longrightarrow> lost = {#})"
    using E tmoves_frame [of sh "rows_of claimed" sh' "rows_of claimed'" "rows_of (sent_rows (tc_sent c))"] by (cases stop) auto
  then show ?thesis using E lost by (auto simp: conn_rows_def)
qed

text \<open>The rows the trace's entries give, in order; a read error ends the entries.\<close>

definition trace_rows :: "trace_ops \<Rightarrow> trace_entry list \<Rightarrow> row list" where
  "trace_rows ops es = List.map_filter (\<lambda>e. row_from_entry ops e VALUE_POOL_SIZE) es"

definition tsending :: "trace_shared \<Rightarrow> row multiset" where
  "tsending sh = (case tv_reader sh of TSending b _ \<Rightarrow> rows_of b | _ \<Rightarrow> {#})"

definition taccounts :: "row list \<Rightarrow> trace_shared \<Rightarrow> ('c, 'rl, 'g, 't) trace_worker list \<Rightarrow> row multiset \<Rightarrow> row multiset \<Rightarrow> bool" where
  "taccounts sent sh ws fin lost \<longleftrightarrow>
     length sent = tv_sent sh \<and> size fin = tv_done sh \<and>
     rows_of sent = shared_rows sh + tsending sh + (\<Sum>w\<leftarrow>ws. tworker_rows w) + fin + lost"

text \<open>The reader has taken \<open>es\<close> from the trace, and \<open>batch\<close> is what it has not counted as sent yet.\<close>

definition treader_at ::
  "trace_ops \<Rightarrow> (string + trace_entry) list \<Rightarrow> row list \<Rightarrow> trace_shared \<Rightarrow> trace_entry list \<Rightarrow> (string + trace_entry) list \<Rightarrow> row list \<Rightarrow> bool" where
  "treader_at ops trace sent sh es rest batch \<longleftrightarrow>
     length (tv_batches sh) \<le> READ_AHEAD_BATCHES \<and> good_shared sh \<and>
     trace = map Inr es @ rest \<and> trace_rows ops es = sent @ batch \<and> (\<forall>r\<in>set batch. good_row r) \<and>
     (case tv_reader sh of
        TReading b \<Rightarrow> \<not> tv_stopped sh \<and> tv_error sh = None \<and> rest = tv_rest sh \<and> batch = b
      | TSending b final \<Rightarrow> \<not> tv_stopped sh \<and> batch = [] \<and> (\<forall>r\<in>set b. good_row r) \<and>
          (if final then tv_error sh = None \<longrightarrow> rest = [] else tv_error sh = None \<and> rest = tv_rest sh)
      | _ \<Rightarrow> tv_stopped sh \<and> (tv_error sh = None \<longrightarrow> rest = [] \<and> batch = []))"

definition treader_wf :: "trace_ops \<Rightarrow> (string + trace_entry) list \<Rightarrow> row list \<Rightarrow> trace_shared \<Rightarrow> bool" where
  "treader_wf ops trace sent sh \<longleftrightarrow> (\<exists>es rest batch. treader_at ops trace sent sh es rest batch)"

definition trace_inv ::
  "('c \<Rightarrow> u64 list) \<Rightarrow> ('c \<Rightarrow> nat) \<Rightarrow> trace_ops \<Rightarrow> (string + trace_entry) list \<Rightarrow> bool \<times> trace_shared \<times> ('c, 'rl, 'g, 't) trace_worker list \<Rightarrow> bool" where
  "trace_inv pend unf ops trace s \<longleftrightarrow> (case s of (stop, sh, ws) \<Rightarrow>
     (\<forall>w\<in>set ws. tworker_wf pend unf w) \<and>
     (\<exists>sent fin lost. treader_wf ops trace sent sh \<and> taccounts sent sh ws fin lost \<and> (\<not> stop \<longrightarrow> lost = {#})))"

text \<open>Object ids are 64 bits wide.\<close>

definition entries_ok :: "(string + trace_entry) list \<Rightarrow> bool" where
  "entries_ok trace \<longleftrightarrow> (\<forall>e. Inr e \<in> set trace \<longrightarrow> te_obj_id e < U64_LIMIT)"

lemma row_from_entry_good:
  assumes "row_from_entry ops e VALUE_POOL_SIZE = Some r" and "te_obj_id e < U64_LIMIT"
  shows "good_row r"
  using assms by (auto simp: row_from_entry_def good_row_def split: option.splits if_splits)

lemmas reader_simps = treader_at_def trace_read_end_def trace_reader_stop_def trace_send_def good_shared_def taccounts_def tsending_def shared_rows_def

text \<open>What is left of a batch is sent, or the reader stops.\<close>

lemma treader_end_ok:
  assumes r: "treader_at ops trace sent sh es rest batch" and a: "taccounts sent sh ws fin lost" and at: "tv_reader sh = TReading batch"
    and x: "tv_batches x = tv_batches sh" "tv_returned x = tv_returned sh" "tv_sent x = tv_sent sh" "tv_done x = tv_done sh"
      "tv_stopped x = tv_stopped sh" "tv_error x = None \<longrightarrow> rest = []"
  shows "\<exists>sent'. treader_wf ops trace sent' (trace_read_end batch x) \<and> taccounts sent' (trace_read_end batch x) ws fin lost"
proof (cases "batch = []")
  case True
  then have "treader_at ops trace sent (trace_read_end batch x) es rest batch" "taccounts sent (trace_read_end batch x) ws fin lost"
    using r a at x by (auto simp: reader_simps)
  then show ?thesis unfolding treader_wf_def by blast
next
  case False
  then have "treader_at ops trace (sent @ batch) (trace_read_end batch x) es rest []" "taccounts (sent @ batch) (trace_read_end batch x) ws fin lost"
    using r a at x by (auto simp: reader_simps add_ac)
  then show ?thesis unfolding treader_wf_def by blast
qed

text \<open>An entry is read: its row joins the batch, which is sent when full, or it is skipped.\<close>

lemma treader_entry_ok:
  assumes r: "treader_at ops trace sent sh es (Inr e # xs) batch" and a: "taccounts sent sh ws fin lost" and at: "tv_reader sh = TReading batch"
    and eok: "te_obj_id e < U64_LIMIT" and s: "trace_reader_step ops False sh = Some sh'"
  shows "\<exists>sent'. treader_wf ops trace sent' sh' \<and> taccounts sent' sh' ws fin lost"
proof -
  have rest: "tv_rest sh = Inr e # xs" "\<not> tv_stopped sh" "tv_error sh = None" using r at by (auto simp: treader_at_def)
  have tr: "trace = map Inr (es @ [e]) @ xs" "trace_rows ops es = sent @ batch" using r by (auto simp: treader_at_def)
  have rows: "trace_rows ops (es @ [e]) = sent @ batch @ (case row_from_entry ops e VALUE_POOL_SIZE of Some r \<Rightarrow> [r] | None \<Rightarrow> [])"
    using tr(2) by (simp add: trace_rows_def map_filter_def split: option.splits)
  show ?thesis
  proof (cases "row_from_entry ops e VALUE_POOL_SIZE")
    case None
    then have "sh' = sh\<lparr>tv_rest := xs, tv_rows_skipped := tv_rows_skipped sh + 1\<rparr>" using s at rest by (simp add: trace_reader_step_def Let_def)
    then have "treader_at ops trace sent sh' (es @ [e]) xs batch" "taccounts sent sh' ws fin lost"
      using r a at rest tr(1) rows None by (auto simp: reader_simps)
    then show ?thesis unfolding treader_wf_def by blast
  next
    case (Some r')
    have gr: "good_row r'" by (rule row_from_entry_good [OF Some eok])
    show ?thesis
    proof (cases "length (batch @ [r']) = CLAIM_BATCH")
      case True
      then have "sh' = trace_send (batch @ [r']) False (sh\<lparr>tv_rest := xs\<rparr>)" using s at rest Some by (simp add: trace_reader_step_def Let_def)
      then have "treader_at ops trace (sent @ batch @ [r']) sh' (es @ [e]) xs []" "taccounts (sent @ batch @ [r']) sh' ws fin lost"
        using r a at rest tr(1) rows Some gr by (auto simp: reader_simps add_ac)
      then show ?thesis unfolding treader_wf_def by blast
    next
      case False
      then have "sh' = sh\<lparr>tv_rest := xs, tv_reader := TReading (batch @ [r'])\<rparr>" using s at rest Some by (simp add: trace_reader_step_def Let_def)
      then have "treader_at ops trace sent sh' (es @ [e]) xs (batch @ [r'])" "taccounts sent sh' ws fin lost"
        using r a at rest tr(1) rows Some gr by (auto simp: reader_simps)
      then show ?thesis unfolding treader_wf_def by blast
    qed
  qed
qed

lemma treader_step_inv:
  assumes s: "trace_reader_step ops panicked sh = Some sh'" and wf: "treader_wf ops trace sent sh" and a: "taccounts sent sh ws fin lost"
    and ok: "entries_ok trace"
  shows "\<exists>sent'. treader_wf ops trace sent' sh' \<and> taccounts sent' sh' ws fin lost"
proof -
  obtain es rest batch where r: "treader_at ops trace sent sh es rest batch" using wf by (auto simp: treader_wf_def)
  show ?thesis
  proof (cases "tv_reader sh")
    case (TReading b)
    then have st: "tv_error sh = None" "tv_rest sh = rest" and at: "tv_reader sh = TReading batch" using r by (auto simp: treader_at_def)
    consider (panic) panicked | (ending) "\<not> panicked" "rest = []" | (error) e xs where "\<not> panicked" "rest = Inl e # xs"
      | (entry) e xs where "\<not> panicked" "rest = Inr e # xs"
      by (metis neq_Nil_conv sumE)
    then show ?thesis
    proof cases
      case panic
      then have "treader_at ops trace sent sh' es rest batch" "taccounts sent sh' ws fin lost"
        using s at r a st by (auto simp: trace_reader_step_def trace_set_once_def reader_simps)
      then show ?thesis unfolding treader_wf_def by blast
    next
      case ending
      then have "sh' = trace_read_end batch sh" using s at st by (simp add: trace_reader_step_def)
      then show ?thesis using treader_end_ok [OF r a at, of sh] ending by simp
    next
      case error
      let ?x = "sh\<lparr>tv_rest := xs, tv_error := trace_set_once (tv_error sh) e\<rparr>"
      have "sh' = trace_read_end batch ?x" using s at st error by (simp add: trace_reader_step_def)
      then show ?thesis using treader_end_ok [OF r a at, of ?x] st by (simp add: trace_set_once_def)
    next
      case entry
      have "te_obj_id e < U64_LIMIT" using ok r entry by (auto simp: entries_ok_def treader_at_def)
      moreover have "trace_reader_step ops False sh = Some sh'" using s entry(1) by simp
      ultimately show ?thesis by (rule treader_entry_ok [OF r [unfolded entry(2)] a at])
    qed
  next
    case (TSending b final)
    then have "treader_at ops trace sent sh' es rest []" "taccounts sent sh' ws fin lost"
      using s r a by (cases final; auto simp: trace_reader_step_def Let_def reader_simps add_ac split: if_splits)+
    then show ?thesis unfolding treader_wf_def by blast
  next
    case TStopping
    then have "treader_at ops trace sent sh' es rest batch" "taccounts sent sh' ws fin lost"
      using s r a by (auto simp: trace_reader_step_def reader_simps)
    then show ?thesis unfolding treader_wf_def by blast
  qed (use s in \<open>simp add: trace_reader_step_def\<close>)
qed

lemma treader_wf_keep:
  assumes "treader_wf ops trace sent sh" and "tv_rest sh' = tv_rest sh" "tv_reader sh' = tv_reader sh" "tv_stopped sh' = tv_stopped sh" "tv_error sh' = tv_error sh"
    "length (tv_batches sh') \<le> length (tv_batches sh)" "good_shared sh'"
  shows "treader_wf ops trace sent sh'"
proof -
  obtain es rest batch where "treader_at ops trace sent sh es rest batch" using assms(1) by (auto simp: treader_wf_def)
  then have "treader_at ops trace sent sh' es rest batch" using assms(2-) unfolding treader_at_def by (cases "tv_reader sh") auto
  then show ?thesis by (auto simp: treader_wf_def)
qed

lemma conn_step_inv:
  assumes laws: "client_laws C pend unf" "reply_law pend unf rcv" and cfg: "tg_pipeline_depth cfg < U64_LIMIT" "fits_slot cfg"
    and k: "k < length ws" "ws ! k = (claimed, cs)" "j < length cs"
    and s: "conn_step L C never G cfg pend unf rcv stop sh claimed (cs ! j) (sh', claimed', x')"
    and wf: "\<forall>w\<in>set ws. tworker_wf pend unf w" and r: "treader_wf ops trace sent sh" and a: "taccounts sent sh ws fin lost"
  shows "(\<forall>w\<in>set (ws[k := (claimed', cs[j := x'])]). tworker_wf pend unf w) \<and> treader_wf ops trace sent sh' \<and>
    (\<exists>fin' lost'. taccounts sent sh' (ws[k := (claimed', cs[j := x'])]) fin' (lost + lost') \<and> (\<not> stop \<longrightarrow> lost' = {#}))"
proof -
  have wk: "tworker_wf pend unf (claimed, cs)" using wf k by (metis nth_mem)
  have g: "good_shared sh" "\<forall>r\<in>set claimed. good_row r" using r wk by (auto simp: treader_wf_def treader_at_def tworker_wf_def)
  have ci: "conn_idle pend unf c" if "cs ! j = Some c" for c using wk that k(3) nth_mem [of j cs] by (auto simp: tworker_wf_def)
  note S = conn_step_ok [OF laws cfg s ci g]
  obtain l where m: "tmoves sh (rows_of claimed + conn_rows (cs ! j)) sh' (rows_of claimed' + conn_rows x' + l)" and l: "\<not> stop \<longrightarrow> l = {#}" using S by blast
  have "tworker_wf pend unf (claimed', cs[j := x'])"
    using wk S set_update_subset_insert [of cs j x'] by (auto simp: tworker_wf_def)
  then have one: "\<forall>w\<in>set (ws[k := (claimed', cs[j := x'])]). tworker_wf pend unf w" using wf set_update_subset_insert [of ws k] by blast
  have f: "tv_rest sh' = tv_rest sh" "tv_reader sh' = tv_reader sh" "tv_sent sh' = tv_sent sh" "tv_stopped sh' = tv_stopped sh" "tv_error sh' = tv_error sh"
      "length (tv_batches sh') \<le> length (tv_batches sh)" using m by (simp_all add: tmoves_def)
  have two: "treader_wf ops trace sent sh'" using treader_wf_keep [OF r f(1,2,4,5,6)] S by blast
  obtain K where K: "(\<Sum>w\<leftarrow>ws. tworker_rows w) = tworker_rows (ws ! k) + K" "\<And>y. (\<Sum>w\<leftarrow>ws[k := y]. tworker_rows w) = tworker_rows y + K"
    using sum_list_at [OF k(1), of tworker_rows] by blast
  obtain M where M: "(\<Sum>c\<leftarrow>cs. conn_rows c) = conn_rows (cs ! j) + M" "\<And>y. (\<Sum>c\<leftarrow>cs[j := y]. conn_rows c) = conn_rows y + M"
    using sum_list_at [OF k(3), of conn_rows] by blast
  obtain g' where g': "shared_rows sh' + (rows_of claimed' + conn_rows x' + l) + g' = shared_rows sh + (rows_of claimed + conn_rows (cs ! j))" "tv_done sh' = tv_done sh + size g'"
    using m by (auto simp: tmoves_def)
  have ts: "tsending sh' = tsending sh" by (simp add: tsending_def f)
  have "rows_of sent = shared_rows sh + (rows_of claimed + conn_rows (cs ! j)) + (tsending sh + M + K + fin + lost)"
    using a k(2) K(1) M(1) by (simp add: taccounts_def tworker_rows_def add_ac)
  also have "\<dots> = shared_rows sh' + tsending sh' + (tworker_rows (claimed', cs[j := x']) + K) + (fin + g') + (lost + l)"
    unfolding g'(1) [symmetric] ts by (simp add: tworker_rows_def M(2) add_ac)
  finally have "taccounts sent sh' (ws[k := (claimed', cs[j := x'])]) (fin + g') (lost + l)" using a g'(2) f(3) by (simp add: taccounts_def K(2))
  then show ?thesis using one two l by blast
qed

lemma trace_step_inv:
  assumes laws: "client_laws C pend unf" "reply_law pend unf rcv" and cfg: "tg_pipeline_depth cfg < U64_LIMIT" "fits_slot cfg" and ok: "entries_ok trace"
    and s: "trace_step L C never G cfg pend unf rcv ops s s'" and inv: "trace_inv pend unf ops trace s"
  shows "trace_inv pend unf ops trace s'"
  using s
proof cases
  case (reader panicked sh sh' stop ws)
  obtain sent fin lost where "treader_wf ops trace sent sh" "taccounts sent sh ws fin lost" "\<not> stop \<longrightarrow> lost = {#}" "\<forall>w\<in>set ws. tworker_wf pend unf w"
    using inv reader(1) by (auto simp: trace_inv_def)
  with treader_step_inv [OF reader(3) _ _ ok] reader(2) show ?thesis by (fastforce simp: trace_inv_def)
next
  case (start stop sh ws)
  obtain sent fin lost where i: "treader_wf ops trace sent sh" "taccounts sent sh ws fin lost" "\<not> stop \<longrightarrow> lost = {#}" "\<forall>w\<in>set ws. tworker_wf pend unf w"
    using inv start(1) by (auto simp: trace_inv_def)
  have "good_shared (trace_start sh)" using i(1) by (auto simp: treader_wf_def treader_at_def good_shared_def trace_start_def)
  then have "treader_wf ops trace sent (trace_start sh)" "taccounts sent (trace_start sh) ws fin lost"
    using treader_wf_keep [OF i(1), of "trace_start sh"] i(2) by (simp_all add: trace_start_def taccounts_def tsending_def shared_rows_def)
  then show ?thesis using i start(2) by (auto simp: trace_inv_def)
next
  case (stop st sh ws)
  then show ?thesis using inv by (auto simp: trace_inv_def)
next
  case (conn k ws claimed cs j stop sh sh' claimed' c')
  obtain sent fin lost where i: "treader_wf ops trace sent sh" "taccounts sent sh ws fin lost" "\<not> stop \<longrightarrow> lost = {#}" "\<forall>w\<in>set ws. tworker_wf pend unf w"
    using inv conn(1) by (auto simp: trace_inv_def)
  from conn_step_inv [OF laws cfg conn(3-6) i(4,1,2)] i(3) show ?thesis unfolding conn(2) trace_inv_def by fastforce
qed

text \<open>Where a replay starts.\<close>

definition trace_begin :: "(string + trace_entry) list \<Rightarrow> bool \<times> trace_shared \<times> ('c, 'rl, 'g, 't) trace_worker list \<Rightarrow> bool" where
  "trace_begin trace s \<longleftrightarrow> (case s of (stop, sh, ws) \<Rightarrow>
     \<not> stop \<and> tv_rest sh = trace \<and> tv_reader sh = TReading [] \<and> tv_sent sh = 0 \<and> \<not> tv_stopped sh \<and> tv_error sh = None \<and>
     tv_batches sh = [] \<and> tv_done sh = 0 \<and> tv_returned sh = [] \<and> (\<forall>w\<in>set ws. fst w = [] \<and> set (snd w) \<subseteq> {None}))"

lemma conn_rows_none: "set cs \<subseteq> {None} \<Longrightarrow> (\<Sum>c\<leftarrow>cs. conn_rows c) = {#}"
  by (induction cs) (auto simp: conn_rows_def)

lemma trace_begin_inv:
  assumes "trace_begin trace s"
  shows "trace_inv pend unf ops trace s"
proof -
  obtain stop sh ws where s: "s = (stop, sh, ws)" using prod_cases3 by blast
  have "tworker_rows w = {#}" if "w \<in> set ws" for w
  proof -
    have w: "fst w = []" "set (snd w) \<subseteq> {None}" using assms that by (auto simp: trace_begin_def s)
    then show ?thesis by (simp add: tworker_rows_def conn_rows_none)
  qed
  then have "(\<Sum>w\<leftarrow>ws. tworker_rows w) = {#}" by (induction ws) auto
  then have "taccounts [] sh ws {#} {#}" "treader_at ops trace [] sh [] trace []" using assms by (auto simp: trace_begin_def s reader_simps trace_rows_def map_filter_def)
  moreover have "\<forall>w\<in>set ws. tworker_wf pend unf w" using assms by (fastforce simp: trace_begin_def s tworker_wf_def)
  ultimately show ?thesis unfolding s trace_inv_def treader_wf_def by fastforce
qed


section \<open>An example\<close>

lemma length_decimal: "n < 10 ^ Suc k \<Longrightarrow> length (decimal n) \<le> Suc k"
proof (induction k arbitrary: n)
  case (Suc k)
  then have "n div 10 < 10 ^ Suc k" by (simp add: less_mult_imp_div_less)
  then show ?case using Suc.IH [of "n div 10"] decimal.simps [of n] by simp
qed (simp add: decimal.simps)

text \<open>Any key prefix of up to 12000 bytes leaves room for a request in a slot.\<close>

lemma fits_slot_prefix:
  assumes "length (tg_key_prefix cfg) \<le> 12000"
  shows "fits_slot cfg"
proof -
  have key: "length (trace_key cfg i) \<le> 12020" if "i < U64_LIMIT" for i
  proof (cases "tg_key_format cfg")
    case KvHex
    then show ?thesis using assms hex_fill_spec [of 16 i] by (simp add: trace_key_def write_key_def)
  next
    case KvDecimal
    have "i < 10 ^ Suc 19" using that by simp
    from length_decimal [OF this] show ?thesis using assms KvDecimal by (simp add: trace_key_def)
  qed
  have "sent_copied cfg s \<le> RINGLINE_SEND_SLOT_SIZE" if "sent_obj s < U64_LIMIT" for s
    using key [OF that] by (auto simp: sent_copied_def sent_guarded_def)
  then show ?thesis by (simp add: fits_slot_def)
qed

definition demo_trace_ops :: trace_ops where
  "demo_trace_ops = \<lparr>op_is_delete = (\<lambda>c. c = 9), op_is_write = (\<lambda>c. c \<in> {3, 4, 5, 6, 7, 8, 10, 11, 13, 14}), op_is_read = (\<lambda>c. c \<in> {0, 1, 2, 12})\<rparr>"

definition demo_trace :: "(string + trace_entry) list" where
  "demo_trace = [Inr \<lparr>te_obj_id = 7, te_obj_size = 100, te_op = Some 1\<rparr>]"

definition demo_trace_config :: trace_config where
  "demo_trace_config = \<lparr>tg_key_prefix = [], tg_key_format = KvHex, tg_pipeline_depth = 4, tg_batch_size = 1, tg_pool_len = 1024, tg_backfill_on_miss = True\<rparr>"

definition demo_trace_shared :: trace_shared where
  "demo_trace_shared = \<lparr>tv_rest = demo_trace, tv_reader = TReading [], tv_sent = 0, tv_stopped = False, tv_error = None, tv_batches = [],
     tv_done = 0, tv_started = False, tv_returned = [], tv_rows = 0, tv_rows_failed = 0, tv_rows_skipped = 0, tv_gets = 0, tv_sets = 0,
     tv_dels = 0, tv_read_waits = 0\<rparr>"

definition demo_trace_workers :: "(queue_client, bucket, nat, nat) trace_worker list" where
  "demo_trace_workers = [([], [None, None])]"

definition qc_recv :: "queue_client \<Rightarrow> queue_client" where
  "qc_recv c = c\<lparr>qc_pending := tl (qc_pending c), qc_buffered := min (qc_buffered c) (length (tl (qc_pending c)))\<rparr>"

lemma demo_trace_ok:
  "reply_law qc_pending qc_unflushed qc_recv" "tg_pipeline_depth demo_trace_config < U64_LIMIT" "fits_slot demo_trace_config"
  "entries_ok demo_trace" "trace_begin demo_trace (False, demo_trace_shared, demo_trace_workers)"
proof -
  show "fits_slot demo_trace_config" by (rule fits_slot_prefix) (simp add: demo_trace_config_def)
  show "trace_begin demo_trace (False, demo_trace_shared, demo_trace_workers)"
    by (simp add: trace_begin_def demo_trace_shared_def demo_trace_workers_def)
qed (auto simp: reply_law_def qc_recv_def qc_unflushed_def demo_trace_config_def entries_ok_def demo_trace_def)

text \<open>The reader has taken the entry.\<close>

definition demo_trace_later :: trace_shared where
  "demo_trace_later = demo_trace_shared\<lparr>tv_rest := [], tv_reader := TReading [\<lparr>rw_obj_id = 7, rw_size = 100, rw_op = Row_get, rw_failed_sends = 0\<rparr>]\<rparr>"

lemma demo_trace_reach:
  "(trace_step bucket_api queue_client_api (\<lambda>_. False) demo_sampling demo_trace_config qc_pending qc_unflushed qc_recv demo_trace_ops)\<^sup>*\<^sup>*
     (False, demo_trace_shared, demo_trace_workers) (False, demo_trace_later, demo_trace_workers)"
proof (rule r_into_rtranclp, rule trace_step.reader [of _ False])
  show "trace_reader_step demo_trace_ops False demo_trace_shared = Some demo_trace_later"
    by (simp add: trace_reader_step_def demo_trace_shared_def demo_trace_later_def demo_trace_def demo_trace_ops_def Let_def row_from_entry_def row_op_from_trace_def)
qed


end
