(* ===== verification/Runner.thy ===== *)
theory Runner
  imports Config Shared_State
begin

text \<open>
  The main thread of a run (\<open>src/runner.rs\<close>, \<open>run_benchmark_full\<close> from its loop to the totals): every
  100 ms it looks at the shared counters and moves the run through precheck, prefill, warmup and
  recording to its end, feeds the append stream, and lets the saturation search judge a step.

  \<open>runner_tick\<close> is one pass of the loop. What it sees of the outside is a \<open>tick\<close>: the clock (one
  reading per pass), the interrupt flag, whether every worker thread has exited, the state of a
  replay and the metrics. Between two passes the workers update the shared counters (\<open>worker_op\<close>).
  \<open>None\<close> is a panic. What a pass only displays is not kept. A time is in nanoseconds on a clock that
  started at least a connect timeout before the run.
\<close>

section \<open>State\<close>

record run_counters =
  ct_requests :: nat
  ct_responses :: nat
  ct_errors :: nat
  ct_timeouts :: nat
  ct_conn_failures :: nat
  ct_hits :: nat
  ct_misses :: nat
  ct_get :: nat
  ct_set :: nat
  ct_backfill_set :: nat
  ct_append_set :: nat
  ct_bytes_tx :: nat
  ct_bytes_rx :: nat
  ct_send_failed :: nat
  ct_routed_dropped :: nat

record 'h tick =
  tk_now :: nat
  tk_running :: bool
  tk_running_after :: bool \<comment> \<open>the flag again, after waiting for a trace's first rows\<close>
  tk_handles_finished :: bool
  tk_kv_error :: bool
  tk_kv_finished :: bool
  tk_trace_error :: bool
  tk_trace_finished :: bool
  tk_counters :: run_counters
  tk_conns_active :: int
  tk_view :: "'h metrics_view"

record run_config =
  rc_num_threads :: nat
  rc_connect_timeout :: nat
  rc_prefill_enabled :: bool
  rc_prefill_timeout :: nat
  rc_warmup :: nat
  rc_duration :: nat
  rc_report_interval :: nat
  rc_search :: "saturation_config option"
  rc_append :: "append_config option"
  rc_key_count :: nat
  rc_key_len :: nat
  rc_key_format :: key_format
  rc_endpoints :: nat
  rc_kv_replay :: bool
  rc_trace_replay :: bool

record ('rl, 'h) run_state =
  rn_phase :: phase
  rn_shared :: shared_state
  rn_start :: nat
  rn_precheck_start :: "nat option"
  rn_prefill_start :: nat
  rn_last_prefill_confirmed :: nat
  rn_last_prefill_progress :: nat
  rn_warmup_start :: "nat option"
  rn_running_start :: "nat option"
  rn_last_report :: nat
  rn_actual_duration :: nat
  rn_baseline :: run_counters
  rn_baseline_dropped :: nat
  rn_baseline_append_batches :: nat
  rn_limiters :: "'rl worker_limiters option"
  rn_pacer :: "'rl prefill_pacer option"
  rn_saturation :: "('rl, 'h) saturation_state option"
  rn_kv_started :: "nat option"
  rn_trace_started :: bool
  rn_append_next_id :: nat
  rn_append_next_at :: "nat option"
  rn_append_batch_open :: bool
  rn_append_batches :: nat
  rn_append_head :: "nat option" \<comment> \<open>the keyspace head readers draw below, with the recency distribution\<close>
  rn_append_queues :: queues
  rn_router :: router

datatype stall_cause = NoConnections | NoResponses | Stalled | TooSlow "nat option" | Unknown

datatype run_end = Interrupted | Trace_failed | Precheck_failed | Prefill_failed stall_cause | Finished

abbreviation PREFILL_STALL_THRESHOLD :: nat where "PREFILL_STALL_THRESHOLD \<equiv> 30000000000"

definition stop_run :: "('rl, 'h) run_state \<Rightarrow> ('rl, 'h) run_state" where
  "stop_run s = s\<lparr>rn_shared := set_phase Stop (rn_shared s)\<rparr>"

section \<open>Precheck and prefill\<close>

text \<open>\<open>kv.start_at\<close> keeps the first time it is given.\<close>

definition kv_start_at :: "nat \<Rightarrow> ('rl, 'h) run_state \<Rightarrow> ('rl, 'h) run_state" where
  "kv_start_at now s = (case rn_kv_started s of None \<Rightarrow> s\<lparr>rn_kv_started := Some now\<rparr> | Some _ \<Rightarrow> s)"

definition begin_prefill :: "'rl ratelimit \<Rightarrow> nat \<Rightarrow> ('rl, 'h) run_state \<Rightarrow> ('rl, 'h) run_state" where
  "begin_prefill L now s =
     s\<lparr>rn_pacer := map_option (pacer_restart L now) (rn_pacer s),
       rn_shared := set_phase Prefill (rn_shared s), rn_phase := Prefill,
       rn_prefill_start := now, rn_last_prefill_progress := now\<rparr>"

text \<open>The limiters are restarted before any worker sees the phase in which they are used.\<close>

definition begin_warmup :: "'rl ratelimit \<Rightarrow> run_config \<Rightarrow> bool \<Rightarrow> nat \<Rightarrow> ('rl, 'h) run_state \<Rightarrow> ('rl, 'h) run_state" where
  "begin_warmup L cfg from_precheck now s =
     (let s = (if rc_kv_replay cfg \<and> rc_warmup cfg \<noteq> 0 then kv_start_at now s else s);
          s = (if from_precheck \<and> rc_trace_replay cfg \<and> rc_warmup cfg \<noteq> 0 then s\<lparr>rn_trace_started := True\<rparr> else s)
      in s\<lparr>rn_limiters := map_option (limiters_restart L now) (rn_limiters s),
           rn_shared := set_phase Warmup (rn_shared s), rn_phase := Warmup, rn_warmup_start := Some now\<rparr>)"

definition precheck_tick ::
  "'rl ratelimit \<Rightarrow> run_config \<Rightarrow> 'h tick \<Rightarrow> ('rl, 'h) run_state \<Rightarrow> ('rl, 'h) run_state \<times> run_end option" where
  "precheck_tick L cfg tk s =
     (let now = tk_now tk; n = rc_num_threads cfg in
      if sh_precheck_done (rn_shared s) \<ge> n then
        if rc_kv_replay cfg \<and> tk_kv_error tk then ((stop_run s)\<lparr>rn_actual_duration := 0\<rparr>, Some Trace_failed)
        else if rc_kv_replay cfg \<and> \<not> tk_running_after tk then (s, None)
        else if rc_trace_replay cfg \<and> tk_trace_error tk then ((stop_run s)\<lparr>rn_actual_duration := 0\<rparr>, Some Trace_failed)
        else if rc_trace_replay cfg \<and> \<not> tk_running_after tk then (s, None)
        else if rc_prefill_enabled cfg then (begin_prefill L now s, None)
        else (begin_warmup L cfg True now s, None)
      else
        let started = (case rn_precheck_start s of
                         Some t \<Rightarrow> Some t
                       | None \<Rightarrow> if sh_workers_started (rn_shared s) \<ge> n then Some now
                                 else if tk_handles_finished tk then Some (now - rc_connect_timeout cfg)
                                 else None)
        in case started of
             None \<Rightarrow> (s, None)
           | Some t \<Rightarrow>
               let s = s\<lparr>rn_precheck_start := Some t\<rparr>
               in if now - t \<ge> rc_connect_timeout cfg then (stop_run s, Some Precheck_failed) else (s, None))"

definition stall_cause_of :: "'h tick \<Rightarrow> bool \<Rightarrow> nat \<Rightarrow> nat \<Rightarrow> nat \<Rightarrow> stall_cause" where
  "stall_cause_of tk stalled confirmed tot elapsed =
     (if tk_conns_active tk = 0 then NoConnections
      else if ct_bytes_rx (tk_counters tk) = 0 then NoResponses
      else if stalled then Stalled
      else if confirmed > 0 \<and> tot > confirmed then
        let rate = f_div (f_of_nat confirmed) (duration_as_secs_f64 elapsed) in
        TooSlow (if f_lt (Fin 0) rate then duration_from_secs_f64 (f_div (f_of_nat (tot - confirmed)) rate) else Some 0)
      else Unknown)"

definition prefill_tick ::
  "'rl ratelimit \<Rightarrow> run_config \<Rightarrow> 'h tick \<Rightarrow> ('rl, 'h) run_state \<Rightarrow> ('rl, 'h) run_state \<times> run_end option" where
  "prefill_tick L cfg tk s =
     (let now = tk_now tk; confirmed = sh_prefill_confirmed (rn_shared s); tot = sh_prefill_total (rn_shared s) in
      if tot > 0 \<and> confirmed \<ge> tot then (begin_warmup L cfg False now s, None)
      else
        let elapsed = now - rn_prefill_start s;
            s = (if confirmed > rn_last_prefill_confirmed s
                 then s\<lparr>rn_last_prefill_confirmed := confirmed, rn_last_prefill_progress := now\<rparr> else s);
            stalled = (now - rn_last_prefill_progress s \<ge> PREFILL_STALL_THRESHOLD);
            timed_out = (rc_prefill_timeout cfg \<noteq> 0 \<and> elapsed \<ge> rc_prefill_timeout cfg)
        in if stalled \<or> timed_out then (stop_run s, Some (Prefill_failed (stall_cause_of tk stalled confirmed tot elapsed)))
           else (s, None))"

section \<open>Warmup and recording\<close>

definition begin_running ::
  "'rl ratelimit \<Rightarrow> run_config \<Rightarrow> 'h tick \<Rightarrow> ('rl, 'h) run_state \<Rightarrow> ('rl, 'h) run_state" where
  "begin_running L cfg tk s =
     (let now = tk_now tk;
          s = s\<lparr>rn_shared := set_phase Running (rn_shared s), rn_phase := Running, rn_running_start := Some now,
                rn_last_report := now, rn_baseline := tk_counters tk,
                rn_baseline_append_batches := rn_append_batches s,
                rn_baseline_dropped := (case rn_limiters s of Some rl \<Rightarrow> limiters_dropped L rl | None \<Rightarrow> 0)\<rparr>;
          s = (if rc_kv_replay cfg then kv_start_at now s else s);
          s = (if rc_trace_replay cfg then s\<lparr>rn_trace_started := True\<rparr> else s)
      in case (rc_search cfg, rn_limiters s) of
           (Some sat, Some rl) \<Rightarrow>
             let st = saturation_new L now sat rl
             in s\<lparr>rn_saturation := Some st, rn_limiters := Some (ss_limiters st)\<rparr>
         | _ \<Rightarrow> s)"

text \<open>A drained batch is published; otherwise the next one is opened when its time has come.\<close>

definition append_tick :: "run_config \<Rightarrow> nat \<Rightarrow> ('rl, 'h) run_state \<Rightarrow> ('rl, 'h) run_state option" where
  "append_tick cfg now s =
     (case (rc_append cfg, rn_append_head s, rn_warmup_start s) of
        (Some a, Some _, Some ws) \<Rightarrow>
          if rn_phase s = Warmup \<or> rn_phase s = Running then
            let next_at = (case rn_append_next_at s of Some t \<Rightarrow> t | None \<Rightarrow> ws + ap_every a);
                s = s\<lparr>rn_append_next_at := Some next_at\<rparr>
            in if rn_append_batch_open s then
                 if sh_append_confirmed (rn_shared s) \<ge> sh_append_total (rn_shared s) then
                   Some (s\<lparr>rn_append_batch_open := False, rn_append_batches := wrapping_add (rn_append_batches s) 1,
                           rn_append_head := Some (rn_append_next_id s)\<rparr>)
                 else Some s
               else if now \<ge> next_at then
                 (case enqueue_append_batch (rn_router s) (rc_key_format cfg) (rn_append_queues s) (rn_append_next_id s)
                         (ap_batch a) (rc_key_len cfg) (rc_endpoints cfg) of
                    None \<Rightarrow> None
                  | Some q \<Rightarrow> Some (s\<lparr>rn_append_queues := q, rn_shared := add_append_total (ap_batch a) (rn_shared s),
                                     rn_append_next_id := wrapping_add (rn_append_next_id s) (ap_batch a),
                                     rn_append_batch_open := True, rn_append_next_at := Some (next_at + ap_every a)\<rparr>))
               else Some s
          else Some s
      | _ \<Rightarrow> Some s)"

text \<open>The search shares the run's limiters.\<close>

definition report_tick ::
  "'rl ratelimit \<Rightarrow> 'h histogram_api \<Rightarrow> run_config \<Rightarrow> 'h tick \<Rightarrow> ('rl, 'h) run_state \<Rightarrow> ('rl, 'h) run_state" where
  "report_tick L H cfg tk s =
     (if rn_phase s = Running \<and> tk_now tk - rn_last_report s \<ge> rc_report_interval cfg then
        let s = s\<lparr>rn_last_report := tk_now tk\<rparr>
        in case (rn_saturation s, rn_limiters s) of
             (Some st, Some rl) \<Rightarrow>
               let st = fst (check_and_advance L H (tk_now tk) (tk_view tk) (st\<lparr>ss_limiters := rl\<rparr>))
               in s\<lparr>rn_saturation := Some st, rn_limiters := Some (ss_limiters st)\<rparr>
           | _ \<Rightarrow> s
      else s)"

definition run_done :: "run_config \<Rightarrow> 'h tick \<Rightarrow> ('rl, 'h) run_state \<Rightarrow> bool" where
  "run_done cfg tk s \<longleftrightarrow>
     (let elapsed = tk_now tk - (case rn_warmup_start s of Some t \<Rightarrow> t | None \<Rightarrow> rn_start s);
          saturation_done = (case rn_saturation s of Some st \<Rightarrow> ss_completed st | None \<Rightarrow> False);
          time_done = (elapsed \<ge> rc_warmup cfg + rc_duration cfg);
          kv_done = (rc_kv_replay cfg \<and> tk_kv_finished tk \<or> rc_trace_replay cfg \<and> tk_trace_finished tk)
      in saturation_done \<or> kv_done \<or> time_done \<and> rc_search cfg = None)"

definition measured_tick ::
  "'rl ratelimit \<Rightarrow> 'h histogram_api \<Rightarrow> run_config \<Rightarrow> 'h tick \<Rightarrow> ('rl, 'h) run_state \<Rightarrow>
   (('rl, 'h) run_state \<times> run_end option) option" where
  "measured_tick L H cfg tk s =
     (let now = tk_now tk;
          elapsed = now - (case rn_warmup_start s of Some t \<Rightarrow> t | None \<Rightarrow> rn_start s);
          kv_done = (rc_kv_replay cfg \<and> tk_kv_finished tk \<or> rc_trace_replay cfg \<and> tk_trace_finished tk);
          s = (if kv_done \<and> rn_running_start s = None then s\<lparr>rn_actual_duration := 0\<rparr> else s)
      in if run_done cfg tk s then
           Some (stop_run (case rn_running_start s of Some rs \<Rightarrow> s\<lparr>rn_actual_duration := now - rs\<rparr> | None \<Rightarrow> s), Some Finished)
         else
           let s = (if rn_phase s = Warmup \<and> elapsed \<ge> rc_warmup cfg then begin_running L cfg tk s else s)
           in case append_tick cfg now s of
                None \<Rightarrow> None
              | Some s \<Rightarrow> Some (report_tick L H cfg tk s, None))"

definition runner_tick ::
  "'rl ratelimit \<Rightarrow> 'h histogram_api \<Rightarrow> run_config \<Rightarrow> 'h tick \<Rightarrow> ('rl, 'h) run_state \<Rightarrow>
   (('rl, 'h) run_state \<times> run_end option) option" where
  "runner_tick L H cfg tk s =
     (if \<not> tk_running tk then
        Some ((stop_run s)\<lparr>rn_actual_duration := (case rn_running_start s of Some rs \<Rightarrow> tk_now tk - rs | None \<Rightarrow> 0)\<rparr>,
              Some Interrupted)
      else if rn_phase s = Precheck then Some (precheck_tick L cfg tk s)
      else if rn_phase s = Prefill then Some (prefill_tick L cfg tk s)
      else measured_tick L H cfg tk s)"

text \<open>The totals reported: what was counted since recording started.\<close>

definition run_totals :: "run_counters \<Rightarrow> ('rl, 'h) run_state \<Rightarrow> run_counters" where
  "run_totals m s =
     (let b = rn_baseline s; conn_failures = wrapping_sub (ct_conn_failures m) (ct_conn_failures b) in
      \<lparr>ct_requests = wrapping_sub (ct_requests m) (ct_requests b),
       ct_responses = wrapping_sub (ct_responses m) (ct_responses b),
       ct_errors = wrapping_add (wrapping_sub (ct_errors m) (ct_errors b)) conn_failures,
       ct_timeouts = wrapping_sub (ct_timeouts m) (ct_timeouts b),
       ct_conn_failures = conn_failures,
       ct_hits = wrapping_sub (ct_hits m) (ct_hits b),
       ct_misses = wrapping_sub (ct_misses m) (ct_misses b),
       ct_get = wrapping_sub (ct_get m) (ct_get b),
       ct_set = wrapping_sub (ct_set m) (ct_set b),
       ct_backfill_set = wrapping_sub (ct_backfill_set m) (ct_backfill_set b),
       ct_append_set = wrapping_sub (ct_append_set m) (ct_append_set b),
       ct_bytes_tx = wrapping_sub (ct_bytes_tx m) (ct_bytes_tx b),
       ct_bytes_rx = wrapping_sub (ct_bytes_rx m) (ct_bytes_rx b),
       ct_send_failed = wrapping_sub (ct_send_failed m) (ct_send_failed b),
       ct_routed_dropped = wrapping_sub (ct_routed_dropped m) (ct_routed_dropped b)\<rparr>)"

section \<open>Runs\<close>

text \<open>What workers do to the shared counters between two passes. Only queued append keys are confirmed.\<close>

datatype worker_op =
    Worker_started | Prechecked | Prefill_complete | Confirm_prefill nat | Total_prefill nat | Confirm_append nat

fun apply_op :: "worker_op \<Rightarrow> shared_state \<Rightarrow> shared_state" where
  "apply_op Worker_started h = mark_worker_started h"
| "apply_op Prechecked h = mark_precheck_complete h"
| "apply_op Prefill_complete h = mark_prefill_complete h"
| "apply_op (Confirm_prefill n) h = add_prefill_confirmed n h"
| "apply_op (Total_prefill n) h = add_prefill_total n h"
| "apply_op (Confirm_append n) h = add_append_confirmed n h"

text \<open>A run over a list of passes, each after some work of the workers, up to the pass that ends it.\<close>

fun run_ticks ::
  "'rl ratelimit \<Rightarrow> 'h histogram_api \<Rightarrow> run_config \<Rightarrow> (worker_op list \<times> 'h tick) list \<Rightarrow> ('rl, 'h) run_state \<Rightarrow>
   (('rl, 'h) run_state \<times> run_end option) option" where
  "run_ticks L H cfg [] s = Some (s, None)"
| "run_ticks L H cfg ((ops, tk) # tks) s =
     (case runner_tick L H cfg tk (s\<lparr>rn_shared := fold apply_op ops (rn_shared s)\<rparr>) of
        None \<Rightarrow> None
      | Some (s, Some e) \<Rightarrow> Some (s, Some e)
      | Some (s, None) \<Rightarrow> run_ticks L H cfg tks s)"


section \<open>A run ends in time\<close>

named_theorems tick_defs \<open>the parts of a pass\<close>

declare kv_start_at_def [tick_defs] begin_prefill_def [tick_defs] begin_warmup_def [tick_defs]
  Let_def [tick_defs]

lemma stop_run_phase [simp]: "shared_phase (rn_shared (stop_run s)) = Stop"
  by (simp add: stop_run_def)

definition queues_ok :: "run_config \<Rightarrow> ('rl, 'h) run_state \<Rightarrow> bool" where
  "queues_ok cfg s \<longleftrightarrow> router_ok (rn_router s) (max (rc_endpoints cfg) 1) \<and> length (rn_append_queues s) = max (rc_endpoints cfg) 1"

text \<open>Where an instant of a run stands against a deadline \<open>T\<close>, the last pass having been at \<open>prev\<close>.\<close>

definition on_time :: "nat \<Rightarrow> run_config \<Rightarrow> nat \<Rightarrow> nat \<Rightarrow> ('rl, 'h) run_state \<Rightarrow> bool" where
  "on_time d cfg T prev s \<longleftrightarrow>
     (let pt = rc_prefill_timeout cfg; w = rc_warmup cfg + rc_duration cfg in
      case rn_phase s of
        Precheck \<Rightarrow> (case rn_precheck_start s of
            Some p \<Rightarrow> prev < p + rc_connect_timeout cfg \<and> p + rc_connect_timeout cfg + pt + w + 2 * d \<le> T
          | None \<Rightarrow> False)
      | Prefill \<Rightarrow> prev < rn_prefill_start s + pt \<and> rn_prefill_start s + pt + w + d \<le> T
      | Warmup \<Rightarrow> (case rn_warmup_start s of Some u \<Rightarrow> u + w \<le> T | None \<Rightarrow> False)
      | Running \<Rightarrow> (case rn_warmup_start s of Some u \<Rightarrow> u + w \<le> T | None \<Rightarrow> False)
      | _ \<Rightarrow> False)"

definition enqueued :: "run_config \<Rightarrow> ('rl, 'h) run_state \<Rightarrow> append_config \<Rightarrow> queues option" where
  "enqueued cfg s a = enqueue_append_batch (rn_router s) (rc_key_format cfg) (rn_append_queues s) (rn_append_next_id s)
     (ap_batch a) (rc_key_len cfg) (rc_endpoints cfg)"

lemma enqueued_ok:
  assumes "queues_ok cfg s"
  shows "\<exists>q. enqueued cfg s a = Some q \<and> length q = max (rc_endpoints cfg) 1"
  using assms push_routed_spec [of "rn_router s" "max (rc_endpoints cfg) 1" "rn_append_queues s"]
  by (simp add: enqueued_def enqueue_append_batch_def queues_ok_def)

text \<open>The append stream touches only its own fields.\<close>

lemma append_tick_frame:
  assumes q: "queues_ok cfg s"
  shows "\<exists>s'. append_tick cfg now s = Some s' \<and> rn_phase s' = rn_phase s \<and> rn_warmup_start s' = rn_warmup_start s \<and>
    rn_saturation s' = rn_saturation s \<and> rn_running_start s' = rn_running_start s \<and> queues_ok cfg s' \<and>
    sh_phase (rn_shared s') = sh_phase (rn_shared s) \<and> rn_limiters s' = rn_limiters s \<and> rn_baseline s' = rn_baseline s"
proof (cases "rc_append cfg")
  case None
  then show ?thesis using q by (simp add: append_tick_def)
next
  case (Some a)
  then show ?thesis using q enqueued_ok [OF q, of a]
    by (auto simp: append_tick_def Let_def queues_ok_def add_append_total_def enqueued_def split: option.splits)
qed


lemma report_tick_frame:
  "rn_phase (report_tick L H cfg tk s) = rn_phase s" "rn_warmup_start (report_tick L H cfg tk s) = rn_warmup_start s"
  "rn_shared (report_tick L H cfg tk s) = rn_shared s" "queues_ok cfg (report_tick L H cfg tk s) = queues_ok cfg s"
  "rn_running_start (report_tick L H cfg tk s) = rn_running_start s" "rn_baseline (report_tick L H cfg tk s) = rn_baseline s"
  "rn_saturation s = None \<Longrightarrow> rn_saturation (report_tick L H cfg tk s) = None"
  by (auto simp: report_tick_def Let_def queues_ok_def split: option.splits)

lemma begin_running_frame:
  "rn_phase (begin_running L cfg tk s) = Running" "rn_warmup_start (begin_running L cfg tk s) = rn_warmup_start s"
  "sh_phase (rn_shared (begin_running L cfg tk s)) = phase_as_u8 Running" "queues_ok cfg (begin_running L cfg tk s) = queues_ok cfg s"
  "rn_running_start (begin_running L cfg tk s) = Some (tk_now tk)" "rn_baseline (begin_running L cfg tk s) = tk_counters tk"
  "rc_search cfg = None \<Longrightarrow> rn_saturation (begin_running L cfg tk s) = rn_saturation s"
  by (auto simp: begin_running_def kv_start_at_def set_phase_def Let_def queues_ok_def split: option.splits)

lemma measured_tick_frame:
  assumes "queues_ok cfg s" and "rn_phase s = Warmup \<or> rn_phase s = Running" and "rn_warmup_start s = Some u"
  shows "\<exists>s' e. measured_tick L H cfg tk s = Some (s', e) \<and>
    (e = None \<longrightarrow> (rn_phase s' = Warmup \<or> rn_phase s' = Running) \<and> rn_warmup_start s' = Some u \<and> queues_ok cfg s' \<and>
       (rc_search cfg = None \<longrightarrow> tk_now tk < u + (rc_warmup cfg + rc_duration cfg))) \<and>
    (e \<noteq> None \<longrightarrow> shared_phase (rn_shared s') = Stop)"
proof -
  define s0 where "s0 = (if (rc_kv_replay cfg \<and> tk_kv_finished tk \<or> rc_trace_replay cfg \<and> tk_trace_finished tk) \<and>
      rn_running_start s = None then s\<lparr>rn_actual_duration := 0\<rparr> else s)"
  define s1 where "s1 = (if rn_phase s0 = Warmup \<and> tk_now tk - u \<ge> rc_warmup cfg then begin_running L cfg tk s0 else s0)"
  have s0: "rn_phase s0 = rn_phase s" "rn_warmup_start s0 = Some u" "queues_ok cfg s0"
    using assms by (simp_all add: s0_def queues_ok_def)
  have s1: "rn_phase s1 = Warmup \<or> rn_phase s1 = Running" "rn_warmup_start s1 = Some u" "queues_ok cfg s1"
    using s0 assms(2) by (auto simp: s1_def begin_running_frame)
  obtain s2 where s2: "append_tick cfg (tk_now tk) s1 = Some s2" "rn_phase s2 = rn_phase s1" "rn_warmup_start s2 = Some u" "queues_ok cfg s2"
    using append_tick_frame [OF s1(3), of "tk_now tk"] s1(2) by auto
  have m: "measured_tick L H cfg tk s =
      (if run_done cfg tk s0 then
         Some (stop_run (case rn_running_start s0 of Some rs \<Rightarrow> s0\<lparr>rn_actual_duration := tk_now tk - rs\<rparr> | None \<Rightarrow> s0), Some Finished)
       else Some (report_tick L H cfg tk s2, None))"
    by (simp only: measured_tick_def Let_def assms(3) option.case s0_def [symmetric] s1_def [symmetric] s2(1))
  have "tk_now tk < u + (rc_warmup cfg + rc_duration cfg)" if "rc_search cfg = None" "\<not> run_done cfg tk s0"
    using that s0(2) by (auto simp: run_done_def Let_def)
  then show ?thesis using m s1(1) s2
    by (auto simp: report_tick_frame)
qed

lemma fold_apply_op_phase: "sh_phase (fold apply_op ops h) = sh_phase h"
proof (induction ops arbitrary: h)
  case (Cons a ops)
  then show ?case
    by (cases a) (simp_all add: mark_worker_started_def mark_precheck_complete_def mark_prefill_complete_def
        add_prefill_confirmed_def add_prefill_total_def add_append_confirmed_def)
qed simp

lemma runner_tick_on_time:
  assumes search: "rc_search cfg = None" and pt: "0 < rc_prefill_timeout cfg" and ok: "on_time d cfg T prev s" "queues_ok cfg s"
    and time: "prev \<le> tk_now tk" "tk_now tk \<le> prev + d" and quiet: "tk_running_after tk"
  shows "\<exists>s' e. runner_tick L H cfg tk s = Some (s', e) \<and>
    (e = None \<longrightarrow> on_time d cfg T (tk_now tk) s' \<and> queues_ok cfg s' \<and> tk_now tk < T) \<and>
    (e \<noteq> None \<longrightarrow> shared_phase (rn_shared s') = Stop)"
proof (cases "tk_running tk")
  case False
  then show ?thesis by (simp add: runner_tick_def)
next
  case True
  consider (Precheck) "rn_phase s = Precheck" | (Prefill) "rn_phase s = Prefill" | (measured) "rn_phase s = Warmup \<or> rn_phase s = Running"
    using ok(1) by (cases "rn_phase s") (simp_all add: on_time_def)
  then show ?thesis
  proof cases
    case Precheck
    then obtain p where p: "rn_precheck_start s = Some p" "prev < p + rc_connect_timeout cfg"
        "p + rc_connect_timeout cfg + rc_prefill_timeout cfg + (rc_warmup cfg + rc_duration cfg) + 2 * d \<le> T"
      using ok(1) by (auto simp: on_time_def Let_def split: option.splits)
    then have "tk_now tk < p + rc_connect_timeout cfg + d" using time by linarith
    then show ?thesis using True Precheck p ok(2) pt quiet time
      by (auto simp: runner_tick_def precheck_tick_def tick_defs on_time_def queues_ok_def split: option.splits)
  next
    case Prefill
    then have "tk_now tk < rn_prefill_start s + rc_prefill_timeout cfg + d"
      "rn_prefill_start s + rc_prefill_timeout cfg + (rc_warmup cfg + rc_duration cfg) + d \<le> T"
      using ok(1) time by (auto simp: on_time_def Let_def)
    then show ?thesis using True Prefill ok(2) pt
      by (auto simp: runner_tick_def prefill_tick_def tick_defs on_time_def queues_ok_def split: option.splits)
  next
    case measured
    then obtain u where u: "rn_warmup_start s = Some u" "u + (rc_warmup cfg + rc_duration cfg) \<le> T"
      using ok(1) by (auto simp: on_time_def Let_def split: option.splits)
    obtain s' e where m: "measured_tick L H cfg tk s = Some (s', e)"
      and f: "e = None \<Longrightarrow> (rn_phase s' = Warmup \<or> rn_phase s' = Running) \<and> rn_warmup_start s' = Some u \<and> queues_ok cfg s' \<and>
          tk_now tk < u + (rc_warmup cfg + rc_duration cfg)" and stop: "e \<noteq> None \<Longrightarrow> shared_phase (rn_shared s') = Stop"
      using measured_tick_frame [OF ok(2) measured u(1), of L H tk] search by blast
    have "runner_tick L H cfg tk s = Some (s', e)" using True measured m by (auto simp: runner_tick_def)
    moreover have "on_time d cfg T (tk_now tk) s' \<and> queues_ok cfg s' \<and> tk_now tk < T" if "e = None"
      using f [OF that] u(2) by (auto simp: on_time_def Let_def)
    ultimately show ?thesis using stop by blast
  qed
qed


text \<open>Passes at most \<open>d\<close> apart, and the time of the last one.\<close>

fun spaced :: "nat \<Rightarrow> nat \<Rightarrow> (worker_op list \<times> 'h tick) list \<Rightarrow> bool" where
  "spaced d prev [] = True"
| "spaced d prev ((ops, tk) # tks) \<longleftrightarrow>
     prev \<le> tk_now tk \<and> tk_now tk \<le> prev + d \<and> tk_running_after tk \<and> spaced d (tk_now tk) tks"

fun last_pass :: "nat \<Rightarrow> (worker_op list \<times> 'h tick) list \<Rightarrow> nat" where
  "last_pass prev [] = prev"
| "last_pass prev ((ops, tk) # tks) = last_pass (tk_now tk) tks"

lemma on_time_shared [simp]: "on_time d cfg T prev (s\<lparr>rn_shared := h\<rparr>) = on_time d cfg T prev s"
  "queues_ok cfg (s\<lparr>rn_shared := h\<rparr>) = queues_ok cfg s"
  by (cases "rn_phase s"; simp add: on_time_def queues_ok_def)+

lemma run_ticks_end:
  assumes "rc_search cfg = None" and "0 < rc_prefill_timeout cfg"
  shows "on_time d cfg T prev s \<Longrightarrow> queues_ok cfg s \<Longrightarrow> spaced d prev tks \<Longrightarrow> prev < T \<Longrightarrow> T \<le> last_pass prev tks \<Longrightarrow>
    \<exists>s' e. run_ticks L H cfg tks s = Some (s', Some e) \<and> shared_phase (rn_shared s') = Stop"
proof (induction tks arbitrary: prev s)
  case (Cons x tks)
  obtain ops tk where x: "x = (ops, tk)" by (cases x)
  let ?s = "s\<lparr>rn_shared := fold apply_op ops (rn_shared s)\<rparr>"
  obtain s' e where t: "runner_tick L H cfg tk ?s = Some (s', e)"
    and on: "e = None \<Longrightarrow> on_time d cfg T (tk_now tk) s' \<and> queues_ok cfg s' \<and> tk_now tk < T"
    and stop: "e \<noteq> None \<Longrightarrow> shared_phase (rn_shared s') = Stop"
    using runner_tick_on_time [OF assms, of d T prev ?s tk L H] Cons.prems x by auto
  show ?case
  proof (cases e)
    case None
    then show ?thesis using on Cons.IH [of "tk_now tk" s'] Cons.prems t x by simp
  next
    case (Some a)
    then show ?thesis using t x stop by simp
  qed
qed simp

text \<open>
  C7. A run ends in time and tells its workers. Take a run without a saturation search whose workers
  have started, or all exited, by its first pass, and passes at most \<open>d\<close> apart. Whatever the workers
  confirm or fail to confirm, whatever the metrics say and however the append stream goes, no pass
  panics, the run has ended by the time the connect timeout, the prefill timeout, the warmup and the
  duration have gone by (and two passes), and the workers see the stop phase.
\<close>

theorem run_ends_in_time:
  assumes search: "rc_search cfg = None" and pt: "0 < rc_prefill_timeout cfg" and ct: "0 < rc_connect_timeout cfg"
    and fresh: "rn_phase s = Precheck" "rn_precheck_start s = None" "queues_ok cfg s"
    and started: "rc_num_threads cfg \<le> sh_workers_started (fold apply_op ops (rn_shared s)) \<or> tk_handles_finished tk"
    and passes: "spaced d (tk_now tk) tks" "tk_running_after tk"
    and enough: "tk_now tk + rc_connect_timeout cfg + rc_prefill_timeout cfg + (rc_warmup cfg + rc_duration cfg) + 2 * d
      \<le> last_pass (tk_now tk) tks"
  shows "\<exists>s' e. run_ticks L H cfg ((ops, tk) # tks) s = Some (s', Some e) \<and> shared_phase (rn_shared s') = Stop"
proof -
  let ?s = "s\<lparr>rn_shared := fold apply_op ops (rn_shared s)\<rparr>"
  define T where "T = tk_now tk + rc_connect_timeout cfg + rc_prefill_timeout cfg + (rc_warmup cfg + rc_duration cfg) + 2 * d"
  have "\<exists>s' e. runner_tick L H cfg tk ?s = Some (s', e) \<and>
      (e = None \<longrightarrow> on_time d cfg T (tk_now tk) s' \<and> queues_ok cfg s') \<and> (e \<noteq> None \<longrightarrow> shared_phase (rn_shared s') = Stop)"
    using fresh started passes(2) pt ct unfolding T_def
    by (auto simp: runner_tick_def precheck_tick_def tick_defs on_time_def queues_ok_def split: option.splits)
  then obtain s' e where t: "runner_tick L H cfg tk ?s = Some (s', e)"
    and f: "e = None \<Longrightarrow> on_time d cfg T (tk_now tk) s' \<and> queues_ok cfg s'" "e \<noteq> None \<Longrightarrow> shared_phase (rn_shared s') = Stop"
    by blast
  show ?thesis
  proof (cases e)
    case None
    have "tk_now tk < T" using ct by (simp add: T_def)
    then show ?thesis
      using run_ticks_end [OF search pt, of d T "tk_now tk" s' tks L H] f(1) [OF None] passes(1) enough t None by (simp add: T_def)
  qed (use t f(2) in simp)
qed


section \<open>Phases move forward and the append stream publishes only stored keys\<close>

definition run_start :: "run_config \<Rightarrow> ('rl, 'h) run_state \<Rightarrow> bool" where
  "run_start cfg s \<longleftrightarrow> rn_phase s = Precheck \<and> shared_phase (rn_shared s) = Precheck \<and> rn_warmup_start s = None \<and> rn_running_start s = None \<and>
     rn_append_next_id s = rc_key_count cfg \<and> \<not> rn_append_batch_open s \<and> rn_append_batches s = 0 \<and>
     (rn_append_head s = None \<or> rn_append_head s = Some (rc_key_count cfg)) \<and>
     sh_append_total (rn_shared s) = 0 \<and> sh_append_confirmed (rn_shared s) = 0"

fun op_allowed :: "worker_op \<Rightarrow> shared_state \<Rightarrow> bool" where
  "op_allowed (Confirm_append k) h = (sh_append_confirmed h + k \<le> sh_append_total h)"
| "op_allowed _ h = True"

text \<open>The states of a run that has not ended, with the number of passes made.\<close>

inductive runner_reach ::
  "'rl ratelimit \<Rightarrow> 'h histogram_api \<Rightarrow> run_config \<Rightarrow> nat \<Rightarrow> ('rl, 'h) run_state \<Rightarrow> bool"
  for L :: "'rl ratelimit" and H :: "'h histogram_api" and cfg :: run_config where
  reach_start: "run_start cfg s \<Longrightarrow> runner_reach L H cfg 0 s"
| reach_work: "runner_reach L H cfg n s \<Longrightarrow> op_allowed op (rn_shared s) \<Longrightarrow>
    runner_reach L H cfg n (s\<lparr>rn_shared := apply_op op (rn_shared s)\<rparr>)"
| reach_pass: "runner_reach L H cfg n s \<Longrightarrow> runner_tick L H cfg tk s = Some (s', None) \<Longrightarrow> runner_reach L H cfg (Suc n) s'"

definition append_batch :: "run_config \<Rightarrow> nat" where
  "append_batch cfg = (case rc_append cfg of Some a \<Rightarrow> ap_batch a | None \<Rightarrow> 0)"

definition phase_inv :: "('rl, 'h) run_state \<Rightarrow> bool" where
  "phase_inv s \<longleftrightarrow> shared_phase (rn_shared s) = rn_phase s \<and> rn_phase s \<in> {Precheck, Prefill, Warmup, Running} \<and>
     (rn_warmup_start s \<noteq> None \<longleftrightarrow> rn_phase s \<in> {Warmup, Running}) \<and> (rn_running_start s \<noteq> None \<longleftrightarrow> rn_phase s = Running)"

definition append_inv :: "run_config \<Rightarrow> nat \<Rightarrow> ('rl, 'h) run_state \<Rightarrow> bool" where
  "append_inv cfg n s \<longleftrightarrow>
     (let b = append_batch cfg; tot = sh_append_total (rn_shared s); done = rn_append_batches s * b in
      rn_append_batches s \<le> n \<and> tot = done + (if rn_append_batch_open s then b else 0) \<and>
      rn_append_next_id s = rc_key_count cfg + tot \<and> done \<le> sh_append_confirmed (rn_shared s) \<and>
      sh_append_confirmed (rn_shared s) \<le> tot \<and>
      (\<forall>h. rn_append_head s = Some h \<longrightarrow> h = rc_key_count cfg + done))"

definition same_append :: "('rl, 'h) run_state \<Rightarrow> ('rl, 'h) run_state \<Rightarrow> bool" where
  "same_append s s' \<longleftrightarrow> rn_append_next_id s' = rn_append_next_id s \<and> rn_append_batch_open s' = rn_append_batch_open s \<and>
     rn_append_batches s' = rn_append_batches s \<and> rn_append_head s' = rn_append_head s \<and>
     sh_append_total (rn_shared s') = sh_append_total (rn_shared s) \<and>
     sh_append_confirmed (rn_shared s') = sh_append_confirmed (rn_shared s)"

lemma append_inv_same: "same_append s s' \<Longrightarrow> append_inv cfg n s \<Longrightarrow> n \<le> m \<Longrightarrow> append_inv cfg m s'"
  by (auto simp: same_append_def append_inv_def Let_def)

lemma same_append_parts:
  "same_append s (begin_prefill L now s)" "same_append s (begin_warmup L cfg fp now s)" "same_append s (begin_running L cfg tk s)"
  "same_append s (report_tick L H cfg tk s)"
  by (auto simp: same_append_def begin_prefill_def begin_warmup_def begin_running_def report_tick_def kv_start_at_def
      set_phase_def Let_def split: option.splits)

lemma measured_pass:
  assumes "measured_tick L H cfg tk s = Some (s', None)"
  obtains dur s1 s2 where
    "s1 = s\<lparr>rn_actual_duration := dur\<rparr> \<or> rn_phase s = Warmup \<and> s1 = begin_running L cfg tk (s\<lparr>rn_actual_duration := dur\<rparr>)"
    "append_tick cfg (tk_now tk) s1 = Some s2" "s' = report_tick L H cfg tk s2"
proof -
  define dur where "dur = (if (rc_kv_replay cfg \<and> tk_kv_finished tk \<or> rc_trace_replay cfg \<and> tk_trace_finished tk) \<and>
      rn_running_start s = None then 0 else rn_actual_duration s)"
  let ?s0 = "s\<lparr>rn_actual_duration := dur\<rparr>"
  let ?s1 = "if rn_phase s = Warmup \<and> tk_now tk - (case rn_warmup_start s of Some t \<Rightarrow> t | None \<Rightarrow> rn_start s) \<ge> rc_warmup cfg
    then begin_running L cfg tk ?s0 else ?s0"
  have z: "(if (rc_kv_replay cfg \<and> tk_kv_finished tk \<or> rc_trace_replay cfg \<and> tk_trace_finished tk) \<and> rn_running_start s = None
      then s\<lparr>rn_actual_duration := 0\<rparr> else s) = ?s0"
    by (auto simp: dur_def)
  have ph: "rn_phase ?s0 = rn_phase s" by simp
  obtain s2 where "append_tick cfg (tk_now tk) ?s1 = Some s2" "s' = report_tick L H cfg tk s2"
    using assms unfolding measured_tick_def Let_def z ph by (simp split: if_splits option.splits)
  then show thesis by (intro that [of ?s1 dur s2]) auto
qed

lemma append_tick_keeps:
  assumes inv: "append_inv cfg n s" and t: "append_tick cfg now s = Some s'" and room: "rc_key_count cfg + (n + 2) * append_batch cfg < U64_LIMIT"
    and small: "n < U64_MAX"
  shows "append_inv cfg (Suc n) s'"
proof -
  have 1: "wrapping_add (rn_append_batches s) 1 = rn_append_batches s + 1"
    using inv small by (intro wrapping_add_exact) (simp add: append_inv_def Let_def)
  have "rn_append_batches s * append_batch cfg \<le> n * append_batch cfg" using inv by (simp add: append_inv_def Let_def)
  moreover have "(n + 2) * append_batch cfg = n * append_batch cfg + 2 * append_batch cfg" by (rule add_mult_distrib)
  ultimately have le: "rc_key_count cfg + rn_append_batches s * append_batch cfg + append_batch cfg < U64_LIMIT"
    using room by linarith
  have 2: "wrapping_add (rn_append_next_id s) (append_batch cfg) = rn_append_next_id s + append_batch cfg"
      "wrapping_add (sh_append_total (rn_shared s)) (append_batch cfg) = sh_append_total (rn_shared s) + append_batch cfg"
    if "\<not> rn_append_batch_open s"
    using inv that le by (auto simp: append_inv_def Let_def intro!: wrapping_add_exact)
  show ?thesis
  proof (cases "rc_append cfg")
    case (Some a)
    then have b: "append_batch cfg = ap_batch a" by (simp add: append_batch_def)
    show ?thesis using inv t 1 2 unfolding b append_tick_def Some
      by (auto simp: append_inv_def Let_def add_append_total_def b split: option.splits if_splits)
  qed (use inv t in \<open>auto simp: append_tick_def append_inv_def Let_def\<close>)
qed


lemma append_tick_phase:
  assumes "append_tick cfg now s = Some s'"
  shows "rn_phase s' = rn_phase s" "rn_warmup_start s' = rn_warmup_start s" "rn_running_start s' = rn_running_start s"
    "shared_phase (rn_shared s') = shared_phase (rn_shared s)" "rn_baseline s' = rn_baseline s"
  using assms
  by (auto simp: append_tick_def Let_def shared_phase_def add_append_total_def split: option.splits if_splits)

lemma begin_phase_inv:
  "phase_inv s \<Longrightarrow> rn_phase s \<in> {Precheck, Prefill} \<Longrightarrow> phase_inv (begin_prefill L now s)"
  "phase_inv s \<Longrightarrow> rn_phase s \<in> {Precheck, Prefill} \<Longrightarrow> phase_inv (begin_warmup L cfg fp now s)"
  "phase_inv s \<Longrightarrow> rn_phase s = Warmup \<Longrightarrow> phase_inv (begin_running L cfg tk s)"
  by (auto simp: phase_inv_def begin_prefill_def begin_warmup_def begin_running_def kv_start_at_def Let_def split: option.splits)

lemma precheck_pass:
  assumes "precheck_tick L cfg tk s = (s', None)"
  obtains "s' = s" | p where "s' = s\<lparr>rn_precheck_start := p\<rparr>" | "s' = begin_prefill L (tk_now tk) s"
    | "s' = begin_warmup L cfg True (tk_now tk) s"
  using assms by (auto simp: precheck_tick_def Let_def split: if_splits option.splits)

lemma prefill_pass:
  assumes "prefill_tick L cfg tk s = (s', None)"
  obtains c t where "s' = s\<lparr>rn_last_prefill_confirmed := c, rn_last_prefill_progress := t\<rparr>" | "s' = s"
    | "s' = begin_warmup L cfg False (tk_now tk) s"
  using assms by (auto simp: prefill_tick_def Let_def split: if_splits)

definition pass_ok :: "'h tick \<Rightarrow> ('rl, 'h) run_state \<Rightarrow> ('rl, 'h) run_state \<Rightarrow> bool" where
  "pass_ok tk s s' \<longleftrightarrow> phase_as_u8 (rn_phase s) \<le> phase_as_u8 (rn_phase s') \<and>
     (rn_phase s' = Running \<longrightarrow> rn_baseline s' = (if rn_phase s = Running then rn_baseline s else tk_counters tk))"

lemma pass_ok_begin:
  "rn_phase s = Precheck \<Longrightarrow> pass_ok tk s (begin_prefill L now s)"
  "rn_phase s \<in> {Precheck, Prefill} \<Longrightarrow> pass_ok tk s (begin_warmup L cfg fp now s)"
  "pass_ok tk s s"
  by (auto simp: pass_ok_def begin_prefill_def begin_warmup_def kv_start_at_def Let_def)

lemma runner_tick_inv:
  assumes inv: "phase_inv s" "append_inv cfg n s" and t: "runner_tick L H cfg tk s = Some (s', None)"
    and room: "rc_key_count cfg + (n + 2) * append_batch cfg < U64_LIMIT" "n < U64_MAX"
  shows "phase_inv s' \<and> append_inv cfg (Suc n) s' \<and> pass_ok tk s s'"
proof -
  consider (pre) "rn_phase s = Precheck" | (fill) "rn_phase s = Prefill" | (measured) "rn_phase s = Warmup \<or> rn_phase s = Running"
    using inv(1) by (auto simp: phase_inv_def)
  then show ?thesis
  proof cases
    case pre
    then have "precheck_tick L cfg tk s = (s', None)" using t by (simp add: runner_tick_def split: if_splits)
    then show ?thesis
    proof (cases rule: precheck_pass)
      case 1
      show ?thesis unfolding 1 using inv append_inv_same [of s s cfg n "Suc n"] by (simp add: pass_ok_begin same_append_def)
    next
      case (2 p)
      show ?thesis unfolding 2 using inv pre by (auto simp: pass_ok_def phase_inv_def append_inv_def Let_def)
    next
      case 3
      show ?thesis unfolding 3 using inv pre append_inv_same [OF same_append_parts(1) inv(2)] by (simp add: begin_phase_inv pass_ok_begin)
    next
      case 4
      show ?thesis unfolding 4 using inv pre append_inv_same [OF same_append_parts(2) inv(2)] by (simp add: begin_phase_inv pass_ok_begin)
    qed
  next
    case fill
    then have "prefill_tick L cfg tk s = (s', None)" using t by (simp add: runner_tick_def split: if_splits)
    then show ?thesis
    proof (cases rule: prefill_pass)
      case (1 c p)
      show ?thesis unfolding 1 using inv fill by (auto simp: pass_ok_def phase_inv_def append_inv_def Let_def)
    next
      case 2
      show ?thesis unfolding 2 using inv append_inv_same [of s s cfg n "Suc n"] by (simp add: pass_ok_begin same_append_def)
    next
      case 3
      show ?thesis unfolding 3 using inv fill append_inv_same [OF same_append_parts(2) inv(2)] by (simp add: begin_phase_inv pass_ok_begin)
    qed
  next
    case measured
    then have "measured_tick L H cfg tk s = Some (s', None)" using t by (auto simp: runner_tick_def split: if_splits)
    then show ?thesis
    proof (cases rule: measured_pass)
      case (1 dur s1 s2)
      have "same_append s (s\<lparr>rn_actual_duration := dur\<rparr>)" "phase_inv (s\<lparr>rn_actual_duration := dur\<rparr>)"
        using inv(1) by (simp_all add: same_append_def phase_inv_def)
      then have base: "append_inv cfg n (s\<lparr>rn_actual_duration := dur\<rparr>)" "phase_inv (s\<lparr>rn_actual_duration := dur\<rparr>)"
        using append_inv_same [OF _ inv(2)] by auto
      then have "append_inv cfg n s1" "phase_inv s1" "pass_ok tk s s1"
        using 1(1) measured append_inv_same [OF same_append_parts(3) base(1) order_refl]
        by (auto simp: begin_phase_inv pass_ok_def begin_running_frame)
      moreover have "append_inv cfg (Suc n) s2" by (rule append_tick_keeps [OF \<open>append_inv cfg n s1\<close> 1(2) room])
      then have "append_inv cfg (Suc n) s'"
        unfolding 1(3) by (rule append_inv_same [OF same_append_parts(4)]) simp
      ultimately show ?thesis
        using append_tick_phase [OF 1(2)] 1(3)
        by (auto simp: phase_inv_def pass_ok_def report_tick_frame)
    qed
  qed
qed


lemma apply_op_inv:
  assumes "phase_inv s" "append_inv cfg n s" "op_allowed op (rn_shared s)" and fits: "rc_key_count cfg + (n + 1) * append_batch cfg < U64_LIMIT"
  shows "phase_inv (s\<lparr>rn_shared := apply_op op (rn_shared s)\<rparr>) \<and> append_inv cfg n (s\<lparr>rn_shared := apply_op op (rn_shared s)\<rparr>)"
proof (cases op)
  case (Confirm_append k)
  have "rn_append_batches s * append_batch cfg \<le> n * append_batch cfg" using assms(2) by (simp add: append_inv_def Let_def)
  moreover have "(n + 1) * append_batch cfg = n * append_batch cfg + append_batch cfg" by simp
  moreover have "sh_append_total (rn_shared s) \<le> rn_append_batches s * append_batch cfg + append_batch cfg"
    using assms(2) by (auto simp: append_inv_def Let_def)
  ultimately have "sh_append_total (rn_shared s) < U64_LIMIT" using fits by linarith
  moreover have le: "sh_append_confirmed (rn_shared s) + k \<le> sh_append_total (rn_shared s)" using assms(3) Confirm_append by simp
  ultimately have w: "wrapping_add (sh_append_confirmed (rn_shared s)) k = sh_append_confirmed (rn_shared s) + k"
    by (intro wrapping_add_exact) linarith
  then show ?thesis using assms(1,2) Confirm_append le
    by (auto simp: phase_inv_def append_inv_def Let_def add_append_confirmed_def shared_phase_def w)
qed (use assms in \<open>auto simp: phase_inv_def append_inv_def Let_def shared_phase_def mark_worker_started_def mark_precheck_complete_def
       mark_prefill_complete_def add_prefill_confirmed_def add_prefill_total_def\<close>)

lemma runner_reach_inv:
  assumes "runner_reach L H cfg n s"
  shows "rc_key_count cfg + (n + 1) * append_batch cfg < U64_LIMIT \<Longrightarrow> n \<le> U64_MAX \<Longrightarrow> phase_inv s \<and> append_inv cfg n s"
  using assms
proof (induction rule: runner_reach.induct)
  case (reach_start s)
  then show ?case by (auto simp: run_start_def phase_inv_def append_inv_def Let_def)
next
  case (reach_work n s op)
  then show ?case using apply_op_inv by blast
next
  case (reach_pass n s tk s')
  moreover have "rc_key_count cfg + (n + 1) * append_batch cfg < U64_LIMIT"
    using reach_pass.prems(1) by (simp add: algebra_simps)
  ultimately show ?case using runner_tick_inv [of s cfg n L H tk s'] by (simp add: algebra_simps)
qed

text \<open>
  C8. The main thread keeps its promises to the workers and to the report. In every state of a run
  that has not ended: the workers see the phase the main thread is in; warmup and recording have
  started exactly when the phase says so; a pass never goes back to an earlier phase, and takes the
  baselines of the report exactly when it begins recording, from the counters of that moment. And the
  append stream never publishes a key that is not stored: the head that readers draw below is past no
  key whose batch is not confirmed in full, at most one batch is outstanding, and every id below the
  next one was queued in exactly one batch.
\<close>

theorem runner_keeps_promises:
  assumes reach: "runner_reach L H cfg n s" and room: "rc_key_count cfg + (n + 2) * append_batch cfg < U64_LIMIT" "n < U64_MAX"
  shows "shared_phase (rn_shared s) = rn_phase s \<and>
    (rn_warmup_start s \<noteq> None \<longleftrightarrow> rn_phase s \<in> {Warmup, Running}) \<and> (rn_running_start s \<noteq> None \<longleftrightarrow> rn_phase s = Running) \<and>
    (\<forall>tk s'. runner_tick L H cfg tk s = Some (s', None) \<longrightarrow>
       phase_as_u8 (rn_phase s) \<le> phase_as_u8 (rn_phase s') \<and>
       (rn_phase s' = Running \<longrightarrow> rn_baseline s' = (if rn_phase s = Running then rn_baseline s else tk_counters tk))) \<and>
    rn_append_next_id s = rc_key_count cfg + sh_append_total (rn_shared s) \<and>
    (\<forall>h. rn_append_head s = Some h \<longrightarrow>
       h \<le> rc_key_count cfg + sh_append_confirmed (rn_shared s) \<and> h \<le> rn_append_next_id s \<and>
       rn_append_next_id s \<le> h + append_batch cfg)"
proof -
  have "phase_inv s \<and> append_inv cfg n s"
    by (rule runner_reach_inv [OF reach]) (use room in \<open>simp_all add: algebra_simps\<close>)
  then have inv: "phase_inv s" "append_inv cfg n s" by blast+
  have "\<forall>tk s'. runner_tick L H cfg tk s = Some (s', None) \<longrightarrow> pass_ok tk s s'"
    using runner_tick_inv [OF inv _ room] by blast
  then show ?thesis using inv unfolding phase_inv_def append_inv_def pass_ok_def Let_def by auto
qed


section \<open>A small run\<close>

definition demo_run_config :: run_config where
  "demo_run_config = \<lparr>rc_num_threads = 1, rc_connect_timeout = 10, rc_prefill_enabled = False, rc_prefill_timeout = 20, rc_warmup = 5,
     rc_duration = 5, rc_report_interval = 1, rc_search = None,
     rc_append = Some \<lparr>ap_batch = 4, ap_every = 3, ap_pace = Burst, ap_connections = 1, ap_pipeline_depth = 1\<rparr>,
     rc_key_count = 100, rc_key_len = 16, rc_key_format = Hex, rc_endpoints = 1, rc_kv_replay = False, rc_trace_replay = False\<rparr>"

definition no_counts :: run_counters where
  "no_counts = \<lparr>ct_requests = 0, ct_responses = 0, ct_errors = 0, ct_timeouts = 0, ct_conn_failures = 0, ct_hits = 0, ct_misses = 0,
     ct_get = 0, ct_set = 0, ct_backfill_set = 0, ct_append_set = 0, ct_bytes_tx = 0, ct_bytes_rx = 0, ct_send_failed = 0, ct_routed_dropped = 0\<rparr>"

definition demo_run :: "(bucket, nat) run_state" where
  "demo_run = \<lparr>rn_phase = Precheck, rn_shared = set_phase Precheck shared_new, rn_start = 0, rn_precheck_start = None, rn_prefill_start = 0,
     rn_last_prefill_confirmed = 0, rn_last_prefill_progress = 0, rn_warmup_start = None, rn_running_start = None, rn_last_report = 0,
     rn_actual_duration = 5, rn_baseline = no_counts, rn_baseline_dropped = 0, rn_baseline_append_batches = 0, rn_limiters = None,
     rn_pacer = None, rn_saturation = None, rn_kv_started = None, rn_trace_started = False, rn_append_next_id = 100, rn_append_next_at = None,
     rn_append_batch_open = False, rn_append_batches = 0, rn_append_head = Some 100, rn_append_queues = [[]],
     rn_router = \<lparr>rt_slot_table = None, rt_hash_slot = (\<lambda>_. 0), rt_ring = (\<lambda>_. 0)\<rparr>\<rparr>"

definition demo_tick :: "nat \<Rightarrow> nat tick" where
  "demo_tick now = \<lparr>tk_now = now, tk_running = True, tk_running_after = True, tk_handles_finished = False, tk_kv_error = False, tk_kv_finished = False,
     tk_trace_error = False, tk_trace_finished = False, tk_counters = no_counts, tk_conns_active = 1,
     tk_view = \<lparr>mv_responses = 0, mv_latency = None, mv_perceived = None, mv_slip = None\<rparr>\<rparr>"

definition demo_histogram :: "nat histogram_api" where
  "demo_histogram = \<lparr>hg_wrapping_sub = (\<lambda>a b. Some (a - b)), hg_quantile = (\<lambda>h p. if h = 0 then None else Some h)\<rparr>"

lemma demo_run_facts: "rn_phase demo_run = Precheck" "rn_precheck_start demo_run = None" "queues_ok demo_run_config demo_run" "run_start demo_run_config demo_run"
  by (simp_all add: demo_run_def demo_run_config_def queues_ok_def router_ok_def route_partition_def run_start_def shared_new_def set_phase_def shared_phase_def phase_from_u8_def)

theorem run_ends_in_time_witness:
  "\<exists>s e. run_ticks bucket_api demo_histogram demo_run_config
      [([Worker_started], demo_tick 100), ([], demo_tick 105), ([Prechecked], demo_tick 109), ([], demo_tick 130), ([], demo_tick 150), ([], demo_tick 170), ([], demo_tick 190)]
      demo_run = Some (s, Some e) \<and> shared_phase (rn_shared s) = Stop"
proof (rule run_ends_in_time [where d = 25])
  show "rc_num_threads demo_run_config \<le> sh_workers_started (fold apply_op [Worker_started] (rn_shared demo_run)) \<or> tk_handles_finished (demo_tick 100)"
    by (simp add: demo_run_config_def demo_run_def mark_worker_started_def shared_new_def set_phase_def wrapping_add_def)
qed (simp_all add: demo_run_facts, simp_all add: demo_run_config_def demo_tick_def)

theorem runner_keeps_promises_witness:
  "\<exists>s. runner_reach bucket_api demo_histogram demo_run_config 1 s \<and> shared_phase (rn_shared s) = Warmup \<and> rn_append_head s = Some 100"
proof -
  let ?s = "demo_run\<lparr>rn_shared := apply_op Prechecked (rn_shared demo_run)\<rparr>"
  have r: "runner_reach bucket_api demo_histogram demo_run_config 0 ?s"
    by (intro reach_work reach_start demo_run_facts) simp
  obtain s where t: "runner_tick bucket_api demo_histogram demo_run_config (demo_tick 100) ?s = Some (s, None)"
    and s: "rn_phase s = Warmup" "rn_append_head s = Some 100"
    by (simp add: runner_tick_def precheck_tick_def demo_run_def demo_run_config_def demo_tick_def begin_warmup_def mark_precheck_complete_def
        wrapping_add_def set_phase_def shared_new_def Let_def)
  have r1: "runner_reach bucket_api demo_histogram demo_run_config 1 s" using reach_pass [OF r t] by simp
  have "rc_key_count demo_run_config + (1 + 2) * append_batch demo_run_config < U64_LIMIT" "(1::nat) < U64_MAX"
    by (simp_all add: demo_run_config_def append_batch_def)
  from runner_keeps_promises [OF r1 this] s r1 show ?thesis by auto
qed

end
