(* ===== verification/Append_Writer.thy ===== *)
theory Append_Writer
  imports Connection Runner
begin

unbundle bit_operations_syntax

text \<open>
  The append stream's writers (\<open>src/worker.rs\<close>, \<open>spawn_append_tasks\<close> to \<open>drive_memcache_append\<close>): the
  connections that store the keys of a batch the main thread has queued, while the readers' traffic
  goes on. The RESP and the memcache writer are one loop, which they differ from in how a SET is
  fired and in the handling of redirects; \<open>dc_memcache\<close> says which.

  As in \<open>Connection\<close>, the loop is cut at its awaits: \<open>append_iteration\<close> runs to the point where the
  task waits, a reply is then handled by \<open>resp_append_reply\<close> or \<open>mc_append_reply\<close>, or the connection is given up
  (\<open>append_disconnect\<close>); an iteration is shown as if no other worker's access to the queues fell within
  it. The configuration is \<open>drive_config\<close>, with the writer's own pipeline depth. The composition with
  the main thread at the end of the theory is the claim both sides exist for: a key below the
  published head has been stored.
\<close>

section \<open>The writers of a worker\<close>

text \<open>For each writer this worker spawns, its endpoint and the seed of its generator.\<close>

definition spawn_append_tasks :: "u64 \<Rightarrow> nat option \<Rightarrow> nat \<Rightarrow> nat \<Rightarrow> nat \<Rightarrow> (nat \<times> u64) list" where
  "spawn_append_tasks run append_connections endpoints num_threads worker_id =
     (case append_connections of
        None \<Rightarrow> []
      | Some n \<Rightarrow>
          let num_endpoints = max endpoints 1; (mine, start) = connection_share n num_threads worker_id
          in map (\<lambda>i. ((start + i) mod num_endpoints, connection_seed run Append worker_id i)) [0..<mine])"

text \<open>
  The writers of all workers are the configured connections, dealt to the endpoints in turn: with a connection per
  endpoint or more (\<open>check_node_counts\<close>), no queue is without a writer.
\<close>

lemma append_writers_placed:
  assumes "0 < threads"
  shows "m \<le> threads \<Longrightarrow> concat (map (\<lambda>w. map fst (spawn_append_tasks run (Some n) eps threads w)) [0..<m]) =
    map (\<lambda>j. j mod max eps 1) [0..<snd (connection_share n threads m)]"
proof (induction m)
  case 0
  then show ?case by (simp add: connection_share_def Let_def)
next
  case (Suc m)
  let ?s = "snd (connection_share n threads m)" and ?c = "fst (connection_share n threads m)"
  have "map fst (spawn_append_tasks run (Some n) eps threads m) = map (\<lambda>j. j mod max eps 1) [?s..<?s + ?c]"
    unfolding spawn_append_tasks_def option.case Let_def split_beta map_map o_def fst_conv
    by (rule nth_equalityI) (simp_all add: ac_simps)
  moreover have "snd (connection_share n threads (Suc m)) = ?s + ?c"
    using connection_share_next [OF assms, of m n] Suc.prems by simp
  moreover have "[0..<?s + ?c] = [0..<?s] @ [?s..<?s + ?c]" by (rule upt_add_eq_append) simp
  moreover have "[0..<Suc m] = [0..<m] @ [m]" by simp
  ultimately show ?case using Suc.IH Suc.prems
    by (simp only: map_append concat_append list.map concat.simps append_Nil2 Suc_leD)
qed

lemma every_endpoint_has_writer:
  assumes "0 < threads" and "eps \<le> n" and "e < eps"
  shows "\<exists>w<threads. \<exists>seed. (e, seed) \<in> set (spawn_append_tasks run (Some n) eps threads w)"
proof -
  have "e \<in> set (concat (map (\<lambda>w. map fst (spawn_append_tasks run (Some n) eps threads w)) [0..<threads]))"
    unfolding append_writers_placed [OF assms(1) order_refl] connection_share_end [OF assms(1)]
    using assms(2,3) by (auto simp: image_iff intro!: bexI [of _ e])
  then show ?thesis by fastforce
qed

text \<open>What a writer shares with the main thread and the other writers, and what is its own.\<close>

record 'rl append_env =
  ae_queues :: queues
  ae_limiter :: "'rl option"
  ae_shared :: shared_state
  ae_set_count :: nat
  ae_set_errors :: nat

record ('c, 'g, 't) append_writer =
  aw_client :: 'c
  aw_rng :: 'g
  aw_in_flight :: "nat list"
  aw_inflight :: "'t in_flight"
  aw_router :: router
  aw_flight :: flight_counters
  aw_metrics :: request_metrics

section \<open>Sending\<close>

definition append_token_budget :: "'rl ratelimit \<Rightarrow> nat \<Rightarrow> 'rl option \<Rightarrow> nat \<Rightarrow> nat \<times> 'rl option" where
  "append_token_budget L now rl free =
     (case rl of
        None \<Rightarrow> (free, None)
      | Some rl \<Rightarrow>
          let n = max (min free (rl_max_tokens L rl)) 1 in
          case rl_try_wait_n L now n rl of
            (Inr u, rl) \<Rightarrow> (n, Some rl)
          | (Inl err, rl) \<Rightarrow>
              if n > 1 then
                (case rl_try_wait_n L now 1 rl of (Inr u, rl) \<Rightarrow> (1, Some rl) | (Inl err, rl) \<Rightarrow> (0, Some rl))
              else (0, Some rl))"

definition confirm_append_key :: "'rl append_env \<Rightarrow> 'rl append_env" where
  "confirm_append_key e =
     e\<lparr>ae_shared := add_append_confirmed 1 (ae_shared e), ae_set_count := ae_set_count e + 1\<rparr>"

text \<open>A SET of a key this endpoint owns; refused by the client, it and what was discarded go back. The flag: go on.\<close>

definition append_send ::
  "'c client_api \<Rightarrow> 'g sampling \<Rightarrow> drive_config \<Rightarrow> nat \<Rightarrow> nat \<Rightarrow> 'rl append_env \<Rightarrow> ('c, 'g, 't) append_writer \<Rightarrow>
   ('rl append_env \<times> ('c, 'g, 't) append_writer \<times> bool) option" where
  "append_send C G cfg fired_at key_id e w =
     (let (f, g) = set_command G cfg (write_key (dc_key_format cfg) (dc_key_len cfg) key_id)
                     (word_of_nat key_id OR APPEND_MARKER) (aw_rng w);
          before = cl_pending_count C (aw_client w); (ok, c) = cl_fire C (aw_client w) f;
          w = w\<lparr>aw_rng := g, aw_client := c\<rparr>
      in if ok then
           Some (e, w\<lparr>aw_in_flight := aw_in_flight w @ [key_id], aw_inflight := inflight_push (aw_inflight w) fired_at\<rparr>, True)
         else
           (case pq_push_front (dc_endpoint_idx cfg) key_id (ae_queues e) of
              None \<Rightarrow> None
            | Some q \<Rightarrow>
                let (infl, m, discarded) =
                      note_failed_fire before (cl_pending_count C c) (aw_inflight w) False (aw_flight w)
                in (case requeue_newest (dc_endpoint_idx cfg) discarded (aw_in_flight w) q of
                      None \<Rightarrow> None
                    | Some (ks, q) \<Rightarrow>
                        Some (e\<lparr>ae_queues := q\<rparr>, w\<lparr>aw_in_flight := ks, aw_inflight := infl, aw_flight := m\<rparr>, False))))"

text \<open>One round: a key whose owner has changed is handed over and costs no token.\<close>

definition append_body ::
  "'c client_api \<Rightarrow> 'g sampling \<Rightarrow> drive_config \<Rightarrow> nat \<Rightarrow> nat \<Rightarrow> 'rl append_env \<Rightarrow> ('c, 'g, 't) append_writer \<Rightarrow>
   (nat \<times> 'rl append_env \<times> ('c, 'g, 't) append_writer \<times> bool) option" where
  "append_body C G cfg fired_at budget e w =
     (case pq_pop_front (dc_endpoint_idx cfg) (ae_queues e) of
        None \<Rightarrow> None
      | Some (q, None) \<Rightarrow> Some (budget, e, w, False)
      | Some (q, Some key_id) \<Rightarrow>
          let e = e\<lparr>ae_queues := q\<rparr>; key = write_key (dc_key_format cfg) (dc_key_len cfg) key_id;
              send = map_option (Pair (budget - 1)) (append_send C G cfg fired_at key_id e w)
          in if dc_num_endpoints cfg > 1 then
               (case route_key (aw_router w) (dc_num_endpoints cfg) key of
                  None \<Rightarrow> None
                | Some routed \<Rightarrow>
                    if routed \<noteq> dc_endpoint_idx cfg
                    then map_option (\<lambda>q. (budget, e\<lparr>ae_queues := q\<rparr>, w, True)) (pq_push_back routed key_id q)
                    else send)
             else send)"

text \<open>Every round that goes on has taken a key from this endpoint's queue for good, which bounds the rounds.\<close>

fun append_loop ::
  "nat \<Rightarrow> 'c client_api \<Rightarrow> 'g sampling \<Rightarrow> drive_config \<Rightarrow> nat \<Rightarrow> nat \<Rightarrow> 'rl append_env \<Rightarrow> ('c, 'g, 't) append_writer \<Rightarrow>
   ('rl append_env \<times> ('c, 'g, 't) append_writer) option" where
  "append_loop 0 C G cfg fired_at budget e w = None"
| "append_loop (Suc fuel) C G cfg fired_at budget e w =
     (if budget > 0 \<and> cl_pending_count C (aw_client w) < dc_pipeline_depth cfg then
        (case append_body C G cfg fired_at budget e w of
           None \<Rightarrow> None
         | Some (budget, e, w, go) \<Rightarrow>
             if go then append_loop fuel C G cfg fired_at budget e w else Some (e, w))
      else Some (e, w))"

definition append_fill ::
  "'rl ratelimit \<Rightarrow> 'c client_api \<Rightarrow> 'g sampling \<Rightarrow> drive_config \<Rightarrow> nat \<Rightarrow> nat \<Rightarrow> 'rl append_env \<Rightarrow>
   ('c, 'g, 't) append_writer \<Rightarrow> ('rl append_env \<times> ('c, 'g, 't) append_writer) option" where
  "append_fill L C G cfg now fired_at e w =
     (let free = dc_pipeline_depth cfg - cl_pending_count C (aw_client w) in
      if free > 0 then
        (case pq_is_empty (dc_endpoint_idx cfg) (ae_queues e) of
           None \<Rightarrow> None
         | Some none \<Rightarrow>
             if none then Some (e, w)
             else let (budget, rl) = append_token_budget L now (ae_limiter e) free
                  in append_loop (Suc (length (ae_queues e ! dc_endpoint_idx cfg))) C G cfg fired_at budget
                       (e\<lparr>ae_limiter := rl\<rparr>) w)
      else Some (e, w))"

definition append_flush ::
  "'c client_api \<Rightarrow> drive_config \<Rightarrow> 'rl append_env \<Rightarrow> ('c, 'g, 't) append_writer \<Rightarrow>
   ('rl append_env \<times> ('c, 'g, 't) append_writer) option" where
  "append_flush C cfg e w =
     (let before = cl_pending_count C (aw_client w); (ok, c) = cl_flush C (aw_client w); w = w\<lparr>aw_client := c\<rparr>
      in if ok then Some (e, w)
         else let (infl, m, discarded) =
                    note_discarded before (cl_pending_count C c) (aw_inflight w) False (aw_flight w)
              in (case requeue_newest (dc_endpoint_idx cfg) discarded (aw_in_flight w) (ae_queues e) of
                    None \<Rightarrow> None
                  | Some (ks, q) \<Rightarrow>
                      Some (e\<lparr>ae_queues := q\<rparr>, w\<lparr>aw_in_flight := ks, aw_inflight := infl, aw_flight := m\<rparr>)))"

section \<open>One iteration, and a reply\<close>

abbreviation APPEND_IDLE :: nat where "APPEND_IDLE \<equiv> 1000000"

definition append_disconnect ::
  "drive_config \<Rightarrow> 'rl append_env \<Rightarrow> ('c, 'g, 't) append_writer \<Rightarrow> ('rl append_env \<times> ('c, 'g, 't) append_writer) option" where
  "append_disconnect cfg e w =
     map_option (\<lambda>q. (e\<lparr>ae_queues := q\<rparr>, w\<lparr>aw_in_flight := []\<rparr>))
       (requeue_drained (aw_router w) (dc_key_format cfg) (dc_key_len cfg) (dc_num_endpoints cfg) (aw_in_flight w)
          (ae_queues e))"

definition append_iteration ::
  "'rl ratelimit \<Rightarrow> 'c client_api \<Rightarrow> 'g sampling \<Rightarrow> drive_config \<Rightarrow> nat \<Rightarrow> nat \<Rightarrow> 'rl append_env \<Rightarrow>
   ('c, 'g, 't) append_writer \<Rightarrow> ('rl append_env \<times> ('c, 'g, 't) append_writer \<times> drive_await) option" where
  "append_iteration L C G cfg now fired_at e w =
     (if should_stop (shared_phase (ae_shared e)) then Some (e, w, Return_ok)
      else if cl_pending_count C (aw_client w) = 0 \<and> \<not> cl_is_alive C (aw_client w) then
        map_option (\<lambda>(e, w). (e, w, Disconnect Eof)) (append_disconnect cfg e w)
      else case append_fill L C G cfg now fired_at e w of
             None \<Rightarrow> None
           | Some (e, w) \<Rightarrow>
               map_option (\<lambda>(e, w). (e, w, if cl_pending_count C (aw_client w) = 0 then Nap APPEND_IDLE else Recv_reply))
                 (append_flush C cfg e w))"

definition drive_resp_append ::
  "'rl ratelimit \<Rightarrow> 'c client_api \<Rightarrow> 'g sampling \<Rightarrow> drive_config \<Rightarrow> nat \<Rightarrow> nat \<Rightarrow> 'rl append_env \<Rightarrow>
   ('c, 'g, 't) append_writer \<Rightarrow> ('rl append_env \<times> ('c, 'g, 't) append_writer \<times> drive_await) option" where
  "drive_resp_append L C G cfg now fired_at e w = append_iteration L C G (cfg\<lparr>dc_memcache := False\<rparr>) now fired_at e w"

definition drive_memcache_append ::
  "'rl ratelimit \<Rightarrow> 'c client_api \<Rightarrow> 'g sampling \<Rightarrow> drive_config \<Rightarrow> nat \<Rightarrow> nat \<Rightarrow> 'rl append_env \<Rightarrow>
   ('c, 'g, 't) append_writer \<Rightarrow> ('rl append_env \<times> ('c, 'g, 't) append_writer \<times> drive_await) option" where
  "drive_memcache_append L C G cfg now fired_at e w = append_iteration L C G (cfg\<lparr>dc_memcache := True\<rparr>) now fired_at e w"

text \<open>The key answered is the oldest in flight, else the one the reply names; \<open>None\<close> is the panic of \<open>expect\<close>.\<close>

definition append_note_reply ::
  "drive_config \<Rightarrow> 'c \<Rightarrow> request_result \<Rightarrow> 'rl append_env \<Rightarrow> ('c, 'g, 't) append_writer \<Rightarrow>
   ('rl append_env \<times> ('c, 'g, 't) append_writer) option" where
  "append_note_reply cfg c r e w =
     (let w = w\<lparr>aw_client := c, aw_inflight := fst (inflight_pop (aw_inflight w))\<rparr> in
      if rq_append r then
        (case (case aw_in_flight w of k # ks \<Rightarrow> Some k | [] \<Rightarrow> rq_key_id r) of
           None \<Rightarrow> None
         | Some key_id \<Rightarrow>
             let w = w\<lparr>aw_in_flight := tl (aw_in_flight w)\<rparr> in
             if rq_success r then Some (confirm_append_key e, w)
             else map_option (\<lambda>q. (e\<lparr>ae_set_errors := ae_set_errors e + 1, ae_queues := q\<rparr>, w))
                    (pq_push_back (dc_endpoint_idx cfg) key_id (ae_queues e)))
      else Some (e, w))"

definition resp_append_reply ::
  "(string \<Rightarrow> nat option) \<Rightarrow> drive_config \<Rightarrow> 'c \<Rightarrow> resp_meta \<Rightarrow> 'rl append_env \<Rightarrow> ('c, 'g, 't) append_writer \<Rightarrow>
   ('rl append_env \<times> ('c, 'g, 't) append_writer) option" where
  "resp_append_reply endpoint_of cfg c meta e w =
     (let r = map_respmeta meta in
      case append_note_reply cfg c r e w of
        None \<Rightarrow> None
      | Some (e, w) \<Rightarrow>
          (case rq_redirect r of
             None \<Rightarrow> Some (e, w)
           | Some rd \<Rightarrow>
               map_option (\<lambda>(tbl, m). (e, w\<lparr>aw_router := (aw_router w)\<lparr>rt_slot_table := tbl\<rparr>, aw_metrics := m\<rparr>))
                 (check_resp_redirect_parsed endpoint_of rd (rt_slot_table (aw_router w)) (aw_metrics w))))"

definition mc_append_reply ::
  "drive_config \<Rightarrow> 'c \<Rightarrow> mc_op \<Rightarrow> 'rl append_env \<Rightarrow> ('c, 'g, 't) append_writer \<Rightarrow>
   ('rl append_env \<times> ('c, 'g, 't) append_writer) option" where
  "mc_append_reply cfg c op e w = append_note_reply cfg c (map_memcache_op op) e w"

section \<open>A writer keeps every key it takes\<close>

abbreviation append_tag :: "nat \<Rightarrow> u64" where "append_tag k \<equiv> word_of_nat k OR APPEND_MARKER"

text \<open>The client's pending requests are the SETs of the keys in flight, in that order.\<close>

definition writer_sync :: "('c \<Rightarrow> u64 list) \<Rightarrow> ('c, 'g, 't) append_writer \<Rightarrow> bool" where
  "writer_sync pend w \<longleftrightarrow>
     inflight_inv (aw_inflight w) \<and> length (if_fired (aw_inflight w)) = length (pend (aw_client w)) \<and>
     pend (aw_client w) = map append_tag (aw_in_flight w)"

definition held :: "'rl append_env \<Rightarrow> ('c, 'g, 't) append_writer \<Rightarrow> nat multiset" where
  "held e w = mset (concat (ae_queues e)) + mset (aw_in_flight w)"

definition writer_kept ::
  "('c \<Rightarrow> u64 list) \<Rightarrow> nat multiset \<Rightarrow> 'rl append_env \<times> ('c, 'g, 't) append_writer \<Rightarrow>
   'rl append_env \<times> ('c, 'g, 't) append_writer \<Rightarrow> bool" where
  "writer_kept pend K ew ew' \<longleftrightarrow>
     (case (ew, ew') of ((e, w), (e', w')) \<Rightarrow>
        writer_sync pend w' \<and> length (ae_queues e') = length (ae_queues e) \<and> ae_shared e' = ae_shared e \<and>
        aw_router w' = aw_router w \<and> held e' w' = K)"

text \<open>What a failed call of the client does to the books: the newest \<open>n\<close> keys leave it.\<close>

lemma discarded_sync:
  assumes sync: "writer_sync pend w" and c: "pend c = take (length (pend (aw_client w)) - n) (pend (aw_client w))"
    and ks: "ks = take (length (aw_in_flight w) - n) (aw_in_flight w)"
  shows "writer_sync pend (w\<lparr>aw_rng := g, aw_client := c, aw_in_flight := ks, aw_inflight := forget_newest (aw_inflight w) n, aw_flight := m\<rparr>)"
  using sync c ks inflight_ops_inv(3) [of "aw_inflight w" n] forget_newest_len [of "aw_inflight w" n]
  by (simp add: writer_sync_def take_map)

lemma append_send_ok:
  assumes laws: "client_laws C pend unf" and sync: "writer_sync pend w" and ep: "dc_endpoint_idx cfg < length (ae_queues e)"
  shows "\<exists>e' w' go. append_send C G cfg t k e w = Some (e', w', go) \<and>
    writer_kept pend (add_mset k (held e w)) (e, w) (e', w') \<and> (go \<longrightarrow> ae_queues e' = ae_queues e) \<and>
    length (aw_in_flight w') \<le> Suc (length (aw_in_flight w))"
proof -
  let ?ep = "dc_endpoint_idx cfg" and ?p = "pend (aw_client w)"
  obtain f g where f: "set_command G cfg (write_key (dc_key_format cfg) (dc_key_len cfg) k) (append_tag k) (aw_rng w) = (f, g)"
    by fastforce
  obtain ok c where fire: "cl_fire C (aw_client w) f = (ok, c)" by fastforce
  show ?thesis
  proof (cases ok)
    case True
    then have p: "pend c = ?p @ [append_tag k]"
      using client_lawsD(3) [OF laws, of "aw_client w" f c] fire set_command_user_data [OF f] by simp
    let ?w = "w\<lparr>aw_rng := g, aw_client := c, aw_in_flight := aw_in_flight w @ [k], aw_inflight := inflight_push (aw_inflight w) t\<rparr>"
    have "append_send C G cfg t k e w = Some (e, ?w, True)"
      using f fire True by (simp add: append_send_def)
    moreover have "writer_sync pend ?w"
      using sync p inflight_ops_inv(1) [of "aw_inflight w" t 0]
      by (simp add: writer_sync_def inflight_push_def push_queued_def Let_def)
    then have "writer_kept pend (add_mset k (held e w)) (e, w) (e, ?w)"
      by (simp add: writer_kept_def held_def)
    ultimately show ?thesis by fastforce
  next
    case False
    then obtain n where n: "n \<le> unf (aw_client w)" "pend c = take (length ?p - n) ?p"
      using client_lawsD(4) [OF laws, of "aw_client w" f c] fire by auto
    have "n \<le> length ?p" using n(1) client_lawsD(2) [OF laws, of "aw_client w"] by simp
    then have disc: "cl_pending_count C (aw_client w) - cl_pending_count C c = n"
      using n(2) by (simp add: client_lawsD(1) [OF laws])
    obtain q where q: "pq_push_front ?ep k (ae_queues e) = Some q"
      "mset (concat q) = add_mset k (mset (concat (ae_queues e)))" "length q = length (ae_queues e)"
      using mset_push_front [OF ep, of k] by blast
    obtain ks q' where rq: "requeue_newest ?ep n (aw_in_flight w) q = Some (ks, q')"
      "ks = take (length (aw_in_flight w) - n) (aw_in_flight w)"
      "mset (concat q') + mset ks = mset (concat q) + mset (aw_in_flight w)" "length q' = length q"
      using mset_requeue_newest [of ?ep q n "aw_in_flight w"] ep q(3) by auto
    let ?w = "w\<lparr>aw_rng := g, aw_client := c, aw_in_flight := ks, aw_inflight := forget_newest (aw_inflight w) n, aw_flight := aw_flight w\<rparr>"
    have "append_send C G cfg t k e w = Some (e\<lparr>ae_queues := q'\<rparr>, ?w, False)"
      using f fire False q(1) rq(1) disc
      by (simp add: append_send_def note_failed_fire_def note_discarded_def)
    moreover have "writer_kept pend (add_mset k (held e w)) (e, w) (e\<lparr>ae_queues := q'\<rparr>, ?w)"
      using discarded_sync [OF sync n(2) rq(2), where g = g and m = "aw_flight w"] rq(3,4) q(2,3) by (simp add: writer_kept_def held_def)
    moreover have "length (aw_in_flight ?w) \<le> Suc (length (aw_in_flight w))" using rq(2) by simp
    ultimately show ?thesis by blast
  qed
qed

definition writer_ready :: "drive_config \<Rightarrow> 'rl append_env \<Rightarrow> ('c, 'g, 't) append_writer \<Rightarrow> bool" where
  "writer_ready cfg e w \<longleftrightarrow>
     dc_endpoint_idx cfg < length (ae_queues e) \<and> length (ae_queues e) = max (dc_num_endpoints cfg) 1 \<and>
     router_ok (aw_router w) (length (ae_queues e))"

lemma writer_router: "writer_ready cfg e w \<Longrightarrow> router_ok (aw_router w) (length (ae_queues e))"
  unfolding writer_ready_def by blast

lemma writer_kept_ready: "writer_kept pend K (e, w) (e', w') \<Longrightarrow> writer_ready cfg e w \<Longrightarrow> writer_ready cfg e' w'"
  unfolding writer_kept_def writer_ready_def by auto

lemma append_body_ok:
  assumes laws: "client_laws C pend unf" and sync: "writer_sync pend w" and rdy: "writer_ready cfg e w"
  shows "\<exists>b' e' w' go. append_body C G cfg t b e w = Some (b', e', w', go) \<and>
    writer_kept pend (held e w) (e, w) (e', w') \<and>
    (go \<longrightarrow> length (ae_queues e' ! dc_endpoint_idx cfg) < length (ae_queues e ! dc_endpoint_idx cfg)) \<and>
    length (aw_in_flight w') \<le> Suc (length (aw_in_flight w))"
proof -
  let ?ep = "dc_endpoint_idx cfg" and ?q = "ae_queues e"
  have ep: "?ep < length ?q" using rdy by (simp add: writer_ready_def)
  show ?thesis
  proof (cases "?q ! ?ep")
    case Nil
    then show ?thesis using sync ep by (auto simp: append_body_def pq_pop_front_def writer_kept_def)
  next
    case (Cons k ks)
    define q where "q = ?q[?ep := ks]"
    have pop: "pq_pop_front ?ep ?q = Some (q, Some k)" using Cons ep by (simp add: pq_pop_front_def q_def)
    note P = mset_pop_front [OF pop]
    let ?e = "e\<lparr>ae_queues := q\<rparr>"
    have K: "add_mset k (held ?e w) = held e w" using P(1) by (simp add: held_def)
    have ep': "?ep < length (ae_queues ?e)" and qe: "q ! ?ep = ks" using ep P(2) by (simp_all add: q_def)
    obtain e' w' go where snd: "append_send C G cfg t k ?e w = Some (e', w', go)"
      "writer_kept pend (held e w) (?e, w) (e', w')" "go \<longrightarrow> ae_queues e' = q"
      "length (aw_in_flight w') \<le> Suc (length (aw_in_flight w))"
      using append_send_ok [OF laws sync ep', of G t k] K by auto
    have sent: ?thesis if "append_body C G cfg t b e w = map_option (Pair (b - 1)) (append_send C G cfg t k ?e w)"
      using that snd Cons qe P(2) by (auto simp: writer_kept_def)
    show ?thesis
    proof (cases "dc_num_endpoints cfg > 1")
      case False
      then show ?thesis using pop by (intro sent) (simp add: append_body_def)
    next
      case True
      then have "length ?q = dc_num_endpoints cfg" using rdy by (simp add: writer_ready_def)
      then obtain r where r: "route_key (aw_router w) (dc_num_endpoints cfg) (write_key (dc_key_format cfg) (dc_key_len cfg) k) = Some r"
        "r < length ?q"
        using rdy unfolding writer_ready_def router_ok_def route_key_def by metis
      show ?thesis
      proof (cases "r = ?ep")
        case same: True
        then show ?thesis using pop r True by (intro sent) (simp add: append_body_def)
      next
        case other: False
        obtain q' where q': "pq_push_back r k q = Some q'" "mset (concat q') = add_mset k (mset (concat q))"
          "length q' = length q" "\<forall>j. j \<noteq> r \<longrightarrow> q' ! j = q ! j"
          using mset_push_back [of r q k] r(2) P(2) by auto
        have "append_body C G cfg t b e w = Some (b, e\<lparr>ae_queues := q'\<rparr>, w, True)"
          using pop True r other q'(1) by (simp add: append_body_def)
        moreover have "writer_kept pend (held e w) (e, w) (e\<lparr>ae_queues := q'\<rparr>, w)"
          using sync q'(2,3) P(1,2) by (simp add: writer_kept_def held_def)
        moreover have "length (q' ! ?ep) < length (?q ! ?ep)" using q'(4) other qe Cons by simp
        ultimately show ?thesis by fastforce
      qed
    qed
  qed
qed

lemma writer_kept_trans:
  "writer_kept pend K (e, w) (e', w') \<Longrightarrow> writer_kept pend K' (e', w') (e'', w'') \<Longrightarrow> writer_kept pend K' (e, w) (e'', w'')"
  by (simp add: writer_kept_def)

lemma writer_keptD: "writer_kept pend K (e, w) (e', w') \<Longrightarrow> writer_sync pend w' \<and> held e' w' = K"
  by (simp add: writer_kept_def)

lemma append_loop_ok:
  assumes laws: "client_laws C pend unf"
  shows "writer_sync pend w \<Longrightarrow> writer_ready cfg e w \<Longrightarrow> length (ae_queues e ! dc_endpoint_idx cfg) < fuel \<Longrightarrow>
    \<exists>e' w'. append_loop fuel C G cfg t b e w = Some (e', w') \<and> writer_kept pend (held e w) (e, w) (e', w') \<and>
      length (aw_in_flight w') \<le> max (dc_pipeline_depth cfg) (length (aw_in_flight w))"
proof (induction fuel arbitrary: b e w)
  case (Suc fuel)
  obtain b' e' w' go where body: "append_body C G cfg t b e w = Some (b', e', w', go)"
    "writer_kept pend (held e w) (e, w) (e', w')"
    "go \<longrightarrow> length (ae_queues e' ! dc_endpoint_idx cfg) < length (ae_queues e ! dc_endpoint_idx cfg)"
    "length (aw_in_flight w') \<le> Suc (length (aw_in_flight w))"
    using append_body_ok [OF laws Suc.prems(1,2)] by blast
  have stay: "writer_kept pend (held e w) (e, w) (e, w)" using Suc.prems(1) by (simp add: writer_kept_def)
  have cnt: "cl_pending_count C (aw_client w) = length (aw_in_flight w)"
    using Suc.prems(1) client_lawsD(1) [OF laws] by (simp add: writer_sync_def)
  show ?case
  proof (cases "b > 0 \<and> cl_pending_count C (aw_client w) < dc_pipeline_depth cfg \<and> go")
    case True
    have "length (ae_queues e' ! dc_endpoint_idx cfg) < fuel" using body(3) True Suc.prems(3) by simp
    with Suc.IH [of w' e' b'] obtain e2 w2 where
      "append_loop fuel C G cfg t b' e' w' = Some (e2, w2)" "writer_kept pend (held e' w') (e', w') (e2, w2)"
      "length (aw_in_flight w2) \<le> max (dc_pipeline_depth cfg) (length (aw_in_flight w'))"
      using writer_keptD [OF body(2)] writer_kept_ready [OF body(2) Suc.prems(2)] by blast
    moreover have "length (aw_in_flight w') \<le> dc_pipeline_depth cfg" using True cnt body(4) by simp
    ultimately show ?thesis using True body(1) writer_kept_trans [OF body(2)] writer_keptD [OF body(2)] by auto
  next
    case False
    then show ?thesis using body stay cnt by auto
  qed
qed simp

lemma append_fill_ok:
  assumes laws: "client_laws C pend unf" and sync: "writer_sync pend w" and rdy: "writer_ready cfg e w"
  shows "\<exists>e' w'. append_fill L C G cfg now t e w = Some (e', w') \<and> writer_kept pend (held e w) (e, w) (e', w') \<and>
    length (aw_in_flight w') \<le> max (dc_pipeline_depth cfg) (length (aw_in_flight w))"
proof -
  let ?free = "dc_pipeline_depth cfg - cl_pending_count C (aw_client w)"
  obtain b rl where b: "append_token_budget L now (ae_limiter e) ?free = (b, rl)" by fastforce
  let ?e = "e\<lparr>ae_limiter := rl\<rparr>"
  have "writer_ready cfg ?e w" using rdy unfolding writer_ready_def by auto
  from append_loop_ok [OF laws sync this, of "Suc (length (ae_queues e ! dc_endpoint_idx cfg))" G t b]
  obtain e' w' where "append_loop (Suc (length (ae_queues e ! dc_endpoint_idx cfg))) C G cfg t b ?e w = Some (e', w')"
    "writer_kept pend (held e w) (e, w) (e', w')" "length (aw_in_flight w') \<le> max (dc_pipeline_depth cfg) (length (aw_in_flight w))"
    by (auto simp: writer_kept_def held_def)
  moreover have "writer_kept pend (held e w) (e, w) (e, w)" using sync by (simp add: writer_kept_def)
  moreover have "pq_is_empty (dc_endpoint_idx cfg) (ae_queues e) = Some (ae_queues e ! dc_endpoint_idx cfg = [])"
    using rdy by (simp add: writer_ready_def pq_is_empty_def)
  ultimately show ?thesis using b unfolding append_fill_def Let_def by (simp del: append_loop.simps)
qed

lemma append_flush_ok:
  assumes laws: "client_laws C pend unf" and sync: "writer_sync pend w" and rdy: "writer_ready cfg e w"
  shows "\<exists>e' w'. append_flush C cfg e w = Some (e', w') \<and> writer_kept pend (held e w) (e, w) (e', w') \<and>
    length (aw_in_flight w') \<le> length (aw_in_flight w)"
proof -
  let ?p = "pend (aw_client w)" and ?ep = "dc_endpoint_idx cfg"
  obtain ok c where fl: "cl_flush C (aw_client w) = (ok, c)" by fastforce
  show ?thesis
  proof (cases ok)
    case True
    then have "pend c = ?p" using client_lawsD(5) [OF laws] fl by simp
    then show ?thesis using fl True sync by (simp add: append_flush_def writer_kept_def writer_sync_def held_def)
  next
    case False
    then obtain n where n: "n \<le> unf (aw_client w)" "pend c = take (length ?p - n) ?p"
      using client_lawsD(6) [OF laws, of "aw_client w" c] fl by auto
    have "n \<le> length ?p" using n(1) client_lawsD(2) [OF laws, of "aw_client w"] by simp
    then have disc: "cl_pending_count C (aw_client w) - cl_pending_count C c = n"
      using n(2) by (simp add: client_lawsD(1) [OF laws])
    obtain ks q where rq: "requeue_newest ?ep n (aw_in_flight w) (ae_queues e) = Some (ks, q)"
      "ks = take (length (aw_in_flight w) - n) (aw_in_flight w)"
      "mset (concat q) + mset ks = held e w" "length q = length (ae_queues e)"
      using mset_requeue_newest [of ?ep "ae_queues e" n "aw_in_flight w"] rdy by (auto simp: writer_ready_def held_def)
    let ?w = "w\<lparr>aw_rng := aw_rng w, aw_client := c, aw_in_flight := ks, aw_inflight := forget_newest (aw_inflight w) n, aw_flight := aw_flight w\<rparr>"
    have "append_flush C cfg e w = Some (e\<lparr>ae_queues := q\<rparr>, ?w)"
      using fl False rq(1) disc by (simp add: append_flush_def note_discarded_def)
    moreover have "writer_kept pend (held e w) (e, w) (e\<lparr>ae_queues := q\<rparr>, ?w)"
      using discarded_sync [OF sync n(2) rq(2), where g = "aw_rng w" and m = "aw_flight w"] rq(3,4) by (simp add: writer_kept_def held_def)
    moreover have "length (aw_in_flight ?w) \<le> length (aw_in_flight w)" using rq(2) by simp
    ultimately show ?thesis by blast
  qed
qed

lemma append_disconnect_ok:
  assumes "writer_ready cfg e w"
  shows "\<exists>q. append_disconnect cfg e w = Some (e\<lparr>ae_queues := q\<rparr>, w\<lparr>aw_in_flight := []\<rparr>) \<and> mset (concat q) = held e w \<and>
    length q = length (ae_queues e)"
proof -
  have "router_ok (aw_router w) (max (dc_num_endpoints cfg) 1)" "length (ae_queues e) = max (dc_num_endpoints cfg) 1"
    using assms unfolding writer_ready_def by auto
  from requeue_drained_keys [OF this, of "dc_key_format cfg" "dc_key_len cfg" "aw_in_flight w"]
  show ?thesis by (auto simp: append_disconnect_def held_def)
qed

lemma append_iteration_ok:
  assumes laws: "client_laws C pend unf" and sync: "writer_sync pend w" and rdy: "writer_ready cfg e w"
  shows "\<exists>e' w' a. append_iteration L C G cfg now t e w = Some (e', w', a) \<and> writer_kept pend (held e w) (e, w) (e', w') \<and>
    length (aw_in_flight w') \<le> max (dc_pipeline_depth cfg) (length (aw_in_flight w)) \<and>
    (a = Recv_reply \<longrightarrow> aw_in_flight w' \<noteq> []) \<and> (a \<noteq> Recv_reply \<longrightarrow> a = Return_ok \<or> aw_in_flight w' = [])"
proof -
  have stay: "writer_kept pend (held e w) (e, w) (e, w)" using sync by (simp add: writer_kept_def)
  obtain e1 w1 where fill: "append_fill L C G cfg now t e w = Some (e1, w1)" "writer_kept pend (held e w) (e, w) (e1, w1)"
    "length (aw_in_flight w1) \<le> max (dc_pipeline_depth cfg) (length (aw_in_flight w))"
    using append_fill_ok [OF laws sync rdy] by blast
  obtain e2 w2 where flush: "append_flush C cfg e1 w1 = Some (e2, w2)" "writer_kept pend (held e w) (e1, w1) (e2, w2)"
    "length (aw_in_flight w2) \<le> length (aw_in_flight w1)"
    using append_flush_ok [OF laws _ writer_kept_ready [OF fill(2) rdy]] writer_keptD [OF fill(2)] by metis
  have cnt: "cl_pending_count C (aw_client v) = length (aw_in_flight v)" if "writer_sync pend v" for v
    using that client_lawsD(1) [OF laws] by (simp add: writer_sync_def)
  have gone: "append_disconnect cfg e w = Some (e, w)" if "cl_pending_count C (aw_client w) = 0"
  proof -
    have none: "aw_in_flight w = []" using that sync client_lawsD(1) [OF laws] by (simp add: writer_sync_def)
    then have "w\<lparr>aw_in_flight := []\<rparr> = w" by simp
    then show ?thesis using none by (simp add: append_disconnect_def requeue_drained_def)
  qed
  show ?thesis
    using stay fill(1,3) flush(1,3) writer_kept_trans [OF fill(2) flush(2)] gone cnt [OF sync] cnt [of w2] writer_keptD [OF flush(2)]
    unfolding append_iteration_def by auto
qed

text \<open>A reply to the oldest request, which is the SET of the oldest key in flight.\<close>

lemma append_note_reply_ok:
  assumes sync: "writer_sync pend w" and rdy: "writer_ready cfg e w" and k: "aw_in_flight w = k # ks"
    and c: "pend c = tl (pend (aw_client w))" and r: "rq_append r"
  shows "\<exists>e' w'. append_note_reply cfg c r e w = Some (e', w') \<and> writer_sync pend w' \<and> writer_ready cfg e' w' \<and>
    length (ae_queues e') = length (ae_queues e) \<and> aw_router w' = aw_router w \<and>
    aw_in_flight w' = ks \<and>
    held e w = (if rq_success r then add_mset k (held e' w') else held e' w') \<and>
    ae_shared e' = (if rq_success r then add_append_confirmed 1 (ae_shared e) else ae_shared e)"
proof -
  let ?w = "w\<lparr>aw_client := c, aw_inflight := fst (inflight_pop (aw_inflight w)), aw_in_flight := ks\<rparr>"
  have s: "writer_sync pend ?w"
    using sync k c inflight_ops_inv(2) [of "aw_inflight w"] by (simp add: writer_sync_def inflight_pop_def)
  show ?thesis
  proof (cases "rq_success r")
    case True
    have "writer_ready cfg (confirm_append_key e) ?w" using rdy unfolding writer_ready_def confirm_append_key_def by auto
    then show ?thesis using True r k s by (simp add: append_note_reply_def held_def confirm_append_key_def)
  next
    case False
    obtain q where q: "pq_push_back (dc_endpoint_idx cfg) k (ae_queues e) = Some q"
      "mset (concat q) = add_mset k (mset (concat (ae_queues e)))" "length q = length (ae_queues e)"
      using mset_push_back [of "dc_endpoint_idx cfg" "ae_queues e" k] rdy by (auto simp: writer_ready_def)
    have "writer_ready cfg (e\<lparr>ae_set_errors := ae_set_errors e + 1, ae_queues := q\<rparr>) ?w"
      using rdy q(3) unfolding writer_ready_def by auto
    then show ?thesis using False r k s q by (simp add: append_note_reply_def held_def)
  qed
qed

section \<open>The main thread and the writers together\<close>

text \<open>
  The run with the writers of every worker. Between the steps, the queues and the shared counters are those of
  the main thread's state. \<open>sy_stored\<close> is not in the program: the ids of the append SETs that
  servers have acknowledged.
\<close>

record ('c, 'rl, 'g, 't, 'h) append_system =
  sy_run :: "('rl, 'h) run_state"
  sy_limiter :: "'rl option"
  sy_set_count :: nat
  sy_set_errors :: nat
  sy_writers :: "(drive_config \<times> ('c, 'g, 't) append_writer) list"
  sy_stored :: "nat multiset"

definition env_of :: "('c, 'rl, 'g, 't, 'h) append_system \<Rightarrow> 'rl append_env" where
  "env_of S = \<lparr>ae_queues = rn_append_queues (sy_run S), ae_limiter = sy_limiter S, ae_shared = rn_shared (sy_run S),
     ae_set_count = sy_set_count S, ae_set_errors = sy_set_errors S\<rparr>"

definition put_env :: "'rl append_env \<Rightarrow> ('c, 'rl, 'g, 't, 'h) append_system \<Rightarrow> ('c, 'rl, 'g, 't, 'h) append_system" where
  "put_env e S = S\<lparr>sy_run := (sy_run S)\<lparr>rn_append_queues := ae_queues e, rn_shared := ae_shared e\<rparr>,
     sy_limiter := ae_limiter e, sy_set_count := ae_set_count e, sy_set_errors := ae_set_errors e\<rparr>"

definition put_writer ::
  "nat \<Rightarrow> drive_config \<Rightarrow> ('c, 'g, 't) append_writer \<Rightarrow> ('c, 'rl, 'g, 't, 'h) append_system \<Rightarrow> ('c, 'rl, 'g, 't, 'h) append_system" where
  "put_writer i d w S = S\<lparr>sy_writers := (sy_writers S)[i := (d, w)]\<rparr>"

definition store :: "bool \<Rightarrow> u64 \<Rightarrow> ('c, 'rl, 'g, 't, 'h) append_system \<Rightarrow> ('c, 'rl, 'g, 't, 'h) append_system" where
  "store ok ud S = (if ok then S\<lparr>sy_stored := add_mset (user_data_id ud) (sy_stored S)\<rparr> else S)"

text \<open>
  The steps: a pass of the main thread, the other workers' accesses to the counters, and of each
  writer an iteration, the start and the polls of a bounded receive, a reply, and the end of its connection. A
  reply answers the oldest request of its connection. A worker's slot table also changes by the
  redirects its readers meet. \<open>n\<close> is the number of passes.
\<close>

inductive append_reach ::
  "'rl ratelimit \<Rightarrow> 'h histogram_api \<Rightarrow> 'c client_api \<Rightarrow> ('c \<Rightarrow> u64 list) \<Rightarrow> 'g sampling \<Rightarrow> 't timers \<Rightarrow>
   (string \<Rightarrow> nat option) \<Rightarrow> run_config \<Rightarrow> nat \<Rightarrow> ('c, 'rl, 'g, 't, 'h) append_system \<Rightarrow> bool"
  for L :: "'rl ratelimit" and H :: "'h histogram_api" and C :: "'c client_api" and pend :: "'c \<Rightarrow> u64 list"
    and G :: "'g sampling" and T :: "'t timers" and endpoint_of :: "string \<Rightarrow> nat option" and cfg :: run_config where
  append_start: "run_start cfg (sy_run S) \<Longrightarrow> queues_ok cfg (sy_run S) \<Longrightarrow> concat (rn_append_queues (sy_run S)) = [] \<Longrightarrow>
    sy_writers S = [] \<Longrightarrow> sy_stored S = {#} \<Longrightarrow> append_reach L H C pend G T endpoint_of cfg 0 S"
| append_connect: "append_reach L H C pend G T endpoint_of cfg n S \<Longrightarrow> pend (aw_client w) = [] \<Longrightarrow> aw_in_flight w = [] \<Longrightarrow>
    aw_inflight w = inflight_new timeout \<Longrightarrow> writer_ready d (env_of S) w \<Longrightarrow>
    append_reach L H C pend G T endpoint_of cfg n (S\<lparr>sy_writers := sy_writers S @ [(d, w)]\<rparr>)"
| append_work: "append_reach L H C pend G T endpoint_of cfg n S \<Longrightarrow> (\<forall>k. op \<noteq> Confirm_append k) \<Longrightarrow>
    append_reach L H C pend G T endpoint_of cfg n (S\<lparr>sy_run := (sy_run S)\<lparr>rn_shared := apply_op op (rn_shared (sy_run S))\<rparr>\<rparr>)"
| append_pass: "append_reach L H C pend G T endpoint_of cfg n S \<Longrightarrow> runner_tick L H cfg tk (sy_run S) = Some (rs, None) \<Longrightarrow>
    append_reach L H C pend G T endpoint_of cfg (Suc n) (S\<lparr>sy_run := rs\<rparr>)"
| append_turn: "append_reach L H C pend G T endpoint_of cfg n S \<Longrightarrow> i < length (sy_writers S) \<Longrightarrow> sy_writers S ! i = (d, w) \<Longrightarrow>
    append_iteration L C G d now t (env_of S) w = Some (e', w', a) \<Longrightarrow>
    append_reach L H C pend G T endpoint_of cfg n (put_writer i d w' (put_env e' S))"
| append_wait: "append_reach L H C pend G T endpoint_of cfg n S \<Longrightarrow> i < length (sy_writers S) \<Longrightarrow> sy_writers S ! i = (d, w) \<Longrightarrow>
    recv_begin T t\<^sub>1 t\<^sub>2 (aw_inflight w) = (f, b) \<or> recv_poll T ts (None :: resp_meta option) (aw_inflight w) = Some (f, p) \<Longrightarrow>
    append_reach L H C pend G T endpoint_of cfg n (put_writer i d (w\<lparr>aw_inflight := f\<rparr>) S)"
| append_resp: "append_reach L H C pend G T endpoint_of cfg n S \<Longrightarrow> i < length (sy_writers S) \<Longrightarrow> sy_writers S ! i = (d, w) \<Longrightarrow>
    \<not> dc_memcache d \<Longrightarrow> pend (aw_client w) = ud # pend c \<Longrightarrow> rm_kind meta = Kind_set \<Longrightarrow> rm_user_data meta = ud \<Longrightarrow>
    resp_append_reply endpoint_of d c meta (env_of S) w = Some (e', w') \<Longrightarrow>
    append_reach L H C pend G T endpoint_of cfg n (store (rm_success meta) ud (put_writer i d w' (put_env e' S)))"
| append_mc: "append_reach L H C pend G T endpoint_of cfg n S \<Longrightarrow> i < length (sy_writers S) \<Longrightarrow> sy_writers S ! i = (d, w) \<Longrightarrow>
    dc_memcache d \<Longrightarrow> pend (aw_client w) = ud # pend c \<Longrightarrow>
    mc_append_reply d c (Mc_set res ud lat) (env_of S) w = Some (e', w') \<Longrightarrow>
    append_reach L H C pend G T endpoint_of cfg n (store (is_ok res) ud (put_writer i d w' (put_env e' S)))"
| append_gone: "append_reach L H C pend G T endpoint_of cfg n S \<Longrightarrow> i < length (sy_writers S) \<Longrightarrow> sy_writers S ! i = (d, w) \<Longrightarrow>
    append_disconnect d (env_of S) w = Some (e', w') \<Longrightarrow>
    append_reach L H C pend G T endpoint_of cfg n
      ((put_env e' S)\<lparr>sy_writers := take i (sy_writers S) @ drop (Suc i) (sy_writers S)\<rparr>)"
| append_moved: "append_reach L H C pend G T endpoint_of cfg n S \<Longrightarrow> i < length (sy_writers S) \<Longrightarrow> sy_writers S ! i = (d, w) \<Longrightarrow>
    router_ok R (max (dc_num_endpoints d) 1) \<Longrightarrow>
    append_reach L H C pend G T endpoint_of cfg n (put_writer i d (w\<lparr>aw_router := R\<rparr>) S)"

definition writers_hold :: "(drive_config \<times> ('c, 'g, 't) append_writer) list \<Rightarrow> nat multiset" where
  "writers_hold ws = (\<Sum>(d, w)\<leftarrow>ws. mset (aw_in_flight w))"

definition writers_ok ::
  "('c \<Rightarrow> u64 list) \<Rightarrow> nat \<Rightarrow> (drive_config \<times> ('c, 'g, 't) append_writer) list \<Rightarrow> bool" where
  "writers_ok pend n ws \<longleftrightarrow>
     (\<forall>(d, w)\<in>set ws. writer_sync pend w \<and> length (aw_in_flight w) \<le> dc_pipeline_depth d \<and> dc_endpoint_idx d < n \<and> n = max (dc_num_endpoints d) 1 \<and> router_ok (aw_router w) n)"

text \<open>Where every key the main thread has queued is: acknowledged, in a queue, or in flight.\<close>

definition keys_inv :: "run_config \<Rightarrow> ('rl, 'h) run_state \<Rightarrow> nat multiset \<Rightarrow> nat multiset \<Rightarrow> bool" where
  "keys_inv cfg rs stored flying \<longleftrightarrow>
     mset [rc_key_count cfg..<rn_append_next_id rs] = stored + mset (concat (rn_append_queues rs)) + flying \<and>
     sh_append_confirmed (rn_shared rs) = size stored \<and>
     (\<forall>h. rn_append_head rs = Some h \<longrightarrow> mset [rc_key_count cfg..<h] \<subseteq># stored)"

definition system_inv ::
  "('c \<Rightarrow> u64 list) \<Rightarrow> run_config \<Rightarrow> nat \<Rightarrow> ('c, 'rl, 'g, 't, 'h) append_system \<Rightarrow> bool" where
  "system_inv pend cfg n S \<longleftrightarrow>
     phase_inv (sy_run S) \<and> append_inv cfg n (sy_run S) \<and> queues_ok cfg (sy_run S) \<and>
     writers_ok pend (length (rn_append_queues (sy_run S))) (sy_writers S) \<and>
     keys_inv cfg (sy_run S) (sy_stored S) (writers_hold (sy_writers S))"

subsection \<open>The main thread's passes\<close>

definition same_queues :: "('rl, 'h) run_state \<Rightarrow> ('rl, 'h) run_state \<Rightarrow> bool" where
  "same_queues s s' \<longleftrightarrow> rn_append_queues s' = rn_append_queues s \<and> rn_router s' = rn_router s"

lemma same_queues_parts:
  "same_queues s (begin_prefill L now s)" "same_queues s (begin_warmup L cfg fp now s)" "same_queues s (begin_running L cfg tk s)"
  "same_queues s (report_tick L H cfg tk s)"
  by (auto simp: same_queues_def begin_prefill_def begin_warmup_def begin_running_def report_tick_def kv_start_at_def
      Let_def split: option.splits)

lemma keys_inv_same:
  "same_append s s' \<Longrightarrow> same_queues s s' \<Longrightarrow> keys_inv cfg s K F \<Longrightarrow> keys_inv cfg s' K F"
  by (simp add: same_append_def same_queues_def keys_inv_def)

lemma queues_ok_same: "same_queues s s' \<Longrightarrow> queues_ok cfg s' \<longleftrightarrow> queues_ok cfg s"
  by (simp add: same_queues_def queues_ok_def)

lemma append_tick_cases:
  assumes t: "append_tick cfg now s = Some s'"
  obtains (same) "same_append s s'" "same_queues s s'"
    | (publish) "same_queues s s'" "sh_append_confirmed (rn_shared s) \<ge> sh_append_total (rn_shared s)"
        "rn_append_next_id s' = rn_append_next_id s" "rn_shared s' = rn_shared s" "rn_append_head s' = Some (rn_append_next_id s)"
    | (queue) a q where "rc_append cfg = Some a" "enqueued cfg s a = Some q" "rn_append_queues s' = q" "rn_router s' = rn_router s"
        "rn_append_next_id s' = wrapping_add (rn_append_next_id s) (ap_batch a)" "rn_append_head s' = rn_append_head s"
        "sh_append_confirmed (rn_shared s') = sh_append_confirmed (rn_shared s)"
proof (cases "rc_append cfg = None \<or> rn_append_head s = None \<or> rn_warmup_start s = None \<or> \<not> (rn_phase s = Warmup \<or> rn_phase s = Running)")
  case True
  then have "s' = s" using t by (auto simp: append_tick_def split: option.splits)
  then show thesis by (intro same) (simp_all add: same_append_def same_queues_def)
next
  case False
  then obtain a h ws where c: "rc_append cfg = Some a" "rn_append_head s = Some h" "rn_warmup_start s = Some ws"
    and ph: "rn_phase s = Warmup \<or> rn_phase s = Running" by auto
  define x where "x = (case rn_append_next_at s of Some t \<Rightarrow> t | None \<Rightarrow> ws + ap_every a)"
  note T = t [unfolded append_tick_def c option.case prod.case if_P [OF ph] x_def [symmetric] Let_def]
  show thesis
  proof (cases "rn_append_batch_open s")
    case True
    then show thesis using T same publish
      by (cases "sh_append_total (rn_shared s) \<le> sh_append_confirmed (rn_shared s)") (auto simp: same_append_def same_queues_def)
  next
    case closed: False
    show thesis
    proof (cases "now \<ge> x")
      case True
      then obtain q where q: "enqueued cfg s a = Some q"
        using T closed by (auto simp: enqueued_def split: option.splits)
      then show thesis using T closed True c(1) by (intro queue [of a q]) (auto simp: enqueued_def add_append_total_def)
    qed (use T closed same in \<open>auto simp: same_append_def same_queues_def\<close>)
  qed
qed

text \<open>A pass publishes only what is stored, and what it queues becomes the writers' to store.\<close>

lemma append_tick_keys:
  assumes q: "queues_ok cfg s" and inv: "append_inv cfg n s" and keys: "keys_inv cfg s K F"
    and t: "append_tick cfg now s = Some s'" and room: "rn_append_next_id s + append_batch cfg < U64_LIMIT"
  shows "keys_inv cfg s' K F \<and> queues_ok cfg s' \<and> length (rn_append_queues s') = length (rn_append_queues s)"
proof -
  from t show ?thesis
  proof (cases rule: append_tick_cases)
    case same
    then show ?thesis using keys_inv_same keys queues_ok_same q by (metis same_queues_def)
  next
    case publish
    have "sh_append_confirmed (rn_shared s) = size K" using keys unfolding keys_inv_def by blast
    moreover have "rn_append_next_id s = rc_key_count cfg + sh_append_total (rn_shared s)"
      using inv by (simp add: append_inv_def Let_def)
    ultimately have "size (mset [rc_key_count cfg..<rn_append_next_id s]) \<le> size K" using publish(2) by simp
    moreover have all: "mset [rc_key_count cfg..<rn_append_next_id s] = K + mset (concat (rn_append_queues s)) + F"
      using keys unfolding keys_inv_def by blast
    ultimately have "size (mset (concat (rn_append_queues s))) = 0" "size F = 0"
      unfolding all size_union by linarith+
    then have "mset [rc_key_count cfg..<rn_append_next_id s] = K"
      unfolding all by (simp only: size_eq_0_iff_empty add_0_right)
    then show ?thesis using publish keys q by (simp add: keys_inv_def queues_ok_def same_queues_def del: mset_upt)
  next
    case (queue a q)
    have ok: "router_ok (rn_router s) (max (rc_endpoints cfg) 1)" "length (rn_append_queues s) = max (rc_endpoints cfg) 1"
      using q \<open>queues_ok cfg s\<close> by (simp_all add: queues_ok_def)
    have mx: "max (max (rc_endpoints cfg) 1) 1 = max (rc_endpoints cfg) 1" by simp
    have qs: "mset (concat q) = mset (concat (rn_append_queues s)) + mset [rn_append_next_id s..<rn_append_next_id s + ap_batch a]"
      "length q = length (rn_append_queues s)"
      using queue(2) push_routed_keys [OF ok, of "rc_key_format cfg" "rc_key_len cfg"] push_routed_spec [OF ok, of "rc_key_format cfg" "rc_key_len cfg"] ok(2)
      by (auto simp: enqueued_def enqueue_append_batch_def)
    have nid: "rn_append_next_id s' = rn_append_next_id s + ap_batch a"
      using queue(1,5) room wrapping_add_exact by (simp add: append_batch_def)
    have "rc_key_count cfg \<le> rn_append_next_id s" using inv by (simp add: append_inv_def Let_def)
    then have "[rc_key_count cfg..<rn_append_next_id s'] =
        [rc_key_count cfg..<rn_append_next_id s] @ [rn_append_next_id s..<rn_append_next_id s + ap_batch a]"
      unfolding nid by (rule upt_add_eq_append)
    then show ?thesis using keys queue qs ok by (simp add: keys_inv_def queues_ok_def del: mset_upt)
  qed
qed

lemma runner_tick_keys:
  assumes inv: "phase_inv s" "append_inv cfg n s" and q: "queues_ok cfg s" and keys: "keys_inv cfg s K F"
    and t: "runner_tick L H cfg tk s = Some (s', None)" and room: "rn_append_next_id s + append_batch cfg < U64_LIMIT"
  shows "keys_inv cfg s' K F \<and> queues_ok cfg s' \<and> length (rn_append_queues s') = length (rn_append_queues s)"
proof -
  have same: ?thesis if "same_append s s'" "same_queues s s'"
    using that keys_inv_same keys queues_ok_same q by (metis same_queues_def)
  consider (pre) "rn_phase s = Precheck" | (fill) "rn_phase s = Prefill" | (measured) "rn_phase s = Warmup \<or> rn_phase s = Running"
    using inv(1) by (auto simp: phase_inv_def)
  then show ?thesis
  proof cases
    case pre
    then have "precheck_tick L cfg tk s = (s', None)" using t by (simp add: runner_tick_def split: if_splits)
    then have "same_append s s' \<and> same_queues s s'"
      by (cases rule: precheck_pass) (simp_all add: same_append_parts same_queues_parts, simp_all add: same_append_def same_queues_def)
    then show ?thesis using same by blast
  next
    case fill
    then have "prefill_tick L cfg tk s = (s', None)" using t by (simp add: runner_tick_def split: if_splits)
    then have "same_append s s' \<and> same_queues s s'"
      by (cases rule: prefill_pass) (simp_all add: same_append_parts same_queues_parts, simp_all add: same_append_def same_queues_def)
    then show ?thesis using same by blast
  next
    case measured
    then have "measured_tick L H cfg tk s = Some (s', None)" using t by (auto simp: runner_tick_def split: if_splits)
    then show ?thesis
    proof (cases rule: measured_pass)
      case (1 dur s1 s2)
      let ?s0 = "s\<lparr>rn_actual_duration := dur\<rparr>"
      have "same_append s ?s0" "same_queues s ?s0" by (simp_all add: same_append_def same_queues_def)
      then have "same_append s s1 \<and> same_queues s s1"
        using 1(1) same_append_parts(3) [of ?s0 L cfg tk] same_queues_parts(3) [of ?s0 L cfg tk]
        by (auto simp: same_append_def same_queues_def)
      then have s1: "same_append s s1" "same_queues s s1" by simp_all
      have "rn_append_next_id s1 + append_batch cfg < U64_LIMIT" using room s1 by (simp add: same_append_def)
      from append_tick_keys [OF _ append_inv_same [OF s1(1) inv(2) order_refl] keys_inv_same [OF s1 keys] 1(2) this]
      have "keys_inv cfg s2 K F \<and> queues_ok cfg s2 \<and> length (rn_append_queues s2) = length (rn_append_queues s)"
        using queues_ok_same [OF s1(2)] q s1(2) by (simp add: same_queues_def)
      then show ?thesis
        using keys_inv_same [OF same_append_parts(4) same_queues_parts(4), of cfg s2] same_queues_parts(4) [of s2 L H cfg tk] 1(3)
        by (auto simp: same_queues_def queues_ok_def)
    qed
  qed
qed

subsection \<open>The writers' steps\<close>

lemma writers_hold_split:
  assumes "i < length ws"
  shows "writers_hold ws = mset (aw_in_flight (snd (ws ! i))) + writers_hold (take i ws @ drop (Suc i) ws)"
proof -
  have "writers_hold ws = writers_hold (take i ws @ ws ! i # drop (Suc i) ws)" by (simp flip: id_take_nth_drop [OF assms])
  then show ?thesis by (simp add: writers_hold_def split_beta)
qed

lemma writers_hold_update:
  assumes "i < length ws" and "ws ! i = (d, w)"
  shows "writers_hold (ws[i := (d', w')]) = mset (aw_in_flight w') + writers_hold (take i ws @ drop (Suc i) ws)"
  using writers_hold_split [of i "ws[i := (d', w')]"] assms by simp

lemma writer_at:
  assumes "system_inv pend cfg n S" and "i < length (sy_writers S)" and "sy_writers S ! i = (d, w)"
  shows "writer_sync pend w" "writer_ready d (env_of S) w" "length (aw_in_flight w) \<le> dc_pipeline_depth d"
proof -
  have "(d, w) \<in> set (sy_writers S)" using assms(2,3) by (metis nth_mem)
  then show "writer_sync pend w" "writer_ready d (env_of S) w" "length (aw_in_flight w) \<le> dc_pipeline_depth d"
    using assms(1) by (auto simp: system_inv_def writers_ok_def writer_ready_def env_of_def)
qed

lemma append_total_bound:
  assumes "append_inv cfg n s" and "rc_key_count cfg + (n + 1) * append_batch cfg \<le> m"
  shows "rn_append_next_id s = rc_key_count cfg + sh_append_total (rn_shared s)" "rn_append_next_id s \<le> m"
proof -
  show e: "rn_append_next_id s = rc_key_count cfg + sh_append_total (rn_shared s)"
    using assms(1) by (simp add: append_inv_def Let_def)
  have "rn_append_batches s * append_batch cfg \<le> n * append_batch cfg" using assms(1) by (simp add: append_inv_def Let_def)
  moreover have "sh_append_total (rn_shared s) \<le> rn_append_batches s * append_batch cfg + append_batch cfg"
    using assms(1) by (auto simp: append_inv_def Let_def)
  moreover have "(n + 1) * append_batch cfg = n * append_batch cfg + append_batch cfg" by simp
  ultimately show "rn_append_next_id s \<le> m" using assms(2) e by linarith
qed

text \<open>What a writer's step must keep, for the whole system to keep its invariant.\<close>

lemma keys_step:
  assumes keys: "keys_inv cfg rs K (mset (aw_in_flight w) + F)" and tot: "rn_append_next_id rs = rc_key_count cfg + sh_append_total (rn_shared rs)"
    "sh_append_total (rn_shared rs) < U64_LIMIT"
    and e: "ae_queues e = rn_append_queues rs" "ae_shared e = rn_shared rs"
    and step: "held e w = (if ok then add_mset k (held e' w') else held e' w')"
      "ae_shared e' = (if ok then add_append_confirmed 1 (ae_shared e) else ae_shared e)"
  shows "keys_inv cfg (rs\<lparr>rn_append_queues := ae_queues e', rn_shared := ae_shared e'\<rparr>) (if ok then add_mset k K else K)
      (mset (aw_in_flight w') + F) \<and>
    (ok \<longrightarrow> sh_append_confirmed (rn_shared rs) + 1 \<le> sh_append_total (rn_shared rs) \<and> k < rn_append_next_id rs)"
proof -
  have all: "mset [rc_key_count cfg..<rn_append_next_id rs] = K + held e w + F"
    using keys e(1) unfolding keys_inv_def held_def by (simp add: add_ac del: mset_upt)
  have conf: "sh_append_confirmed (rn_shared rs) = size K" and hd: "\<forall>h. rn_append_head rs = Some h \<longrightarrow> mset [rc_key_count cfg..<h] \<subseteq># K"
    using keys unfolding keys_inv_def by blast+
  show ?thesis
  proof (cases ok)
    case False
    then show ?thesis using all conf hd step e unfolding keys_inv_def held_def by (simp add: add_ac del: mset_upt)
  next
    case True
    then have all': "mset [rc_key_count cfg..<rn_append_next_id rs] = add_mset k K + held e' w' + F"
      using all step(1) by (simp del: mset_upt)
    have "size (mset [rc_key_count cfg..<rn_append_next_id rs]) = sh_append_total (rn_shared rs)" using tot(1) by simp
    then have le: "size K + 1 \<le> sh_append_total (rn_shared rs)" unfolding all' by simp
    then have w: "wrapping_add (size K) 1 = size K + 1" using tot(2) by (intro wrapping_add_exact) linarith
    have "k \<in># mset [rc_key_count cfg..<rn_append_next_id rs]" unfolding all' by simp
    then have k: "k < rn_append_next_id rs" by simp
    have "\<forall>h. rn_append_head rs = Some h \<longrightarrow> mset [rc_key_count cfg..<h] \<subseteq># add_mset k K"
      using hd by (metis multi_psub_of_add_self subset_mset.less_imp_le subset_mset.order_trans)
    then show ?thesis using True all' conf w step(2) e(2) le k unfolding keys_inv_def held_def
      by (simp add: add_append_confirmed_def add_ac del: mset_upt)
  qed
qed

lemma system_step:
  assumes inv: "system_inv pend cfg n S" and i: "i < length (sy_writers S)" "sy_writers S ! i = (d, w)"
    and w': "ws' = (sy_writers S)[i := (d, w')] \<and> writer_sync pend w' \<and> length (aw_in_flight w') \<le> dc_pipeline_depth d \<and> router_ok (aw_router w') (length (ae_queues (env_of S))) \<or>
      ws' = take i (sy_writers S) @ drop (Suc i) (sy_writers S) \<and> aw_in_flight w' = []"
    and len: "length (ae_queues e') = length (ae_queues (env_of S))"
    and step: "held (env_of S) w = (if ok then add_mset (user_data_id ud) (held e' w') else held e' w')"
      "ae_shared e' = (if ok then add_append_confirmed 1 (ae_shared (env_of S)) else ae_shared (env_of S))"
    and room: "rc_key_count cfg + (n + 1) * append_batch cfg < U64_LIMIT"
  shows "system_inv pend cfg n (store ok ud ((put_env e' S)\<lparr>sy_writers := ws'\<rparr>))"
proof -
  let ?rs = "sy_run S" and ?rest = "take i (sy_writers S) @ drop (Suc i) (sy_writers S)"
  let ?rs' = "?rs\<lparr>rn_append_queues := ae_queues e', rn_shared := ae_shared e'\<rparr>"
  have I: "phase_inv ?rs" "append_inv cfg n ?rs" "queues_ok cfg ?rs" "writers_ok pend (length (rn_append_queues ?rs)) (sy_writers S)"
    "keys_inv cfg ?rs (sy_stored S) (writers_hold (sy_writers S))" using inv by (auto simp: system_inv_def)
  have hold: "writers_hold (sy_writers S) = mset (aw_in_flight w) + writers_hold ?rest" "writers_hold ws' = mset (aw_in_flight w') + writers_hold ?rest"
    using writers_hold_split [OF i(1)] i(2) w' writers_hold_update [OF i, of d w'] by auto
  have e: "ae_queues (env_of S) = rn_append_queues ?rs" "ae_shared (env_of S) = rn_shared ?rs" by (simp_all add: env_of_def)
  note tot = append_total_bound [OF I(2), of "U64_LIMIT - 1"]
  have "rc_key_count cfg + (n + 1) * append_batch cfg \<le> U64_LIMIT - 1" using room by linarith
  note t = tot(1) [OF this] tot(2) [OF this]
  have lim: "sh_append_total (rn_shared ?rs) < U64_LIMIT" using t by simp
  have K: "keys_inv cfg ?rs' (if ok then add_mset (user_data_id ud) (sy_stored S) else sy_stored S) (writers_hold ws')"
    "ok \<longrightarrow> sh_append_confirmed (rn_shared ?rs) + 1 \<le> sh_append_total (rn_shared ?rs)"
    using keys_step [OF I(5) [unfolded hold(1)] t(1) lim e step] hold(2) by auto
  have shared: "phase_inv (?rs\<lparr>rn_shared := ae_shared e'\<rparr>) \<and> append_inv cfg n (?rs\<lparr>rn_shared := ae_shared e'\<rparr>)"
  proof (cases ok)
    case True
    then have "op_allowed (Confirm_append 1) (rn_shared ?rs)" using K(2) by simp
    from apply_op_inv [OF I(1,2) this room] show ?thesis using True step(2) e(2) by simp
  next
    case False
    have "?rs\<lparr>rn_shared := rn_shared ?rs\<rparr> = ?rs" by simp
    then show ?thesis using False step(2) e(2) I(1,2) by simp
  qed
  have "writers_ok pend (length (rn_append_queues ?rs)) ws'"
  proof (cases "ws' = (sy_writers S)[i := (d, w')] \<and> writer_sync pend w' \<and> length (aw_in_flight w') \<le> dc_pipeline_depth d \<and> router_ok (aw_router w') (length (ae_queues (env_of S)))")
    case True
    have "writer_ready d (env_of S) w" by (rule writer_at(2) [OF inv i])
    then have "writer_sync pend w' \<and> length (aw_in_flight w') \<le> dc_pipeline_depth d \<and> dc_endpoint_idx d < length (rn_append_queues ?rs) \<and> length (rn_append_queues ?rs) = max (dc_num_endpoints d) 1 \<and>
        router_ok (aw_router w') (length (rn_append_queues ?rs))"
      using True e(1) by (simp add: writer_ready_def)
    then show ?thesis using True I(4) unfolding writers_ok_def by (auto dest!: set_update_subset_insert [THEN subsetD])
  next
    case False
    then have "set ws' \<subseteq> set (sy_writers S)" using w' by (auto dest: in_set_takeD in_set_dropD)
    then show ?thesis using I(4) unfolding writers_ok_def by blast
  qed
  moreover have "queues_ok cfg ?rs'" using I(3) len e(1) by (simp add: queues_ok_def)
  moreover have "phase_inv ?rs' \<and> append_inv cfg n ?rs'" using shared by (simp add: phase_inv_def append_inv_def Let_def)
  ultimately show ?thesis using K(1) len e(1) by (cases ok) (simp_all add: system_inv_def store_def put_env_def)
qed

lemma append_tag_bits: "bit (append_tag k) 61"
  by (simp add: bit_or_iff bit_markers)

lemma append_tag_id: "k < 2 ^ 61 \<Longrightarrow> user_data_id (append_tag k) = k"
  by (rule user_data_id_marked) (simp_all add: bit_markers)

lemma append_reply_maps:
  "rm_kind meta = Kind_set \<Longrightarrow> rm_user_data meta = append_tag k \<Longrightarrow>
     rq_append (map_respmeta meta) \<and> rq_success (map_respmeta meta) = rm_success meta"
  "rq_append (map_memcache_op (Mc_set res (append_tag k) lat)) \<and> rq_success (map_memcache_op (Mc_set res (append_tag k) lat)) = is_ok res"
  using append_tag_bits [of k]
  by (simp_all add: map_respmeta_def map_memcache_op_def set_markers_bits Let_def is_ok_def split: sum.splits)

lemma redirect_router:
  assumes "check_resp_redirect_parsed endpoint_of rd (rt_slot_table R) m = Some (tbl, m')" and ok: "router_ok R n"
    and known: "\<And>a i. endpoint_of a = Some i \<Longrightarrow> i < n"
  shows "router_ok (R\<lparr>rt_slot_table := tbl\<rparr>) n"
proof -
  consider "tbl = rt_slot_table R" | table idx where "rt_slot_table R = Some table" "endpoint_of (rd_address rd) = Some idx"
      "rd_slot rd < length table" "tbl = Some (table[rd_slot rd := idx mod 65536])"
    using assms(1) by (auto simp: check_resp_redirect_parsed_def Let_def split: if_splits option.splits)
  then show ?thesis
  proof cases
    case 1
    have "R\<lparr>rt_slot_table := rt_slot_table R\<rparr> = R" by simp
    then show ?thesis using 1 ok by simp
  next
    case (2 table idx)
    have "idx mod 65536 < n" using known [OF 2(2)] by (meson le_less_trans mod_less_eq_dividend)
    then show ?thesis using 2 ok
      by (auto simp: router_ok_def route_partition_def Let_def nth_list_update split: if_splits)
  qed
qed

lemma timer_loop_keeps:
  "timer_loop T ts f = Some (f', p) \<Longrightarrow>
     if_fired f' = if_fired f \<and> if_queued f' = if_queued f \<and> if_track_queued f' = if_track_queued f"
proof (induction T ts f arbitrary: f' p rule: timer_loop.induct)
  case (2 T t1 t2 t3 ts f)
  have arm: "if_fired (fst (arm T t g a)) = if_fired g \<and> if_queued (fst (arm T t g a)) = if_queued g \<and>
      if_track_queued (fst (arm T t g a)) = if_track_queued g" for t g a
    by (simp add: arm_def split: option.splits)
  show ?case
  proof (cases "if_timer f")
    case None
    then show ?thesis using 2(2) by simp
  next
    case (Some t)
    show ?thesis
    proof (cases "tm_ready T t1 t")
      case True
      show ?thesis
      proof (cases "remaining (f\<lparr>if_timer := None\<rparr>) t2")
        case None
        then show ?thesis using 2(2) Some True by auto
      next
        case (Some left)
        show ?thesis
        proof (cases "left = 0")
          case True
          then show ?thesis using 2(2) Some \<open>if_timer f = _\<close> \<open>tm_ready T t1 t\<close> by auto
        next
          case False
          then have "timer_loop T ts (fst (arm T t3 (f\<lparr>if_timer := None\<rparr>) left)) = Some (f', p)"
            using 2(2) Some \<open>if_timer f = _\<close> \<open>tm_ready T t1 t\<close> by simp
          from 2(1) [OF \<open>if_timer f = _\<close> _ refl Some False this] \<open>tm_ready T t1 t\<close> show ?thesis by (simp add: arm)
        qed
      qed
    qed (use 2(2) Some in auto)
  qed
qed simp

lemma recv_keeps_sync:
  assumes "writer_sync pend w" and "recv_begin T t\<^sub>1 t\<^sub>2 (aw_inflight w) = (f, b) \<or> recv_poll T ts None (aw_inflight w) = Some (f, p)"
  shows "writer_sync pend (w\<lparr>aw_inflight := f\<rparr>)"
proof -
  have "if_fired f = if_fired (aw_inflight w) \<and> if_queued f = if_queued (aw_inflight w) \<and> if_track_queued f = if_track_queued (aw_inflight w)"
    using assms(2)
  proof
    assume "recv_begin T t\<^sub>1 t\<^sub>2 (aw_inflight w) = (f, b)"
    then show ?thesis by (auto simp: recv_begin_def arm_def split: option.splits prod.splits bool.splits)
  next
    assume "recv_poll T ts None (aw_inflight w) = Some (f, p)"
    then show ?thesis using timer_loop_keeps [of T ts "aw_inflight w" f p] by (simp add: recv_poll_def)
  qed
  then show ?thesis using assms(1) by (simp add: writer_sync_def inflight_inv_def)
qed

lemma resp_append_reply_ok:
  assumes "writer_sync pend w" "writer_ready d e w" "aw_in_flight w = k # ks" "pend (aw_client w) = append_tag k # pend c"
    and meta: "rm_kind meta = Kind_set" "rm_user_data meta = append_tag k"
    and known: "\<And>a i. endpoint_of a = Some i \<Longrightarrow> i < length (ae_queues e)"
    and r: "resp_append_reply endpoint_of d c meta e w = Some (e', w')"
  shows "writer_sync pend w' \<and> router_ok (aw_router w') (length (ae_queues e)) \<and> length (ae_queues e') = length (ae_queues e) \<and>
    aw_in_flight w' = ks \<and>
    held e w = (if rm_success meta then add_mset k (held e' w') else held e' w') \<and>
    ae_shared e' = (if rm_success meta then add_append_confirmed 1 (ae_shared e) else ae_shared e)"
proof -
  have c: "pend c = tl (pend (aw_client w))" using assms(4) by simp
  have R: "rq_append (map_respmeta meta)" "rq_success (map_respmeta meta) = rm_success meta"
    using append_reply_maps(1) [OF meta] by simp_all
  obtain e1 w1 where n: "append_note_reply d c (map_respmeta meta) e w = Some (e1, w1)" "writer_sync pend w1" "writer_ready d e1 w1"
    "length (ae_queues e1) = length (ae_queues e)" "aw_router w1 = aw_router w" "aw_in_flight w1 = ks"
    "held e w = (if rm_success meta then add_mset k (held e1 w1) else held e1 w1)"
    "ae_shared e1 = (if rm_success meta then add_append_confirmed 1 (ae_shared e) else ae_shared e)"
    using append_note_reply_ok [OF assms(1-3) c R(1)] R(2) by auto
  have ok1: "router_ok (aw_router w1) (length (ae_queues e))" using n(3,4) unfolding writer_ready_def by metis
  show ?thesis
  proof (cases "rq_redirect (map_respmeta meta)")
    case None
    then show ?thesis using r n ok1 by (simp add: resp_append_reply_def)
  next
    case (Some rd)
    then obtain tbl m where red: "check_resp_redirect_parsed endpoint_of rd (rt_slot_table (aw_router w1)) (aw_metrics w1) = Some (tbl, m)"
      "e' = e1" "w' = w1\<lparr>aw_router := (aw_router w1)\<lparr>rt_slot_table := tbl\<rparr>, aw_metrics := m\<rparr>"
      using r n(1) by (auto simp: resp_append_reply_def)
    then show ?thesis using n redirect_router [OF red(1) ok1 known] by (simp add: writer_sync_def held_def)
  qed
qed

lemma append_room_le:
  assumes "k + (n + 1 + 1) * b \<le> (m :: nat)" shows "k + (n + 1) * b \<le> m"
  using assms by (simp add: algebra_simps)

lemma system_key_bound:
  assumes "system_inv pend cfg n S" and "i < length (sy_writers S)" "sy_writers S ! i = (d, w)"
    and "k \<in># held (env_of S) w" and "rc_key_count cfg + (n + 1) * append_batch cfg \<le> m"
  shows "k < m"
proof -
  have inv: "append_inv cfg n (sy_run S)" "keys_inv cfg (sy_run S) (sy_stored S) (writers_hold (sy_writers S))"
    using assms(1) by (auto simp: system_inv_def)
  have "k \<in># mset [rc_key_count cfg..<rn_append_next_id (sy_run S)]"
    using inv(2) assms(4) writers_hold_split [OF assms(2)] assms(3) unfolding keys_inv_def
    by (auto simp: held_def env_of_def simp del: mset_upt)
  then show ?thesis using append_total_bound(2) [OF inv(1) assms(5)] by simp
qed

lemma append_reach_inv:
  assumes laws: "client_laws C pend unf" and known: "\<And>a i. endpoint_of a = Some i \<Longrightarrow> i < max (rc_endpoints cfg) 1"
    and reach: "append_reach L H C pend G T endpoint_of cfg n S"
  shows "rc_key_count cfg + (n + 1) * append_batch cfg \<le> 2 ^ 61 \<Longrightarrow> n \<le> U64_MAX \<Longrightarrow> system_inv pend cfg n S"
  using reach
proof (induction rule: append_reach.induct)
  case (append_start S)
  then have "append_inv cfg 0 (sy_run S)" "phase_inv (sy_run S)"
    by (auto simp: run_start_def append_inv_def phase_inv_def Let_def)
  then show ?case using append_start
    by (auto simp: system_inv_def writers_ok_def keys_inv_def writers_hold_def run_start_def)
next
  case (append_connect n S w timeout d)
  then have inv: "system_inv pend cfg n S" by simp
  have "writer_sync pend w" using append_connect.hyps by (simp add: writer_sync_def inflight_new_def inflight_inv_def)
  then show ?case using inv append_connect.hyps
    by (auto simp: system_inv_def writers_ok_def writers_hold_def writer_ready_def env_of_def)
next
  case (append_work n S op)
  then have inv: "system_inv pend cfg n S" and room: "rc_key_count cfg + (n + 1) * append_batch cfg < U64_LIMIT" by simp_all
  let ?s' = "(sy_run S)\<lparr>rn_shared := apply_op op (rn_shared (sy_run S))\<rparr>"
  have "op_allowed op (rn_shared (sy_run S))" using append_work.hyps(2) by (cases op) auto
  moreover have "phase_inv (sy_run S)" "append_inv cfg n (sy_run S)" using inv by (simp_all add: system_inv_def)
  ultimately have "phase_inv ?s' \<and> append_inv cfg n ?s'" using apply_op_inv [OF _ _ _ room] by blast
  moreover have "sh_append_confirmed (apply_op op (rn_shared (sy_run S))) = sh_append_confirmed (rn_shared (sy_run S))"
    using append_work.hyps(2)
    by (cases op) (auto simp: mark_worker_started_def mark_precheck_complete_def mark_prefill_complete_def add_prefill_confirmed_def add_prefill_total_def)
  ultimately show ?case using inv by (auto simp: system_inv_def keys_inv_def queues_ok_def)
next
  case (append_pass n S tk rs)
  have small: "rc_key_count cfg + (n + 1) * append_batch cfg \<le> 2 ^ 61" "n < U64_MAX"
    using append_pass.prems append_room_le [of "rc_key_count cfg" n] by auto
  then have inv: "system_inv pend cfg n S" using append_pass.IH by simp
  then have I: "phase_inv (sy_run S)" "append_inv cfg n (sy_run S)" "queues_ok cfg (sy_run S)"
    "keys_inv cfg (sy_run S) (sy_stored S) (writers_hold (sy_writers S))" by (auto simp: system_inv_def)
  have room: "rc_key_count cfg + (n + 2) * append_batch cfg < U64_LIMIT"
    using append_pass.prems(1) by (simp add: algebra_simps)
  have "rn_append_next_id (sy_run S) \<le> rc_key_count cfg + (n + 1) * append_batch cfg"
    by (rule append_total_bound(2) [OF I(2) order_refl])
  then have next_room: "rn_append_next_id (sy_run S) + append_batch cfg < U64_LIMIT" using room by (simp add: algebra_simps)
  have "phase_inv rs \<and> append_inv cfg (Suc n) rs" using runner_tick_inv [OF I(1,2) append_pass.hyps(2) room small(2)] by simp
  then show ?case using runner_tick_keys [OF I(1-4) append_pass.hyps(2) next_room] inv by (simp add: system_inv_def)
next
  case (append_turn n S i d w now t e' w' a)
  then have inv: "system_inv pend cfg n S" and room: "rc_key_count cfg + (n + 1) * append_batch cfg < U64_LIMIT" by simp_all
  note at = writer_at [OF inv append_turn.hyps(2,3)]
  have k: "writer_kept pend (held (env_of S) w) (env_of S, w) (e', w')" "length (aw_in_flight w') \<le> dc_pipeline_depth d"
    using at(3) append_iteration_ok [OF laws at(1,2), of L G now t] append_turn.hyps(4) by auto
  then have st: "writer_sync pend w'" "router_ok (aw_router w') (length (ae_queues (env_of S)))"
    "length (ae_queues e') = length (ae_queues (env_of S))" "held (env_of S) w = held e' w'" "ae_shared e' = ae_shared (env_of S)"
    using at(2) k(1) unfolding writer_kept_def writer_ready_def by auto
  show ?case
    using system_step [OF inv append_turn.hyps(2,3), where w' = w' and e' = e' and ok = False and ws' = "(sy_writers S)[i := (d, w')]"] st k(2) room
    by (simp add: store_def put_writer_def put_env_def)
next
  case (append_wait n S i d w t1 t2 f b ts p)
  then have inv: "system_inv pend cfg n S" and room: "rc_key_count cfg + (n + 1) * append_batch cfg < U64_LIMIT" by simp_all
  note at = writer_at [OF inv append_wait.hyps(2,3)]
  have "writer_sync pend (w\<lparr>aw_inflight := f\<rparr>)" by (rule recv_keeps_sync [OF at(1) append_wait.hyps(4)])
  then have "system_inv pend cfg n ((put_env (env_of S) S)\<lparr>sy_writers := (sy_writers S)[i := (d, w\<lparr>aw_inflight := f\<rparr>)]\<rparr>)"
    using system_step [OF inv append_wait.hyps(2,3), where w' = "w\<lparr>aw_inflight := f\<rparr>" and e' = "env_of S" and ok = False
        and ws' = "(sy_writers S)[i := (d, w\<lparr>aw_inflight := f\<rparr>)]"] room writer_router [OF at(2)] at(3)
    by (simp add: store_def held_def)
  then show ?case by (simp add: put_writer_def put_env_def env_of_def)
next
  case (append_resp n S i d w ud c meta e' w')
  then have inv: "system_inv pend cfg n S" and room: "rc_key_count cfg + (n + 1) * append_batch cfg < U64_LIMIT" by simp_all
  note at = writer_at [OF inv append_resp.hyps(2,3)]
  obtain k ks where k: "aw_in_flight w = k # ks" "ud = append_tag k"
    using at(1) append_resp.hyps(5) by (auto simp: writer_sync_def)
  have len: "length (ae_queues (env_of S)) = max (rc_endpoints cfg) 1" using inv by (simp add: system_inv_def queues_ok_def env_of_def)
  have st: "writer_sync pend w' \<and> router_ok (aw_router w') (length (ae_queues (env_of S))) \<and> length (ae_queues e') = length (ae_queues (env_of S)) \<and>
    aw_in_flight w' = ks \<and>
    held (env_of S) w = (if rm_success meta then add_mset k (held e' w') else held e' w') \<and>
    ae_shared e' = (if rm_success meta then add_append_confirmed 1 (ae_shared (env_of S)) else ae_shared (env_of S))"
    using resp_append_reply_ok [OF at(1,2) k(1) _ append_resp.hyps(6) _ _ append_resp.hyps(8)] append_resp.hyps(5,7) k(2) known len by auto
  have "k \<in># held (env_of S) w" using k(1) by (simp add: held_def)
  then have "k < 2 ^ 61" using system_key_bound [OF inv append_resp.hyps(2,3)] append_resp.prems(1) by blast
  then have "user_data_id ud = k" using append_tag_id k(2) by simp
  moreover have "length ks \<le> dc_pipeline_depth d" using at(3) k(1) by simp
  ultimately show ?case using st system_step [OF inv append_resp.hyps(2,3), where w' = w' and e' = e' and ok = "rm_success meta" and ud = ud and ws' = "(sy_writers S)[i := (d, w')]"] room
    by (simp add: put_writer_def put_env_def store_def)
next
  case (append_mc n S i d w ud c res lat e' w')
  then have inv: "system_inv pend cfg n S" and room: "rc_key_count cfg + (n + 1) * append_batch cfg < U64_LIMIT" by simp_all
  note at = writer_at [OF inv append_mc.hyps(2,3)]
  obtain k ks where k: "aw_in_flight w = k # ks" "ud = append_tag k"
    using at(1) append_mc.hyps(5) by (auto simp: writer_sync_def)
  have c: "pend c = tl (pend (aw_client w))" using append_mc.hyps(5) by simp
  note R = append_reply_maps(2) [of res k lat]
  have st: "writer_sync pend w' \<and> router_ok (aw_router w') (length (ae_queues (env_of S))) \<and> length (ae_queues e') = length (ae_queues (env_of S)) \<and>
    aw_in_flight w' = ks \<and>
    held (env_of S) w = (if is_ok res then add_mset k (held e' w') else held e' w') \<and>
    ae_shared e' = (if is_ok res then add_append_confirmed 1 (ae_shared (env_of S)) else ae_shared (env_of S))"
    using append_note_reply_ok [OF at(1,2) k(1) c R [THEN conjunct1]] R append_mc.hyps(6) writer_router [of d e' w'] k(2)
    by (auto simp: mc_append_reply_def)
  have "k \<in># held (env_of S) w" using k(1) by (simp add: held_def)
  then have "k < 2 ^ 61" using system_key_bound [OF inv append_mc.hyps(2,3)] append_mc.prems(1) by blast
  then have "user_data_id ud = k" using append_tag_id k(2) by simp
  moreover have "length ks \<le> dc_pipeline_depth d" using at(3) k(1) by simp
  ultimately show ?case using st system_step [OF inv append_mc.hyps(2,3), where w' = w' and e' = e' and ok = "is_ok res" and ud = ud and ws' = "(sy_writers S)[i := (d, w')]"] room
    by (simp add: put_writer_def put_env_def store_def)
next
  case (append_gone n S i d w e' w')
  then have inv: "system_inv pend cfg n S" and room: "rc_key_count cfg + (n + 1) * append_batch cfg < U64_LIMIT" by simp_all
  note at = writer_at [OF inv append_gone.hyps(2,3)]
  obtain q where q: "e' = (env_of S)\<lparr>ae_queues := q\<rparr>" "w' = w\<lparr>aw_in_flight := []\<rparr>" "mset (concat q) = held (env_of S) w"
    "length q = length (ae_queues (env_of S))"
    using append_disconnect_ok [OF at(2)] append_gone.hyps(4) by auto
  then show ?case using system_step [OF inv append_gone.hyps(2,3), where w' = w' and e' = e' and ok = False
        and ws' = "take i (sy_writers S) @ drop (Suc i) (sy_writers S)"] room
    by (simp add: store_def held_def)
next
  case (append_moved n S i d w R)
  then have inv: "system_inv pend cfg n S" and room: "rc_key_count cfg + (n + 1) * append_batch cfg < U64_LIMIT" by simp_all
  note at = writer_at [OF inv append_moved.hyps(2,3)]
  have "router_ok R (length (ae_queues (env_of S)))" using append_moved.hyps(4) at(2) unfolding writer_ready_def by metis
  then have "system_inv pend cfg n ((put_env (env_of S) S)\<lparr>sy_writers := (sy_writers S)[i := (d, w\<lparr>aw_router := R\<rparr>)]\<rparr>)"
    using system_step [OF inv append_moved.hyps(2,3), where w' = "w\<lparr>aw_router := R\<rparr>" and e' = "env_of S" and ok = False
        and ws' = "(sy_writers S)[i := (d, w\<lparr>aw_router := R\<rparr>)]"] room at(1,3)
    by (simp add: store_def held_def writer_sync_def)
  then show ?case by (simp add: put_writer_def put_env_def env_of_def)
qed

section \<open>What the readers draw is stored\<close>

text \<open>
  C2. Readers of a run with an append stream never draw a key that is not stored. Whatever the order in which the
  main thread passes, the writers fire, fail, are answered, time out, lose their connection and
  reconnect, and keys change owner: every id from the prefilled keys up to the published head has
  been acknowledged by a server; every id the main thread has handed out is in exactly one place, acknowledged, in
  a queue or in flight on one writer; and the count the main thread compares with is the number
  of acknowledged ones.
\<close>

theorem append_head_stored:
  assumes laws: "client_laws C pend unf" and known: "\<And>a i. endpoint_of a = Some i \<Longrightarrow> i < max (rc_endpoints cfg) 1"
    and reach: "append_reach L H C pend G T endpoint_of cfg n S"
    and room: "rc_key_count cfg + (n + 1) * append_batch cfg \<le> 2 ^ 61" "n \<le> U64_MAX"
  shows "(\<forall>h. rn_append_head (sy_run S) = Some h \<longrightarrow> (\<forall>k\<in>{rc_key_count cfg..<h}. k \<in># sy_stored S)) \<and>
    mset [rc_key_count cfg..<rn_append_next_id (sy_run S)] =
      sy_stored S + mset (concat (rn_append_queues (sy_run S))) + writers_hold (sy_writers S) \<and>
    sh_append_confirmed (rn_shared (sy_run S)) = size (sy_stored S)"
proof -
  have keys: "keys_inv cfg (sy_run S) (sy_stored S) (writers_hold (sy_writers S))"
    using append_reach_inv [OF laws known reach room] by (simp add: system_inv_def)
  have "k \<in># sy_stored S" if "rn_append_head (sy_run S) = Some h" "k \<in> {rc_key_count cfg..<h}" for h k
  proof -
    have "mset [rc_key_count cfg..<h] \<subseteq># sy_stored S" using keys that(1) unfolding keys_inv_def by blast
    moreover have "k \<in># mset [rc_key_count cfg..<h]" using that(2) by simp
    ultimately show ?thesis by (rule mset_subset_eqD)
  qed
  then show ?thesis using keys unfolding keys_inv_def by blast
qed

text \<open>
  C10. The writers' state stays well formed, and from a well-formed state no operation gets stuck. In every
  reachable state each writer's keys in flight are its client's pending requests, in order and within its
  pipeline depth, and its endpoint has a queue. From there an iteration ends, with no panic, in the
  same kind of state: it waits for a reply exactly when a key is in flight, and otherwise returns, sleeps or gives up
  holding no key; giving up the connection never panics; and neither does the handling of a reply
  to the oldest request, if the slot of a redirect is in the table.
\<close>

theorem append_writers_go_on:
  assumes laws: "client_laws C pend unf" and known: "\<And>a i. endpoint_of a = Some i \<Longrightarrow> i < max (rc_endpoints cfg) 1"
    and reach: "append_reach L H C pend G T endpoint_of cfg n S"
    and room: "rc_key_count cfg + (n + 1) * append_batch cfg \<le> 2 ^ 61" "n \<le> U64_MAX"
    and i: "i < length (sy_writers S)" "sy_writers S ! i = (d, w)"
  shows "(writer_sync pend w \<and> length (aw_in_flight w) \<le> dc_pipeline_depth d \<and> dc_endpoint_idx d < length (rn_append_queues (sy_run S))) \<and>
    (\<exists>e' w' a. append_iteration L C G d now t (env_of S) w = Some (e', w', a) \<and> writer_sync pend w' \<and>
       length (aw_in_flight w') \<le> dc_pipeline_depth d \<and>
       (a = Recv_reply \<longrightarrow> aw_in_flight w' \<noteq> []) \<and> (a \<noteq> Recv_reply \<longrightarrow> a = Return_ok \<or> aw_in_flight w' = [])) \<and>
    append_disconnect d (env_of S) w \<noteq> None \<and>
    (\<forall>ud c meta. pend (aw_client w) = ud # pend c \<longrightarrow> rm_kind meta = Kind_set \<longrightarrow> rm_user_data meta = ud \<longrightarrow>
       (\<forall>rd table. rq_redirect (map_respmeta meta) = Some rd \<longrightarrow> rt_slot_table (aw_router w) = Some table \<longrightarrow> rd_slot rd < length table) \<longrightarrow>
       resp_append_reply endpoint_of d c meta (env_of S) w \<noteq> None) \<and>
    (\<forall>ud c res lat. pend (aw_client w) = ud # pend c \<longrightarrow> mc_append_reply d c (Mc_set res ud lat) (env_of S) w \<noteq> None)"
proof -
  have inv: "system_inv pend cfg n S" by (rule append_reach_inv [OF laws known reach room])
  note at = writer_at [OF inv i]
  have ep: "dc_endpoint_idx d < length (rn_append_queues (sy_run S))" using at(2) by (simp add: writer_ready_def env_of_def)
  have turn: "\<exists>e' w' a. append_iteration L C G d now t (env_of S) w = Some (e', w', a) \<and> writer_sync pend w' \<and>
       length (aw_in_flight w') \<le> dc_pipeline_depth d \<and>
       (a = Recv_reply \<longrightarrow> aw_in_flight w' \<noteq> []) \<and> (a \<noteq> Recv_reply \<longrightarrow> a = Return_ok \<or> aw_in_flight w' = [])"
    using append_iteration_ok [OF laws at(1,2), of L G now t] at(3) writer_keptD by (metis max.absorb1)
  have gone: "append_disconnect d (env_of S) w \<noteq> None" using append_disconnect_ok [OF at(2)] by auto
  have note_reply: "\<exists>e' w'. append_note_reply d c r (env_of S) w = Some (e', w') \<and> aw_router w' = aw_router w"
    if p: "pend (aw_client w) = ud # pend c" and app: "\<And>k. ud = append_tag k \<Longrightarrow> rq_append r" for ud c r
  proof -
    obtain k ks where k: "aw_in_flight w = k # ks" "ud = append_tag k" using at(1) p by (auto simp: writer_sync_def)
    have "pend c = tl (pend (aw_client w))" using p by simp
    from append_note_reply_ok [OF at(1,2) k(1) this app [OF k(2)]] show ?thesis by blast
  qed
  have resp: "resp_append_reply endpoint_of d c meta (env_of S) w \<noteq> None"
    if p: "pend (aw_client w) = ud # pend c" and meta: "rm_kind meta = Kind_set" "rm_user_data meta = ud"
      and slots: "\<forall>rd table. rq_redirect (map_respmeta meta) = Some rd \<longrightarrow> rt_slot_table (aw_router w) = Some table \<longrightarrow> rd_slot rd < length table"
    for ud c meta
  proof -
    obtain e' w' where n: "append_note_reply d c (map_respmeta meta) (env_of S) w = Some (e', w')" "aw_router w' = aw_router w"
      using note_reply [OF p, of "map_respmeta meta"] append_reply_maps(1) [OF meta(1)] meta(2) by blast
    have "check_resp_redirect_parsed endpoint_of rd (rt_slot_table (aw_router w)) m \<noteq> None"
      if "rq_redirect (map_respmeta meta) = Some rd" for rd m
      using that slots by (auto simp: check_resp_redirect_parsed_def Let_def split: option.splits)
    then show ?thesis using n by (auto simp: resp_append_reply_def Let_def split: option.split)
  qed
  have mc_reply: "mc_append_reply d c (Mc_set res ud lat) (env_of S) w \<noteq> None" if "pend (aw_client w) = ud # pend c" for ud c res lat
    using note_reply [OF that, of "map_memcache_op (Mc_set res ud lat)"] append_reply_maps(2) by (auto simp: mc_append_reply_def)
  show ?thesis using at(1,3) ep turn gone resp mc_reply by blast
qed

text \<open>A batch of one key, from its queue to the head: the run of the witness below.\<close>

definition demo_append_config :: run_config where
  "demo_append_config = demo_run_config\<lparr>rc_append := Some \<lparr>ap_batch = 1, ap_every = 3, ap_pace = Burst, ap_connections = 1, ap_pipeline_depth = 8\<rparr>\<rparr>"

definition demo_writer :: "(queue_client, nat, nat) append_writer" where
  "demo_writer = \<lparr>aw_client = \<lparr>qc_pending = [], qc_buffered = 0\<rparr>, aw_rng = 0, aw_in_flight = [], aw_inflight = inflight_new 1000,
     aw_router = \<lparr>rt_slot_table = None, rt_hash_slot = (\<lambda>_. 0), rt_ring = (\<lambda>_. 0)\<rparr>,
     aw_flight = \<lparr>fc_send_failed = 0, fc_timeouts = 0, fc_errors = 0\<rparr>,
     aw_metrics = \<lparr>m_responses = 0, m_errors = 0, m_hits = 0, m_misses = 0, m_gets = 0, m_sets = 0, m_deletes = 0, m_redirects = 0\<rparr>\<rparr>"

definition demo_mc_config :: drive_config where "demo_mc_config = demo_drive_config\<lparr>dc_memcache := True\<rparr>"

lemma demo_is_mc: "dc_memcache demo_mc_config" by (simp add: demo_mc_config_def)

definition demo_system :: "(queue_client, bucket, nat, nat, nat) append_system" where
  "demo_system = \<lparr>sy_run = demo_run, sy_limiter = None, sy_set_count = 0, sy_set_errors = 0, sy_writers = [], sy_stored = {#}\<rparr>"

abbreviation demo_append_reach :: "nat \<Rightarrow> (queue_client, bucket, nat, nat, nat) append_system \<Rightarrow> bool" where
  "demo_append_reach \<equiv> append_reach bucket_api demo_histogram queue_client_api qc_pending demo_sampling clock_timers (\<lambda>_. None) demo_append_config"

lemma demo_append_start: "demo_append_reach 0 (demo_system\<lparr>sy_writers := [(demo_mc_config, demo_writer)]\<rparr>)"
proof -
  have "demo_append_reach 0 demo_system"
    by (rule append_start)
      (simp_all add: demo_system_def demo_append_config_def demo_run_def run_start_def demo_run_config_def queues_ok_def router_ok_def
        route_partition_def shared_new_def set_phase_def shared_phase_def phase_from_u8_def)
  from append_connect [OF this, of demo_writer 1000 demo_mc_config] show ?thesis
    by (simp add: demo_system_def demo_writer_def writer_ready_def demo_mc_config_def demo_drive_config_def env_of_def demo_run_def router_ok_def route_partition_def)
qed

lemmas demo_append_defs = demo_append_config_def demo_run_config_def demo_run_def demo_tick_def

text \<open>Warmup begins, a batch of one key is queued, and once it is stored the head is moved past it.\<close>

lemma demo_append_passes:
  fixes s0 :: "(bucket, nat) run_state"
  assumes s0: "s0 = demo_run\<lparr>rn_shared := mark_precheck_complete (rn_shared demo_run)\<rparr>"
  obtains s1 s2 where
    "runner_tick bucket_api demo_histogram demo_append_config (demo_tick 100) s0 = Some (s1, None)"
    "runner_tick bucket_api demo_histogram demo_append_config (demo_tick 104) s1 = Some (s2, None)"
    "shared_phase (rn_shared s2) = Warmup" "rn_append_queues s2 = [[100]]"
    "\<forall>q. \<exists>s3. runner_tick bucket_api demo_histogram demo_append_config (demo_tick 104)
        (s2\<lparr>rn_append_queues := q, rn_shared := add_append_confirmed 1 (rn_shared s2)\<rparr>) = Some (s3, None) \<and> rn_append_head s3 = Some 101"
proof -
  define s1 where "s1 = s0\<lparr>rn_shared := set_phase Warmup (rn_shared s0), rn_phase := Warmup, rn_warmup_start := Some 100\<rparr>"
  define s2 where "s2 = s1\<lparr>rn_append_next_at := Some 106, rn_append_queues := [[100]], rn_shared := add_append_total 1 (rn_shared s1),
      rn_append_next_id := 101, rn_append_batch_open := True\<rparr>"
  have 1: "runner_tick bucket_api demo_histogram demo_append_config (demo_tick 100) s0 = Some (s1, None)"
    by (simp add: s0 s1_def runner_tick_def precheck_tick_def demo_append_defs begin_warmup_def mark_precheck_complete_def
        wrapping_add_def set_phase_def shared_new_def Let_def)
  have 2: "runner_tick bucket_api demo_histogram demo_append_config (demo_tick 104) s1 = Some (s2, None)"
    by (simp add: s0 s1_def s2_def runner_tick_def measured_tick_def run_done_def append_tick_def report_tick_def demo_append_defs
        enqueue_append_batch_def route_partition_def pq_push_back_def wrapping_add_def Let_def)
  have 3: "shared_phase (rn_shared s2) = Warmup" "rn_append_queues s2 = [[100]]"
    by (simp_all add: s1_def s2_def shared_phase_def set_phase_def add_append_total_def phase_from_u8_def)
  have 4: "\<exists>s3. runner_tick bucket_api demo_histogram demo_append_config (demo_tick 104)
        (s2\<lparr>rn_append_queues := q, rn_shared := add_append_confirmed 1 (rn_shared s2)\<rparr>) = Some (s3, None) \<and> rn_append_head s3 = Some 101" for q
    by (simp add: s0 s1_def s2_def runner_tick_def measured_tick_def run_done_def append_tick_def report_tick_def demo_append_defs
        wrapping_add_def add_append_total_def add_append_confirmed_def set_phase_def mark_precheck_complete_def shared_new_def Let_def)
  show thesis by (rule that [OF 1 2 3]) (use 4 in blast)
qed

lemma demo_append_iteration:
  assumes e: "ae_queues e = [[100]]" "shared_phase (ae_shared e) = Warmup" "ae_limiter e = None"
  obtains w where "append_iteration bucket_api queue_client_api demo_sampling demo_mc_config 0 0 e demo_writer =
      Some (e\<lparr>ae_queues := [[]]\<rparr>, w, Recv_reply)"
    "qc_pending (aw_client w) = [append_tag 100]" "aw_in_flight w = [100]"
proof -
  define w where "w = demo_writer\<lparr>aw_rng := 1, aw_client := \<lparr>qc_pending = [append_tag 100], qc_buffered = 0\<rparr>, aw_in_flight := [100],
      aw_inflight := inflight_push (aw_inflight demo_writer) 0\<rparr>"
  have lim: "e\<lparr>ae_limiter := None\<rparr> = e" using e(3) by simp
  have one: "append_body queue_client_api demo_sampling demo_mc_config 0 8 e demo_writer =
      Some (7, e\<lparr>ae_queues := [[]]\<rparr>, w\<lparr>aw_client := \<lparr>qc_pending = [append_tag 100], qc_buffered = 1\<rparr>\<rparr>, True)"
    using e by (simp add: append_body_def append_send_def set_command_def value_offset_def demo_sampling_def demo_mc_config_def demo_drive_config_def
        pq_pop_front_def queue_client_api_def demo_writer_def w_def)
  have none: "append_body queue_client_api demo_sampling demo_mc_config 0 7 (e\<lparr>ae_queues := [[]]\<rparr>) v = Some (7, e\<lparr>ae_queues := [[]]\<rparr>, v, False)" for v
    by (simp add: append_body_def demo_mc_config_def demo_drive_config_def pq_pop_front_def)
  have C: "cl_pending_count queue_client_api c = length (qc_pending c)" "cl_is_alive queue_client_api c"
    "cl_flush queue_client_api c = (True, c\<lparr>qc_buffered := 0\<rparr>)" for c
    by (simp_all add: queue_client_api_def)
  have D: "dc_pipeline_depth demo_mc_config = 8" "dc_endpoint_idx demo_mc_config = 0" by (simp_all add: demo_mc_config_def demo_drive_config_def)
  have W: "qc_pending (aw_client demo_writer) = []" "qc_pending (aw_client w) = [append_tag 100]" by (simp_all add: demo_writer_def w_def)
  have fill: "append_fill bucket_api queue_client_api demo_sampling demo_mc_config 0 0 e demo_writer =
      Some (e\<lparr>ae_queues := [[]]\<rparr>, w\<lparr>aw_client := \<lparr>qc_pending = [append_tag 100], qc_buffered = 1\<rparr>\<rparr>)"
    using e by (simp add: append_fill_def append_token_budget_def pq_is_empty_def C D W lim one none)
  have "append_iteration bucket_api queue_client_api demo_sampling demo_mc_config 0 0 e demo_writer = Some (e\<lparr>ae_queues := [[]]\<rparr>, w, Recv_reply)"
    using e(2) by (simp add: append_iteration_def fill append_flush_def should_stop_def C W) (simp add: w_def)
  then show thesis by (rule that) (simp_all add: w_def)
qed

lemma demo_append_run:
  obtains S w where "demo_append_reach 2 S" "sy_writers S = [(demo_mc_config, w)]" "qc_pending (aw_client w) = [append_tag 100]"
    "\<exists>S'. demo_append_reach 3 S' \<and> rn_append_head (sy_run S') = Some 101"
proof -
  let ?S = "demo_system\<lparr>sy_writers := [(demo_mc_config, demo_writer)]\<rparr>"
  define s0 where "s0 = demo_run\<lparr>rn_shared := mark_precheck_complete (rn_shared demo_run)\<rparr>"
  have r0: "demo_append_reach 0 (?S\<lparr>sy_run := s0\<rparr>)"
    using append_work [OF demo_append_start, of Prechecked] by (simp add: s0_def demo_system_def)
  obtain s1 s2 where p: "runner_tick bucket_api demo_histogram demo_append_config (demo_tick 100) s0 = Some (s1, None)"
    "runner_tick bucket_api demo_histogram demo_append_config (demo_tick 104) s1 = Some (s2, None)"
    "shared_phase (rn_shared s2) = Warmup" "rn_append_queues s2 = [[100]]"
    "\<forall>q. \<exists>s3. runner_tick bucket_api demo_histogram demo_append_config (demo_tick 104)
        (s2\<lparr>rn_append_queues := q, rn_shared := add_append_confirmed 1 (rn_shared s2)\<rparr>) = Some (s3, None) \<and> rn_append_head s3 = Some 101"
    using demo_append_passes [OF s0_def] by blast
  have "demo_append_reach 1 (?S\<lparr>sy_run := s1\<rparr>)" using append_pass [OF r0, of "demo_tick 100" s1] p(1) by simp
  from append_pass [OF this, of "demo_tick 104" s2] have r2: "demo_append_reach 2 (?S\<lparr>sy_run := s2\<rparr>)"
    using p(2) by (simp add: numeral_2_eq_2)
  let ?e = "env_of (?S\<lparr>sy_run := s2\<rparr>)"
  have e: "ae_queues ?e = [[100]]" "shared_phase (ae_shared ?e) = Warmup" "ae_limiter ?e = None"
    using p(3,4) by (simp_all add: env_of_def demo_system_def)
  obtain w where w: "append_iteration bucket_api queue_client_api demo_sampling demo_mc_config 0 0 ?e demo_writer =
      Some (?e\<lparr>ae_queues := [[]]\<rparr>, w, Recv_reply)" "qc_pending (aw_client w) = [append_tag 100]" "aw_in_flight w = [100]"
    using demo_append_iteration [OF e] by blast
  let ?S2 = "put_writer 0 demo_mc_config w (put_env (?e\<lparr>ae_queues := [[]]\<rparr>) (?S\<lparr>sy_run := s2\<rparr>))"
  have r3: "demo_append_reach 2 ?S2"
    by (rule append_turn [OF r2 _ _ w(1)]) simp_all
  have ws: "sy_writers ?S2 = [(demo_mc_config, w)]" by (simp add: put_writer_def put_env_def)
  let ?c = "\<lparr>qc_pending = [], qc_buffered = 0\<rparr>"
  define r where "r = map_memcache_op (Mc_set (Inr ()) (append_tag 100) 0)"
  have "rq_append r" "rq_success r" using append_reply_maps(2) [of "Inr ()" 100 0] unfolding r_def by simp_all
  then obtain e' w' where rep: "mc_append_reply demo_mc_config ?c (Mc_set (Inr ()) (append_tag 100) 0) (env_of ?S2) w = Some (e', w')"
    "e' = confirm_append_key (env_of ?S2)"
    unfolding mc_append_reply_def r_def [symmetric] by (auto simp: append_note_reply_def w(3))
  let ?S3 = "store True (append_tag 100) (put_writer 0 demo_mc_config w' (put_env e' ?S2))"
  have "demo_append_reach 2 (store (is_ok (Inr () :: unit + unit)) (append_tag 100) (put_writer 0 demo_mc_config w' (put_env e' ?S2)))"
    by (rule append_mc [OF r3 _ _ _ _ rep(1)]) (simp_all add: ws w(2) demo_is_mc)
  then have r4: "demo_append_reach 2 ?S3" by simp
  have run: "sy_run ?S3 = s2\<lparr>rn_append_queues := [[]], rn_shared := add_append_confirmed 1 (rn_shared s2)\<rparr>"
    by (simp add: store_def put_writer_def put_env_def rep(2) confirm_append_key_def env_of_def)
  obtain s3 where s3: "runner_tick bucket_api demo_histogram demo_append_config (demo_tick 104) (sy_run ?S3) = Some (s3, None)" "rn_append_head s3 = Some 101"
    using p(5) unfolding run by blast
  have set_run: "sy_run (S\<lparr>sy_run := r\<rparr>) = r" for S :: "(queue_client, bucket, nat, nat, nat) append_system" and r by simp
  have "demo_append_reach 3 (?S3\<lparr>sy_run := s3\<rparr>)" using append_pass [OF r4 s3(1)] by (simp add: numeral_3_eq_3)
  then have "\<exists>S'. demo_append_reach 3 S' \<and> rn_append_head (sy_run S') = Some 101" 
    using s3(2) set_run by metis
  then show thesis using that [OF r3 ws w(2)] by blast
qed

lemma demo_append_room: "n \<le> 3 \<Longrightarrow> rc_key_count demo_append_config + (n + 1) * append_batch demo_append_config \<le> 2 ^ 61"
  by (simp add: demo_append_config_def demo_run_config_def append_batch_def)

theorem append_head_stored_witness: "\<exists>S. demo_append_reach 3 S \<and> rn_append_head (sy_run S) = Some 101 \<and> 100 \<in># sy_stored S"
proof -
  obtain S where S: "demo_append_reach 3 S" "rn_append_head (sy_run S) = Some 101" using demo_append_run by metis
  have k: "rc_key_count demo_append_config = 100" by (simp add: demo_append_config_def demo_run_config_def)
  show ?thesis using append_head_stored [OF queue_client_laws _ S(1) demo_append_room] S k by auto
qed

theorem append_writers_go_on_witness:
  "\<exists>S w e' w' a. demo_append_reach 2 S \<and> sy_writers S = [(demo_mc_config, w)] \<and> aw_in_flight w \<noteq> [] \<and>
     append_iteration bucket_api queue_client_api demo_sampling demo_mc_config 0 0 (env_of S) w = Some (e', w', a)"
proof -
  obtain S w where S: "demo_append_reach 2 S" "sy_writers S = [(demo_mc_config, w)]" "qc_pending (aw_client w) = [append_tag 100]"
    using demo_append_run by metis
  have i: "0 < length (sy_writers S)" "sy_writers S ! 0 = (demo_mc_config, w)" using S(2) by simp_all
  note go = append_writers_go_on [OF queue_client_laws _ S(1) demo_append_room _ i, where now = 0 and t = 0]
  have "writer_sync qc_pending w" using go by simp
  then have "aw_in_flight w \<noteq> []" using S(3) by (auto simp: writer_sync_def)
  then show ?thesis using go S by auto
qed

end
