(* ===== verification/Kv_Request.thy ===== *)
theory Kv_Request
  imports Connection Config
begin

text \<open>
  One request of a KV-cache replay on a connection (\<open>src/kvreplay.rs\<close>, \<open>run_request\<close> and what it
  calls): look the prompt's objects up, load the cached prefix, store what is missing, and count the
  tokens served from the cache.

  What the server answers is an argument: the outcome of the lookup, then the replies in the order
  received. The function runs as far as the replies go, and says when it waits for another one. The
  mapping of chunks to objects is the crate kvtrace, an argument of the replay; the client is the one of
  \<open>Connection\<close>, with \<open>rcv\<close> for what it is after a reply was received. Durations are arguments.
\<close>

section \<open>The trace and its objects\<close>

record kv_object =
  ko_id :: nat
  ko_size :: nat
  ko_chunk :: nat

record kv_request =
  kq_id :: nat
  kq_timestamp :: int
  kq_input_tokens :: nat
  kq_chunks :: "nat list"

record kv_replay =
  kr_first_ts :: int
  kr_chunk_tokens :: nat
  kr_ranks :: nat
  kr_objects :: "nat list \<Rightarrow> kv_object list"
  kr_key_prefix :: bytes
  kr_key_format :: kv_key_format
  kr_write_rule :: kv_write_rule
  kr_speedup :: f64

definition closed_loop :: "kv_replay \<Rightarrow> bool" where
  "closed_loop kv \<longleftrightarrow> f_eq (kr_speedup kv) (Fin 0)"

definition kv_max_key_len :: "kv_replay \<Rightarrow> nat" where
  "kv_max_key_len kv = length (kr_key_prefix kv) + (case kr_key_format kv of KvHex \<Rightarrow> 16 | KvDecimal \<Rightarrow> 20)"

text \<open>An \<open>i64\<close> difference saturates before it becomes a float.\<close>

definition i64_saturating_sub :: "int \<Rightarrow> int \<Rightarrow> int" where
  "i64_saturating_sub a b = max (- 9223372036854775808) (min 9223372036854775807 (a - b))"

definition f_of_int :: "int \<Rightarrow> f64" where
  "f_of_int i = (if i < 0 then f_neg (f_of_nat (nat (- i))) else f_of_nat (nat i))"

definition scheduled_at :: "kv_replay \<Rightarrow> nat \<Rightarrow> kv_request \<Rightarrow> nat option" where
  "scheduled_at kv start req =
     (if closed_loop kv then None
      else Some (start + f_as_u64 (f_div (f_of_int (i64_saturating_sub (kq_timestamp req) (kr_first_ts kv))) (kr_speedup kv))))"

text \<open>\<open>{id:016x}\<close> is a key of 16 hex digits, \<open>{id}\<close> the decimal digits.\<close>

definition push_key :: "kv_replay \<Rightarrow> nat \<Rightarrow> bytes" where
  "push_key kv i =
     kr_key_prefix kv @ (case kr_key_format kv of KvHex \<Rightarrow> write_key Hex 16 i | KvDecimal \<Rightarrow> map of_char (decimal i))"

fun decimal_len :: "nat \<Rightarrow> nat" where
  "decimal_len v = (if v \<ge> 10 then 1 + decimal_len (v div 10) else 1)"

declare decimal_len.simps [simp del]

text \<open>\<open>xs.chunks(n)\<close> for a positive \<open>n\<close>.\<close>

function chunks :: "nat \<Rightarrow> 'a list \<Rightarrow> 'a list list" where
  "chunks n xs = (if xs = [] \<or> n = 0 then [] else take n xs # chunks n (drop n xs))"
  by pat_completeness auto
termination by (relation "measure (\<lambda>(n, xs). length xs)") auto

declare chunks.simps [simp del]

definition lookup_prefix :: "bool list \<Rightarrow> nat \<Rightarrow> nat" where
  "lookup_prefix present ranks = length (takeWhile (\<lambda>c. list_all (\<lambda>e. e) c) (chunks (max ranks 1) present))"

definition cached_tokens :: "nat \<Rightarrow> nat \<Rightarrow> nat \<Rightarrow> nat" where
  "cached_tokens hit_chunks chunk_tokens input_tokens =
     (let hit = saturating_mul hit_chunks chunk_tokens
      in if hit \<ge> input_tokens then saturating_sub input_tokens 1 else hit)"

section \<open>A request on a connection\<close>

record outcome =
  oc_lookup_hit :: nat
  oc_hit :: nat
  oc_cached_tokens :: nat
  oc_new_tokens :: nat
  oc_full_hit :: bool
  oc_gets :: nat
  oc_get_nil :: nat
  oc_sets :: nat
  oc_lookup_ns :: nat
  oc_load_ns :: nat
  oc_store_ns :: nat

datatype kv_failure = Fail_disconnect disconnect_reason | Fail_request | Fail_closed

record ('c, 'g, 't) kv_conn =
  kc_client :: 'c
  kc_rng :: 'g
  kc_inflight :: "'t in_flight"
  kc_flight :: flight_counters
  kc_metrics :: request_metrics
  kc_requests_sent :: nat
  kc_exists_count :: nat
  kc_get_nil :: nat
  kc_bytes_tx :: nat
  kc_bytes_rx :: nat

datatype kv_reply = Reply_timeout disconnect_reason | Reply_closed | Reply_error | Reply_meta resp_meta

definition recv_failed :: "bool \<Rightarrow> kv_failure" where
  "recv_failed connection_closed = Fail_disconnect (if connection_closed then Eof else RecvError)"

text \<open>The fire loop: as many of the items as the pipeline has room for. \<open>Inl\<close>: a fire failed.\<close>

fun kv_fire ::
  "'c client_api \<Rightarrow> nat \<Rightarrow> (nat \<Rightarrow> 'g \<Rightarrow> fire \<times> 'g) \<Rightarrow> nat \<Rightarrow> nat list \<Rightarrow> nat \<Rightarrow> ('c, 'g, 't) kv_conn \<Rightarrow>
   ('c, 'g, 't) kv_conn + ('c, 'g, 't) kv_conn \<times> nat list \<times> nat" where
  "kv_fire C depth cmd fired_at [] fired s = Inr (s, [], fired)"
| "kv_fire C depth cmd fired_at (i # items) fired s =
     (let before = cl_pending_count C (kc_client s) in
      if before < depth then
        let (f, g) = cmd i (kc_rng s); (ok, c) = cl_fire C (kc_client s) f; s = s\<lparr>kc_rng := g, kc_client := c\<rparr>
        in if ok then kv_fire C depth cmd fired_at items (fired + 1) (s\<lparr>kc_inflight := inflight_push (kc_inflight s) fired_at\<rparr>)
           else let (infl, m, _) = note_failed_fire before (cl_pending_count C c) (kc_inflight s) True (kc_flight s)
                in Inl (s\<lparr>kc_inflight := infl, kc_flight := m, kc_requests_sent := wrapping_add (kc_requests_sent s) fired\<rparr>)
      else Inr (s, i # items, fired))"

definition kv_flush :: "'c client_api \<Rightarrow> nat \<Rightarrow> ('c, 'g, 't) kv_conn \<Rightarrow> ('c, 'g, 't) kv_conn + ('c, 'g, 't) kv_conn" where
  "kv_flush C fired s =
     (let before = cl_pending_count C (kc_client s); (ok, c) = cl_flush C (kc_client s); s = s\<lparr>kc_client := c\<rparr> in
      if ok then Inr (s\<lparr>kc_requests_sent := wrapping_add (kc_requests_sent s) fired\<rparr>)
      else let (infl, m, discarded) = note_discarded before (cl_pending_count C c) (kc_inflight s) True (kc_flight s)
           in Inl (s\<lparr>kc_inflight := infl, kc_flight := m,
                     kc_requests_sent := wrapping_add (kc_requests_sent s) (wrapping_sub fired discarded)\<rparr>))"

datatype ('s, 'a) loop_end =
    Loop_waiting 's
  | Loop_failed 's kv_failure
  | Loop_panic
  | Loop_done 's 'a "kv_reply list"

text \<open>
  The loops of the load and of the store, which differ in the command they send (\<open>cmd\<close>) and in what
  they do with a reply (\<open>on_reply\<close>): fill the pipeline, flush, receive one reply, until \<open>left\<close> replies
  have come. \<open>clock\<close> gives the time a round starts, by the replies left; a handler that indexes out of
  range panics (\<open>None\<close>).
\<close>

fun kv_loop ::
  "'c client_api \<Rightarrow> ('c \<Rightarrow> 'c) \<Rightarrow> nat \<Rightarrow> (nat \<Rightarrow> 'g \<Rightarrow> fire \<times> 'g) \<Rightarrow> (nat \<Rightarrow> nat) \<Rightarrow>
   (resp_meta \<Rightarrow> ('c, 'g, 't) kv_conn \<times> 'a \<Rightarrow> (('c, 'g, 't) kv_conn \<times> 'a) option) \<Rightarrow>
   nat \<Rightarrow> kv_reply list \<Rightarrow> nat list \<Rightarrow> ('c, 'g, 't) kv_conn \<times> 'a \<Rightarrow> (('c, 'g, 't) kv_conn, 'a) loop_end" where
  "kv_loop C rcv depth cmd clock on_reply 0 replies items (s, a) = Loop_done s a replies"
| "kv_loop C rcv depth cmd clock on_reply (Suc left) replies items (s, a) =
     (case kv_fire C depth cmd (clock (Suc left)) items 0 s of
        Inl s \<Rightarrow> Loop_failed s (Fail_disconnect SendError)
      | Inr (s, items, fired) \<Rightarrow>
          (case kv_flush C fired s of
             Inl s \<Rightarrow> Loop_failed s (Fail_disconnect SendError)
           | Inr s \<Rightarrow>
               (case replies of
                  [] \<Rightarrow> Loop_waiting s
                | Reply_timeout reason # _ \<Rightarrow> Loop_failed s (Fail_disconnect reason)
                | Reply_closed # _ \<Rightarrow> Loop_failed s (recv_failed True)
                | Reply_error # _ \<Rightarrow> Loop_failed s (recv_failed False)
                | Reply_meta m # replies \<Rightarrow>
                    let s = s\<lparr>kc_client := rcv (kc_client s), kc_inflight := fst (inflight_pop (kc_inflight s))\<rparr>
                    in (case on_reply m (s, a) of
                          None \<Rightarrow> Loop_panic
                        | Some sa \<Rightarrow> kv_loop C rcv depth cmd clock on_reply left replies items sa))))"

definition note_lookup :: "nat \<Rightarrow> nat \<Rightarrow> ('c, 'g, 't) kv_conn \<Rightarrow> ('c, 'g, 't) kv_conn" where
  "note_lookup n tx_bytes s =
     s\<lparr>kc_requests_sent := wrapping_add (kc_requests_sent s) n,
       kc_metrics := (kc_metrics s)\<lparr>m_responses := m_responses (kc_metrics s) + n\<rparr>,
       kc_exists_count := wrapping_add (kc_exists_count s) n,
       kc_bytes_tx := wrapping_add (kc_bytes_tx s) tx_bytes,
       kc_bytes_rx := wrapping_add (kc_bytes_rx s) (wrapping_mul 4 n)\<rparr>"

text \<open>What became of the lookup's pipeline. A value that is not an integer is \<open>None\<close>.\<close>

datatype kv_lookup =
    Lookup_timeout disconnect_reason
  | Lookup_not_connected
  | Lookup_io
  | Lookup_redis
  | Lookup_closed
  | Lookup_other
  | Lookup_values "int option list"

definition lookup_tx_bytes :: "bytes list \<Rightarrow> nat" where
  "lookup_tx_bytes keys = (\<Sum>k\<leftarrow>keys. 16 + (1 + decimal_len (length k) + 2 + length k + 2))"

definition run_lookup ::
  "nat \<Rightarrow> bytes list \<Rightarrow> kv_lookup \<Rightarrow> ('c, 'g, 't) kv_conn \<Rightarrow>
   ('c, 'g, 't) kv_conn \<times> (kv_failure + bool list)" where
  "run_lookup fired_at keys reply s =
     (let n = length keys; tx_bytes = lookup_tx_bytes keys;
          pushed = foldl (\<lambda>f _. inflight_push f fired_at) (kc_inflight s) keys;
          errored = (\<lambda>s. s\<lparr>kc_metrics := (kc_metrics s)\<lparr>m_errors := m_errors (kc_metrics s) + 1\<rparr>\<rparr>)
      in case reply of
           Lookup_timeout reason \<Rightarrow> (s\<lparr>kc_inflight := pushed\<rparr>, Inl (Fail_disconnect reason))
         | _ \<Rightarrow>
             let s = s\<lparr>kc_inflight := forget_newest pushed n\<rparr>
             in case reply of
                  Lookup_not_connected \<Rightarrow> (s, Inl Fail_closed)
                | Lookup_io \<Rightarrow>
                    (s\<lparr>kc_flight := (kc_flight s)\<lparr>fc_send_failed := fc_send_failed (kc_flight s) + n\<rparr>\<rparr>, Inl Fail_request)
                | Lookup_redis \<Rightarrow> (errored (note_lookup n tx_bytes s), Inl Fail_request)
                | Lookup_closed \<Rightarrow> (s, Inl Fail_closed)
                | Lookup_other \<Rightarrow> (s, Inl (Fail_disconnect RecvError))
                | Lookup_values vs \<Rightarrow>
                    let s = note_lookup n tx_bytes s
                    in if None \<in> set vs then (errored s, Inl Fail_request)
                       else (s, Inr (map (\<lambda>v. the v > 0) vs)))"

text \<open>The reply to a GET: a nil or an error ends the cached prefix at the object's chunk.\<close>

definition on_get ::
  "kv_object list \<Rightarrow> resp_meta \<Rightarrow> ('c, 'g, 't) kv_conn \<times> outcome \<Rightarrow> (('c, 'g, 't) kv_conn \<times> outcome) option" where
  "on_get objects m so =
     (let (s, oc) = so; i = unat (rm_user_data m) in
      if i < length objects then
        let chunk = ko_chunk (objects ! i); r = map_respmeta m; s = s\<lparr>kc_metrics := record_counters r (kc_metrics s)\<rparr> in
        Some (if \<not> rq_success r \<or> rq_hit r = Some False then
                let (s, oc) = (if rq_success r
                               then (s\<lparr>kc_get_nil := kc_get_nil s + 1\<rparr>, oc\<lparr>oc_get_nil := oc_get_nil oc + 1\<rparr>) else (s, oc))
                in (s, oc\<lparr>oc_hit := min (oc_hit oc) chunk\<rparr>)
              else (s, oc))
      else None)"

definition on_set ::
  "resp_meta \<Rightarrow> ('c, 'g, 't) kv_conn \<times> outcome \<Rightarrow> (('c, 'g, 't) kv_conn \<times> outcome) option" where
  "on_set m so = (let (s, oc) = so in Some (s\<lparr>kc_metrics := record_counters (map_respmeta m) (kc_metrics s)\<rparr>, oc))"

definition select_sets :: "kv_write_rule \<Rightarrow> nat \<Rightarrow> nat \<Rightarrow> bool list \<Rightarrow> nat list" where
  "select_sets rule from n present =
     (case rule of SetFromMiss \<Rightarrow> [from..<n] | InsertIfAbsent \<Rightarrow> filter (\<lambda>i. \<not> present ! i) [0..<length present])"

definition get_command :: "bytes list \<Rightarrow> nat \<Rightarrow> 'g \<Rightarrow> fire \<times> 'g" where
  "get_command keys i g = (Fire_get (keys ! i) (word_of_nat i), g)"

definition store_command :: "'g sampling \<Rightarrow> nat \<Rightarrow> kv_object list \<Rightarrow> bytes list \<Rightarrow> nat \<Rightarrow> 'g \<Rightarrow> fire \<times> 'g" where
  "store_command G pool_len objects keys i g =
     (let len = ko_size (objects ! i); (off, g) = value_offset G len pool_len g in
      if len \<ge> ZC_VALUE_THRESHOLD then (Fire_set True (keys ! i) (off mod 4294967296) (len mod 4294967296) (word_of_nat i), g)
      else (Fire_set False (keys ! i) off len (word_of_nat i), g))"

text \<open>The tokens, once load and store are done.\<close>

definition finish_outcome :: "kv_replay \<Rightarrow> nat \<Rightarrow> outcome \<Rightarrow> outcome" where
  "finish_outcome kv input oc =
     (let cached = cached_tokens (oc_hit oc) (kr_chunk_tokens kv) input in
      oc\<lparr>oc_cached_tokens := cached, oc_new_tokens := saturating_sub input cached,
         oc_full_hit := (input > 0 \<and> saturating_mul (oc_hit oc) (kr_chunk_tokens kv) \<ge> input)\<rparr>)"

definition empty_outcome :: "nat \<Rightarrow> outcome" where
  "empty_outcome input = \<lparr>oc_lookup_hit = 0, oc_hit = 0, oc_cached_tokens = 0, oc_new_tokens = input, oc_full_hit = False,
     oc_gets = 0, oc_get_nil = 0, oc_sets = 0, oc_lookup_ns = 0, oc_load_ns = 0, oc_store_ns = 0\<rparr>"

record kv_times =
  kt_fired_at :: nat
  kt_load_clock :: "nat \<Rightarrow> nat"
  kt_store_clock :: "nat \<Rightarrow> nat"
  kt_lookup_ns :: nat
  kt_load_ns :: nat
  kt_store_ns :: nat

definition run_request ::
  "'c client_api \<Rightarrow> ('c \<Rightarrow> 'c) \<Rightarrow> 'g sampling \<Rightarrow> nat \<Rightarrow> nat \<Rightarrow> kv_replay \<Rightarrow> kv_times \<Rightarrow> kv_lookup \<Rightarrow> kv_reply list \<Rightarrow>
   kv_request \<Rightarrow> ('c, 'g, 't) kv_conn \<Rightarrow> (('c, 'g, 't) kv_conn, outcome) loop_end" where
  "run_request C rcv G depth pool_len kv tm lookup replies req s =
     (let input = kq_input_tokens req; oc = empty_outcome input in
      if kq_chunks req = [] then Loop_done s oc replies
      else
        let objects = kr_objects kv (kq_chunks req); keys = map (\<lambda>b. push_key kv (ko_id b)) objects;
            ranks = kr_ranks kv; n = length objects
        in case run_lookup (kt_fired_at tm) keys lookup s of
             (s, Inl e) \<Rightarrow> Loop_failed s e
           | (s, Inr present) \<Rightarrow>
               let hit = lookup_prefix present ranks; gets = hit * ranks;
                   oc = oc\<lparr>oc_lookup_ns := kt_lookup_ns tm, oc_lookup_hit := hit, oc_hit := hit\<rparr>
               in case kv_loop C rcv depth (get_command keys) (kt_load_clock tm) (on_get objects) gets replies [0..<gets] (s, oc) of
                    Loop_waiting s \<Rightarrow> Loop_waiting s
                  | Loop_panic \<Rightarrow> Loop_panic
                  | Loop_failed s e \<Rightarrow> Loop_failed s e
                  | Loop_done s oc replies \<Rightarrow>
                      let oc = (if gets > 0 then oc\<lparr>oc_gets := gets, oc_load_ns := kt_load_ns tm\<rparr> else oc);
                          sets = select_sets (kr_write_rule kv) (hit * ranks) n present
                      in case kv_loop C rcv depth (store_command G pool_len objects keys) (kt_store_clock tm) on_set
                                (length sets) replies sets (s, oc) of
                           Loop_waiting s \<Rightarrow> Loop_waiting s
                         | Loop_panic \<Rightarrow> Loop_panic
                         | Loop_failed s e \<Rightarrow> Loop_failed s e
                         | Loop_done s oc replies \<Rightarrow>
                             let oc = (if sets \<noteq> [] then oc\<lparr>oc_sets := length sets, oc_store_ns := kt_store_ns tm\<rparr> else oc)
                             in Loop_done s (finish_outcome kv input oc) replies)"

section \<open>Counting an outcome\<close>

record kv_metrics =
  km_requests :: nat
  km_requests_failed :: nat
  km_input_tokens :: nat
  km_cached_tokens :: nat
  km_new_tokens :: nat
  km_full_hits :: nat
  km_chunk0_misses :: nat
  km_no_full_chunk :: nat
  km_lookups :: nat
  km_loads :: nat
  km_stores :: nat
  km_loads_with_cached :: nat
  km_lookup_time :: "nat list"
  km_load_time :: "nat list"
  km_load_time_per_1k :: "nat list"
  km_store_time :: "nat list"

definition record_outcome :: "kv_request \<Rightarrow> outcome \<Rightarrow> kv_metrics \<Rightarrow> kv_metrics" where
  "record_outcome req oc m =
     (let m = m\<lparr>km_requests := km_requests m + 1, km_input_tokens := km_input_tokens m + kq_input_tokens req,
                km_cached_tokens := km_cached_tokens m + oc_cached_tokens oc, km_new_tokens := km_new_tokens m + oc_new_tokens oc\<rparr>
      in if kq_chunks req = [] then m\<lparr>km_no_full_chunk := km_no_full_chunk m + 1\<rparr>
         else
           let m = m\<lparr>km_lookups := km_lookups m + 1, km_lookup_time := oc_lookup_ns oc # km_lookup_time m\<rparr>;
               m = (if oc_lookup_hit oc = 0 then m\<lparr>km_chunk0_misses := km_chunk0_misses m + 1\<rparr> else m);
               m = (if oc_full_hit oc then m\<lparr>km_full_hits := km_full_hits m + 1\<rparr> else m);
               m = (if oc_gets oc > 0 then
                      let m = m\<lparr>km_loads := km_loads m + 1, km_load_time := oc_load_ns oc # km_load_time m\<rparr>
                      in if oc_cached_tokens oc \<noteq> 0
                         then m\<lparr>km_loads_with_cached := km_loads_with_cached m + 1,
                                km_load_time_per_1k := saturating_mul (oc_load_ns oc) 1000 div oc_cached_tokens oc # km_load_time_per_1k m\<rparr>
                         else m
                    else m)
           in if oc_sets oc > 0 then m\<lparr>km_stores := km_stores m + 1, km_store_time := oc_store_ns oc # km_store_time m\<rparr> else m)"


section \<open>The lookup's prefix\<close>

lemma chunks_nil [simp]: "chunks n [] = []"
  by (simp add: chunks.simps)

lemma lookup_prefix_step:
  assumes "0 < r" and "xs \<noteq> []"
  shows "lookup_prefix xs r = (if list_all (\<lambda>e. e) (take r xs) then Suc (lookup_prefix (drop r xs) r) else 0)"
proof -
  have m: "max r 1 = r" using assms by simp
  show ?thesis unfolding lookup_prefix_def m using assms chunks.simps [of r xs] by simp
qed

lemma lookup_prefix_spec:
  assumes "0 < r"
  shows "length xs = c * r \<Longrightarrow> lookup_prefix xs r \<le> c \<and> (\<forall>i<lookup_prefix xs r * r. xs ! i) \<and>
    (lookup_prefix xs r < c \<longrightarrow> (\<exists>i. lookup_prefix xs r * r \<le> i \<and> i < Suc (lookup_prefix xs r) * r \<and> \<not> xs ! i))"
proof (induction c arbitrary: xs)
  case 0
  then show ?case by (simp add: lookup_prefix_def)
next
  case (Suc c)
  then have ne: "xs \<noteq> []" and len: "length (drop r xs) = c * r" and le: "r \<le> length xs" using assms by auto
  note ih = Suc.IH [OF len]
  let ?k = "lookup_prefix (drop r xs) r"
  show ?case
  proof (cases "list_all (\<lambda>e. e) (take r xs)")
    case True
    then have first: "\<forall>i<r. xs ! i" using le by (auto simp: list_all_length)
    have k: "lookup_prefix xs r = Suc ?k" using lookup_prefix_step [OF assms ne] True by simp
    have "xs ! i" if "i < Suc ?k * r" for i
    proof (cases "i < r")
      case False
      then have "xs ! i = drop r xs ! (i - r)" "i - r < ?k * r" using that le by auto
      then show ?thesis using ih by auto
    qed (use first in simp)
    moreover have "\<exists>i. Suc ?k * r \<le> i \<and> i < Suc (Suc ?k) * r \<and> \<not> xs ! i" if "Suc ?k < Suc c"
    proof -
      obtain i where "?k * r \<le> i" "i < Suc ?k * r" "\<not> drop r xs ! i" using ih \<open>Suc ?k < Suc c\<close> by auto
      then show ?thesis using le by (intro exI [of _ "r + i"]) auto
    qed
    ultimately show ?thesis using ih unfolding k by blast
  next
    case False
    then obtain i where "i < r" "\<not> xs ! i" using le by (auto simp: list_all_length)
    then show ?thesis using lookup_prefix_step [OF assms ne] False by auto
  qed
qed

lemma lookup_prefix_unique:
  assumes "0 < r" and "length xs = c * r" and "k \<le> c" and good: "\<forall>i<k * r. xs ! i"
    and bad: "k < c \<longrightarrow> (\<exists>i. k * r \<le> i \<and> i < Suc k * r \<and> \<not> xs ! i)"
  shows "lookup_prefix xs r = k"
proof -
  note spec = lookup_prefix_spec [OF assms(1,2)]
  have "\<not> lookup_prefix xs r < k"
  proof
    assume l: "lookup_prefix xs r < k"
    then obtain i where i: "i < Suc (lookup_prefix xs r) * r" "\<not> xs ! i" using spec assms(3) by auto
    have "Suc (lookup_prefix xs r) * r \<le> k * r" using l by (intro mult_le_mono1) simp
    then show False using i good by simp
  qed
  moreover have "\<not> k < lookup_prefix xs r"
  proof
    assume l: "k < lookup_prefix xs r"
    then obtain i where i: "i < Suc k * r" "\<not> xs ! i" using spec bad by auto
    have "Suc k * r \<le> lookup_prefix xs r * r" using l by (intro mult_le_mono1) simp
    then show False using i spec by simp
  qed
  ultimately show ?thesis by simp
qed

lemma cached_tokens_bounds:
  "cached_tokens h c t \<le> t" "0 < t \<Longrightarrow> cached_tokens h c t < t" "cached_tokens h c t \<le> h * c"
  by (auto simp: cached_tokens_def saturating_mul_def Let_def min_def)

section \<open>The loops\<close>

text \<open>The client after a reply: the oldest pending request is gone.\<close>

definition recv_law :: "('c \<Rightarrow> u64 list) \<Rightarrow> ('c \<Rightarrow> 'c) \<Rightarrow> bool" where
  "recv_law pend rcv \<longleftrightarrow> (\<forall>c. pend c \<noteq> [] \<longrightarrow> pend (rcv c) = tl (pend c))"

lemma kv_fire_pending:
  assumes "client_laws C pend unf"
  shows "kv_fire C depth cmd t items fired s = Inr (s', items', fired') \<Longrightarrow>
    length (pend (kc_client s')) + length items' = length (pend (kc_client s)) + length items \<and>
    (items' = [] \<or> depth \<le> length (pend (kc_client s')))"
proof (induction items arbitrary: fired s)
  case (Cons i items)
  have cnt: "cl_pending_count C c = length (pend c)" for c using assms by (simp add: client_laws_def)
  show ?case
  proof (cases "length (pend (kc_client s)) < depth")
    case True
    obtain f g where fg: "cmd i (kc_rng s) = (f, g)" by fastforce
    obtain ok c where oc: "cl_fire C (kc_client s) f = (ok, c)" by fastforce
    show ?thesis
    proof (cases ok)
      case True
      then have "pend c = pend (kc_client s) @ [fire_user_data f]" using assms oc unfolding client_laws_def by (metis (full_types))
      then show ?thesis using Cons.IH Cons.prems \<open>length (pend (kc_client s)) < depth\<close> fg oc True by (fastforce simp: cnt Let_def)
    next
      case False
      then show ?thesis using Cons.prems \<open>length (pend (kc_client s)) < depth\<close> fg oc by (simp add: cnt Let_def split: prod.splits)
    qed
  next
    case False
    then show ?thesis using Cons.prems by (auto simp: cnt Let_def)
  qed
qed simp

lemma kv_flush_pending:
  assumes "client_laws C pend unf" and "kv_flush C fired s = Inr s'"
  shows "pend (kc_client s') = pend (kc_client s)"
proof -
  obtain ok c where oc: "cl_flush C (kc_client s) = (ok, c)" by fastforce
  have ok: ok using assms(2) oc by (auto simp: kv_flush_def Let_def split: if_splits prod.splits)
  then have "pend c = pend (kc_client s)" using assms(1) oc unfolding client_laws_def by (metis (full_types))
  then show ?thesis using assms(2) oc ok by (auto simp: kv_flush_def Let_def)
qed

text \<open>A reply that passes the check \<open>P\<close> is handled without touching the client; any other panics.\<close>

definition handler_ok ::
  "(resp_meta \<Rightarrow> ('c, 'g, 't) kv_conn \<times> 'a \<Rightarrow> (('c, 'g, 't) kv_conn \<times> 'a) option) \<Rightarrow> (resp_meta \<Rightarrow> bool) \<Rightarrow> (resp_meta \<Rightarrow> 'a \<Rightarrow> 'a) \<Rightarrow> bool" where
  "handler_ok on_reply P h \<longleftrightarrow>
     (\<forall>m s a. case on_reply m (s, a) of
                None \<Rightarrow> \<not> P m
              | Some (s', a') \<Rightarrow> P m \<and> kc_client s' = kc_client s \<and> a' = h m a)"

lemma kv_loop_sound:
  assumes laws: "client_laws C pend unf" "recv_law pend rcv" and depth: "0 < depth" and h: "handler_ok on_reply P h"
  shows "length (pend (kc_client s)) + length items = left \<Longrightarrow>
    (case kv_loop C rcv depth cmd clock on_reply left replies items (s, a) of
       Loop_waiting s' \<Rightarrow> pend (kc_client s') \<noteq> []
     | Loop_failed s' e \<Rightarrow> \<exists>r. e = Fail_disconnect r
     | Loop_panic \<Rightarrow> \<exists>ms m rest. replies = map Reply_meta ms @ Reply_meta m # rest \<and> length ms < left \<and> \<not> P m
     | Loop_done s' a' rest \<Rightarrow> pend (kc_client s') = [] \<and>
         (\<exists>ms. replies = map Reply_meta ms @ rest \<and> length ms = left \<and> a' = fold h ms a))"
proof (induction left arbitrary: replies items s a)
  case (Suc left)
  show ?case
  proof (cases "kv_fire C depth cmd (clock (Suc left)) items 0 s")
    case fired: (Inr x)
    obtain s1 items1 fired where x: "x = (s1, items1, fired)" by (cases x)
    have f: "length (pend (kc_client s1)) + length items1 = Suc left" "items1 = [] \<or> depth \<le> length (pend (kc_client s1))"
      using kv_fire_pending [OF laws(1), of depth cmd "clock (Suc left)" items 0 s s1 items1 fired] fired x Suc.prems by auto
    show ?thesis
    proof (cases "kv_flush C fired s1")
      case flushed: (Inr s2)
      then have p: "pend (kc_client s2) = pend (kc_client s1)" by (rule kv_flush_pending [OF laws(1)])
      have ne: "pend (kc_client s2) \<noteq> []" using f depth p by auto
      show ?thesis
      proof (cases replies)
        case (Cons reply rest)
        show ?thesis
        proof (cases reply)
          case (Reply_meta m)
          let ?s3 = "s2\<lparr>kc_client := rcv (kc_client s2), kc_inflight := fst (inflight_pop (kc_inflight s2))\<rparr>"
          note hm = spec [OF spec [OF spec [OF h [unfolded handler_ok_def], of m], of ?s3], of a]
          show ?thesis
          proof (cases "on_reply m (?s3, a)")
            case None
            then have "\<not> P m" using hm by simp
            moreover have "replies = map Reply_meta [] @ Reply_meta m # rest" by (simp add: Cons Reply_meta)
            ultimately have ex: "\<exists>ms m rest. replies = map Reply_meta ms @ Reply_meta m # rest \<and> length ms < Suc left \<and> \<not> P m"
              by (metis list.size(3) zero_less_Suc)
            show ?thesis using ex by (simp add: fired x flushed Cons Reply_meta None Let_def)
          next
            case (Some sa)
            obtain s4 a4 where r: "sa = (s4, a4)" by fastforce
            have c: "kc_client s4 = rcv (kc_client s2)" "a4 = h m a" "P m" using hm by (simp_all add: Some r)
            have "length (pend (kc_client s4)) + length items1 = left"
              using laws(2) ne f(1) p by (cases "pend (kc_client s1)") (auto simp: recv_law_def c(1))
            note ih = Suc.IH [OF this, of rest a4]
            have step: "kv_loop C rcv depth cmd clock on_reply (Suc left) replies items (s, a) =
                kv_loop C rcv depth cmd clock on_reply left rest items1 (s4, a4)"
              by (simp add: fired x flushed Cons Reply_meta Some r Let_def)
            show ?thesis
            proof (cases "kv_loop C rcv depth cmd clock on_reply left rest items1 (s4, a4)")
              case Loop_panic
              then obtain ms m' rest' where "rest = map Reply_meta ms @ Reply_meta m' # rest'" "length ms < left" "\<not> P m'"
                using ih by auto
              then have "replies = map Reply_meta (m # ms) @ Reply_meta m' # rest' \<and> length (m # ms) < Suc left \<and> \<not> P m'"
                by (simp add: Cons Reply_meta)
              then show ?thesis unfolding step Loop_panic loop_end.case by blast
            next
              case (Loop_done s' a' rest')
              then obtain ms where "rest = map Reply_meta ms @ rest'" "length ms = left" "a' = fold h ms a4" and e: "pend (kc_client s') = []"
                using ih by auto
              then have "replies = map Reply_meta (m # ms) @ rest' \<and> length (m # ms) = Suc left \<and> a' = fold h (m # ms) a"
                by (simp add: Cons Reply_meta c(2))
              with e show ?thesis unfolding step Loop_done loop_end.case by blast
            qed (use ih step in \<open>simp_all del: kv_loop.simps\<close>)
          qed
        qed (use flushed x fired Cons in \<open>auto simp: recv_failed_def\<close>)
      qed (use flushed x fired ne in simp)
    qed (use fired x in simp)
  qed simp
qed simp

section \<open>The load\<close>

definition loaded :: "resp_meta \<Rightarrow> bool" where
  "loaded m \<longleftrightarrow> rq_success (map_respmeta m) \<and> rq_hit (map_respmeta m) \<noteq> Some False"

definition get_step :: "kv_object list \<Rightarrow> resp_meta \<Rightarrow> outcome \<Rightarrow> outcome" where
  "get_step objects m oc =
     (if loaded m then oc
      else oc\<lparr>oc_get_nil := oc_get_nil oc + (if rq_success (map_respmeta m) then 1 else 0),
              oc_hit := min (oc_hit oc) (ko_chunk (objects ! unat (rm_user_data m)))\<rparr>)"

lemma on_get_handler: "handler_ok (on_get objects) (\<lambda>m. unat (rm_user_data m) < length objects) (get_step objects)"
  by (auto simp: handler_ok_def on_get_def get_step_def loaded_def Let_def split: option.splits if_splits)

lemma on_set_handler: "handler_ok on_set (\<lambda>_. True) (\<lambda>_ oc. oc)"
  by (simp add: handler_ok_def on_set_def Let_def)

lemma fold_id [simp]: "fold (\<lambda>_ a. a) xs a = a"
  by (induction xs) auto

lemma fold_min_spec:
  fixes k :: nat and good :: "'a \<Rightarrow> bool" and f :: "'a \<Rightarrow> nat"
  defines "K \<equiv> \<lambda>ms k. fold (\<lambda>m k. if good m then k else min k (f m)) ms k"
  shows "K ms k \<le> k \<and> (\<forall>m\<in>set ms. \<not> good m \<longrightarrow> K ms k \<le> f m) \<and> (K ms k = k \<or> (\<exists>m\<in>set ms. \<not> good m \<and> K ms k = f m))"
proof (induction ms rule: rev_induct)
  case (snoc m ms)
  have "K (ms @ [m]) k = (if good m then K ms k else min (K ms k) (f m))" by (simp add: K_def)
  then show ?case using snoc.IH by (auto simp: min_def intro: order_trans)
qed (simp add: K_def)

lemma get_fold:
  "oc_hit (fold (get_step objects) ms oc) =
     fold (\<lambda>m k. if loaded m then k else min k (ko_chunk (objects ! unat (rm_user_data m)))) ms (oc_hit oc)"
  "oc_lookup_hit (fold (get_step objects) ms oc) = oc_lookup_hit oc"
  "oc_gets (fold (get_step objects) ms oc) = oc_gets oc"
  "oc_sets (fold (get_step objects) ms oc) = oc_sets oc"
  by (induction ms arbitrary: oc) (auto simp: get_step_def)

text \<open>
  The prefix left by the load is the prefix of chunks all of whose GETs returned a value, when the replies come in
  order and the objects are listed chunk by chunk.
\<close>

lemma loaded_prefix:
  assumes "0 < r" and len: "length ms = c * r"
    and user: "\<And>i. i < length ms \<Longrightarrow> unat (rm_user_data (ms ! i)) = i"
    and chunk: "\<And>i. i < length ms \<Longrightarrow> ko_chunk (objects ! i) = i div r"
  shows "lookup_prefix (map loaded ms) r = fold (\<lambda>m k. if loaded m then k else min k (ko_chunk (objects ! unat (rm_user_data m)))) ms c"
    (is "_ = ?K")
proof (rule lookup_prefix_unique [OF \<open>0 < r\<close>])
  note spec = fold_min_spec [of loaded "\<lambda>m. ko_chunk (objects ! unat (rm_user_data m))" ms c]
  show "length (map loaded ms) = c * r" using len by simp
  show "?K \<le> c" using spec by simp
  show "\<forall>i<?K * r. map loaded ms ! i"
  proof (intro allI impI)
    fix i assume i: "i < ?K * r"
    have "?K * r \<le> c * r" using spec by (intro mult_le_mono1) simp
    with i have il: "i < length ms" using len by linarith
    have "loaded (ms ! i)"
    proof (rule ccontr)
      assume "\<not> loaded (ms ! i)"
      then have "?K \<le> i div r" using spec nth_mem [OF il] user [OF il] chunk [OF il] by fastforce
      then have "?K * r \<le> i" using \<open>0 < r\<close> by (simp add: less_eq_div_iff_mult_less_eq)
      with i show False by simp
    qed
    then show "map loaded ms ! i" using il by simp
  qed
  show "?K < c \<longrightarrow> (\<exists>i. ?K * r \<le> i \<and> i < Suc ?K * r \<and> \<not> map loaded ms ! i)"
  proof
    assume "?K < c"
    then obtain m where "m \<in> set ms" "\<not> loaded m" "?K = ko_chunk (objects ! unat (rm_user_data m))" using spec by auto
    then obtain i where il: "i < length ms" "\<not> loaded (ms ! i)" and k: "?K = ko_chunk (objects ! unat (rm_user_data (ms ! i)))"
      by (metis in_set_conv_nth)
    from k have k: "?K = i div r" unfolding user [OF il(1)] chunk [OF il(1)] .
    have "i div r * r \<le> i" "i < Suc (i div r) * r" using \<open>0 < r\<close> by (simp_all add: dividend_less_div_times)
    then show "\<exists>i. ?K * r \<le> i \<and> i < Suc ?K * r \<and> \<not> map loaded ms ! i" unfolding k using il by (intro exI [of _ i]) auto
  qed
qed

section \<open>A whole request\<close>

text \<open>What the client promises of a reply: the \<open>n\<close> GETs are answered in the order they were fired.\<close>

definition replies_in_order :: "nat \<Rightarrow> kv_reply list \<Rightarrow> bool" where
  "replies_in_order n replies \<longleftrightarrow>
     (\<forall>i<min n (length replies). case replies ! i of Reply_meta m \<Rightarrow> unat (rm_user_data m) = i | _ \<Rightarrow> True)"

lemma replies_in_orderD:
  assumes "replies_in_order n (map Reply_meta ms @ rest)" and "i < length ms" and "i < n"
  shows "unat (rm_user_data (ms ! i)) = i"
  using spec [OF assms(1) [unfolded replies_in_order_def], of i] assms(2,3) by (simp add: nth_append)

text \<open>What the crate kvtrace promises of a request's objects: \<open>ranks\<close> for each chunk, chunk by chunk.\<close>

definition mapper_law :: "kv_replay \<Rightarrow> bool" where
  "mapper_law kv \<longleftrightarrow> 0 < kr_ranks kv \<and>
     (\<forall>cs. length (kr_objects kv cs) = length cs * kr_ranks kv \<and>
           (\<forall>i<length (kr_objects kv cs). ko_chunk (kr_objects kv cs ! i) = i div kr_ranks kv))"

definition present_of :: "int option list \<Rightarrow> bool list" where
  "present_of vs = map (\<lambda>v. the v > 0) vs"

lemma run_lookup_values:
  assumes "length vs = length keys"
  shows "\<exists>s'. kc_client s' = kc_client s \<and> run_lookup t keys (Lookup_values vs) s = (s', if None \<in> set vs then Inl Fail_request else Inr (present_of vs))"
  by (simp add: run_lookup_def Let_def note_lookup_def present_of_def)

lemma finish_outcome_fields:
  "oc_lookup_hit (finish_outcome kv input oc) = oc_lookup_hit oc" "oc_hit (finish_outcome kv input oc) = oc_hit oc"
  "oc_gets (finish_outcome kv input oc) = oc_gets oc" "oc_sets (finish_outcome kv input oc) = oc_sets oc"
  "oc_cached_tokens (finish_outcome kv input oc) = cached_tokens (oc_hit oc) (kr_chunk_tokens kv) input"
  "oc_cached_tokens (finish_outcome kv input oc) + oc_new_tokens (finish_outcome kv input oc) = input"
  using cached_tokens_bounds(1) [of "oc_hit oc" "kr_chunk_tokens kv" input] by (simp_all add: finish_outcome_def Let_def)

text \<open>
  What a finished request did, given the objects the lookup found (\<open>present\<close>): \<open>gs\<close> are the replies to its GETs,
  \<open>ss\<close> those to its SETs.
\<close>

definition outcome_ok :: "kv_replay \<Rightarrow> kv_request \<Rightarrow> bool list \<Rightarrow> resp_meta list \<Rightarrow> resp_meta list \<Rightarrow> outcome \<Rightarrow> bool" where
  "outcome_ok kv req present gs ss oc \<longleftrightarrow>
     oc_lookup_hit oc = lookup_prefix present (kr_ranks kv) \<and>
     oc_gets oc = oc_lookup_hit oc * kr_ranks kv \<and> length gs = oc_gets oc \<and>
     oc_hit oc = lookup_prefix (map loaded gs) (kr_ranks kv) \<and>
     oc_sets oc = (case kr_write_rule kv of SetFromMiss \<Rightarrow> length present - oc_gets oc
                                          | InsertIfAbsent \<Rightarrow> length (filter Not present)) \<and>
     length ss = oc_sets oc \<and>
     oc_cached_tokens oc + oc_new_tokens oc = kq_input_tokens req \<and>
     oc_cached_tokens oc \<le> oc_hit oc * kr_chunk_tokens kv \<and>
     (0 < kq_input_tokens req \<longrightarrow> 0 < oc_new_tokens oc)"

lemma length_filter_nth: "length (filter (\<lambda>i. \<not> xs ! i) [0..<length xs]) = length (filter Not xs)"
proof -
  have "filter Not xs = filter Not (map ((!) xs) [0..<length xs])" by (simp only: map_nth)
  then have "filter Not xs = map (\<lambda>i. xs ! i) (filter (\<lambda>i. \<not> xs ! i) [0..<length xs])"
    by (simp only: filter_map comp_def)
  then show ?thesis by simp
qed

lemma finish_outcome_ok:
  assumes "oc_lookup_hit oc = lookup_prefix present (kr_ranks kv)" "oc_gets oc = oc_lookup_hit oc * kr_ranks kv" "length gs = oc_gets oc"
    "oc_hit oc = lookup_prefix (map loaded gs) (kr_ranks kv)"
    "oc_sets oc = length (select_sets (kr_write_rule kv) (oc_gets oc) (length present) present)" "length ss = oc_sets oc"
  shows "outcome_ok kv req present gs ss (finish_outcome kv (kq_input_tokens req) oc)"
proof -
  let ?o = "finish_outcome kv (kq_input_tokens req) oc"
  have "0 < oc_new_tokens ?o" if "0 < kq_input_tokens req"
    using cached_tokens_bounds(2) [OF that, of "oc_hit oc" "kr_chunk_tokens kv"] finish_outcome_fields(5,6) [of kv "kq_input_tokens req" oc]
    by linarith
  moreover have "oc_sets oc = (case kr_write_rule kv of SetFromMiss \<Rightarrow> length present - oc_gets oc | InsertIfAbsent \<Rightarrow> length (filter Not present))"
    using assms(5) by (simp add: select_sets_def length_filter_nth split: kv_write_rule.splits)
  ultimately show ?thesis
    using assms(1-4,6) finish_outcome_fields(6) [of kv "kq_input_tokens req" oc] cached_tokens_bounds(3) [of "oc_hit oc" "kr_chunk_tokens kv"]
    unfolding outcome_ok_def finish_outcome_fields(1-5) by auto
qed

lemma kv_load_sound:
  assumes laws: "client_laws C pend unf" "recv_law pend rcv" and idle: "pend (kc_client s) = []" and depth: "0 < depth"
    and r: "0 < r" and len: "hit * r \<le> length objects" and chunk: "\<And>i. i < length objects \<Longrightarrow> ko_chunk (objects ! i) = i div r"
    and order: "replies_in_order (hit * r) replies" and oc: "oc_hit oc = hit"
  shows "case kv_loop C rcv depth cmd clock (on_get objects) (hit * r) replies [0..<hit * r] (s, oc) of
      Loop_waiting s' \<Rightarrow> pend (kc_client s') \<noteq> []
    | Loop_failed s' e \<Rightarrow> \<exists>r. e = Fail_disconnect r
    | Loop_panic \<Rightarrow> False
    | Loop_done s' oc' rest \<Rightarrow> pend (kc_client s') = [] \<and>
        (\<exists>gs. replies = map Reply_meta gs @ rest \<and> length gs = hit * r \<and> oc_hit oc' = lookup_prefix (map loaded gs) r \<and>
              oc_lookup_hit oc' = oc_lookup_hit oc \<and> oc_gets oc' = oc_gets oc \<and> oc_sets oc' = oc_sets oc)"
    (is "case ?load of Loop_waiting s' \<Rightarrow> _ s' | Loop_failed s' e \<Rightarrow> _ e | Loop_panic \<Rightarrow> _ | Loop_done s' oc' rest \<Rightarrow> _ s' oc' rest")
proof -
  have "length (pend (kc_client s)) + length [0..<hit * r] = hit * r" using idle by simp
  note load = kv_loop_sound [OF laws depth on_get_handler [of objects] this, where cmd = cmd and clock = clock and replies = replies and a = oc]
  show ?thesis
  proof (cases ?load)
    case Loop_panic
    then obtain ms m rest where p: "replies = map Reply_meta ms @ Reply_meta m # rest" "length ms < hit * r" "\<not> unat (rm_user_data m) < length objects"
      using load by auto
    have "unat (rm_user_data ((ms @ [m]) ! length ms)) = length ms"
      by (rule replies_in_orderD [of "hit * r" _ rest]) (use order p in simp_all)
    then show ?thesis using p len by simp
  next
    case (Loop_done s' oc' rest)
    then obtain gs where gs: "replies = map Reply_meta gs @ rest" "length gs = hit * r" "oc' = fold (get_step objects) gs oc"
      and idle': "pend (kc_client s') = []" using load by auto
    have user: "unat (rm_user_data (gs ! i)) = i" if "i < length gs" for i
      by (rule replies_in_orderD [of "hit * r" _ rest]) (use order gs that in simp_all)
    have "oc_hit oc' = lookup_prefix (map loaded gs) r"
      using loaded_prefix [OF r gs(2) user, of objects] chunk len gs(2) unfolding gs(3) get_fold(1) oc by simp
    then show ?thesis using Loop_done idle' gs by (simp add: get_fold) blast
  qed (use load in simp_all)
qed


text \<open>A request of two chunks, of which the lookup finds the first: one GET, one SET.\<close>

definition demo_kv :: kv_replay where
  "demo_kv = \<lparr>kr_first_ts = 0, kr_chunk_tokens = 16, kr_ranks = 1,
     kr_objects = (\<lambda>cs. map (\<lambda>i. \<lparr>ko_id = cs ! i, ko_size = 100, ko_chunk = i\<rparr>) [0..<length cs]),
     kr_key_prefix = [], kr_key_format = KvHex, kr_write_rule = SetFromMiss, kr_speedup = Fin 0\<rparr>"

definition demo_kv_request :: kv_request where
  "demo_kv_request = \<lparr>kq_id = 1, kq_timestamp = 0, kq_input_tokens = 40, kq_chunks = [7, 8]\<rparr>"

definition demo_kv_conn :: "(queue_client, nat, nat) kv_conn" where
  "demo_kv_conn = \<lparr>kc_client = \<lparr>qc_pending = [], qc_buffered = 0\<rparr>, kc_rng = 0, kc_inflight = inflight_new 1000,
     kc_flight = \<lparr>fc_send_failed = 0, fc_timeouts = 0, fc_errors = 0\<rparr>,
     kc_metrics = \<lparr>m_responses = 0, m_errors = 0, m_hits = 0, m_misses = 0, m_gets = 0, m_sets = 0, m_deletes = 0, m_redirects = 0\<rparr>,
     kc_requests_sent = 0, kc_exists_count = 0, kc_get_nil = 0, kc_bytes_tx = 0, kc_bytes_rx = 0\<rparr>"

definition demo_kv_times :: kv_times where
  "demo_kv_times = \<lparr>kt_fired_at = 0, kt_load_clock = (\<lambda>_. 10), kt_store_clock = (\<lambda>_. 20), kt_lookup_ns = 5, kt_load_ns = 6, kt_store_ns = 7\<rparr>"

definition demo_kv_replies :: "kv_reply list" where
  "demo_kv_replies =
     [Reply_meta \<lparr>rm_kind = Kind_get, rm_success = True, rm_value_len = Some 100, rm_error = None, rm_user_data = 0, rm_latency_ns = 9\<rparr>,
      Reply_meta \<lparr>rm_kind = Kind_set, rm_success = True, rm_value_len = None, rm_error = None, rm_user_data = 1, rm_latency_ns = 9\<rparr>]"

definition qc_rcv :: "queue_client \<Rightarrow> queue_client" where
  "qc_rcv c = c\<lparr>qc_pending := tl (qc_pending c)\<rparr>"

lemma demo_kv_ok:
  "recv_law qc_pending qc_rcv" "mapper_law demo_kv" "qc_pending (kc_client demo_kv_conn) = []"
  "length [Some 1, Some (0 :: int)] = length (kr_objects demo_kv (kq_chunks demo_kv_request))"
  "replies_in_order (lookup_prefix (present_of [Some 1, Some 0]) (kr_ranks demo_kv) * kr_ranks demo_kv) demo_kv_replies"
  by (simp_all add: recv_law_def qc_rcv_def mapper_law_def demo_kv_def demo_kv_conn_def demo_kv_request_def replies_in_order_def
      demo_kv_replies_def lookup_prefix_def present_of_def chunks.simps)


end
