(* ===== verification/Kv_Dispatch.thy ===== *)
theory Kv_Dispatch
  imports Kv_Request
begin

text \<open>
  Handing the requests of a KV-cache trace to connections (\<open>src/kvreplay.rs\<close>): the thread that reads the
  trace into a bounded channel, the dispatcher of each worker (\<open>KvDispatcher\<close>, \<open>run_dispatcher\<close>) and the loop
  of a connection around \<open>run_request\<close> (\<open>drive\<close>).

  Slots are shared by the dispatcher and the waiting connection, so they live in a store, as those of
  \<open>Dispatch\<close>. The operations of a worker run on its thread one at a time, cut at the awaits; workers, the
  reader and the runner interleave. The result of a request is an argument here; \<open>Kv_Request\<close> says what it is.
\<close>

section \<open>Jobs, slots and the dispatcher\<close>

record kv_job =
  kj_req :: kv_request
  kj_scheduled :: "nat option"
  kj_retried :: bool
  kj_dead_handovers :: nat

definition kv_job_new :: "kv_request \<Rightarrow> nat option \<Rightarrow> kv_job" where
  "kv_job_new req scheduled = \<lparr>kj_req = req, kj_scheduled = scheduled, kj_retried = False, kj_dead_handovers = 0\<rparr>"

datatype hand_back = Unsent | LookupSent

record kv_slot =
  ks_job :: "kv_job option"
  ks_done :: bool
  ks_waker :: bool \<comment> \<open>a waker is registered\<close>
  ks_woken :: bool \<comment> \<open>the waker has been woken\<close>

definition kv_slot_complete :: "kv_slot \<Rightarrow> kv_job option \<Rightarrow> kv_slot" where
  "kv_slot_complete s job =
     (let s = s\<lparr>ks_job := job, ks_done := True\<rparr>
      in if ks_waker s then s\<lparr>ks_waker := False, ks_woken := True\<rparr> else s)"

record kv_dispatcher =
  kd_slots :: "kv_slot list"
  kd_waiting :: "nat list"
  kd_closed :: bool
  kd_idle :: bool \<comment> \<open>the dispatcher task's waker is registered\<close>
  kd_idle_woken :: bool
  kd_returned :: "(kv_job \<times> nat) list"
  kd_wants_slot :: bool
  kd_connections :: nat
  kd_live :: nat
  kd_connect_failures :: nat

definition kv_dispatcher_new :: "nat \<Rightarrow> kv_dispatcher" where
  "kv_dispatcher_new connections =
     \<lparr>kd_slots = [], kd_waiting = [], kd_closed = False, kd_idle = False, kd_idle_woken = False, kd_returned = [],
      kd_wants_slot = False, kd_connections = connections, kd_live = 0, kd_connect_failures = 0\<rparr>"

definition wake_idle :: "kv_dispatcher \<Rightarrow> kv_dispatcher" where
  "wake_idle d = (if kd_idle d then d\<lparr>kd_idle := False, kd_idle_woken := True\<rparr> else d)"

text \<open>\<open>next_job\<close> up to its await: \<open>None\<close> when the dispatcher has closed, else the slot to wait on.\<close>

definition next_job :: "kv_dispatcher \<Rightarrow> kv_dispatcher \<times> nat option" where
  "next_job d =
     (if kd_closed d then (d, None)
      else let slot = \<lparr>ks_job = None, ks_done = False, ks_waker = False, ks_woken = False\<rparr>;
               i = length (kd_slots d);
               d = d\<lparr>kd_slots := kd_slots d @ [slot], kd_waiting := kd_waiting d @ [i]\<rparr>;
               d = (if kd_wants_slot d then wake_idle d else d)
           in (d, Some i))"

text \<open>\<open>SlotWait::poll\<close>: whether the slot is done; if not, the waker is registered.\<close>

definition slot_poll :: "kv_dispatcher \<Rightarrow> nat \<Rightarrow> kv_dispatcher \<times> bool" where
  "slot_poll d i =
     (let s = kd_slots d ! i in
      if ks_done s then (d, True) else (d\<lparr>kd_slots := (kd_slots d)[i := s\<lparr>ks_waker := True\<rparr>]\<rparr>, False))"

text \<open>\<open>slot.job.take()\<close>.\<close>

definition slot_take :: "kv_dispatcher \<Rightarrow> nat \<Rightarrow> kv_dispatcher \<times> kv_job option" where
  "slot_take d i =
     (let s = kd_slots d ! i in (d\<lparr>kd_slots := (kd_slots d)[i := s\<lparr>ks_job := None\<rparr>]\<rparr>, ks_job s))"

definition give_back :: "kv_dispatcher \<Rightarrow> kv_job \<Rightarrow> hand_back \<Rightarrow> kv_dispatcher \<times> bool" where
  "give_back d job why =
     (case (case why of
              Unsent \<Rightarrow> if kj_dead_handovers job \<ge> max (kd_connections d) 1 then None
                        else Some (job\<lparr>kj_dead_handovers := kj_dead_handovers job + 1\<rparr>)
            | LookupSent \<Rightarrow> if kj_retried job then None else Some (job\<lparr>kj_retried := True\<rparr>)) of
        None \<Rightarrow> (d, False)
      | Some job \<Rightarrow> (wake_idle (d\<lparr>kd_returned := kd_returned d @ [(job, kd_connect_failures d)]\<rparr>), True))"

definition kv_close :: "kv_dispatcher \<Rightarrow> kv_dispatcher" where
  "kv_close d = d\<lparr>kd_closed := True,
      kd_slots := foldl (\<lambda>ss i. ss[i := kv_slot_complete (ss ! i) None]) (kd_slots d) (kd_waiting d),
      kd_waiting := []\<rparr>"

definition note_connect_failed :: "kv_dispatcher \<Rightarrow> kv_dispatcher" where
  "note_connect_failed d = d\<lparr>kd_connect_failures := kd_connect_failures d + 1\<rparr>"

definition live_new :: "kv_dispatcher \<Rightarrow> kv_dispatcher" where
  "live_new d = d\<lparr>kd_live := kd_live d + 1\<rparr>"

definition live_drop :: "kv_dispatcher \<Rightarrow> kv_dispatcher" where
  "live_drop d = d\<lparr>kd_live := kd_live d - 1\<rparr>"

section \<open>The reader thread and the replay's shared state\<close>

abbreviation READ_AHEAD :: nat where "READ_AHEAD \<equiv> 16384"

datatype reader_at =
    Reading
  | Sending kv_request \<comment> \<open>counted, and blocked in \<open>send\<close> while the channel is full\<close>
  | Stopping \<comment> \<open>\<open>stopped\<close> is set, the channel's sender not yet dropped\<close>
  | Gone

record kv_shared =
  sv_rest :: "(string + kv_request) list" \<comment> \<open>what the reader has not read yet\<close>
  sv_reader :: reader_at
  sv_sent :: nat
  sv_stopped :: bool
  sv_error :: "string option"
  sv_channel :: "kv_request list"
  sv_start :: "nat option"
  sv_finished :: nat
  sv_metrics :: kv_metrics
  sv_schedule_lag :: "nat list"
  sv_read_waits :: nat
  sv_log :: "(kv_request \<times> nat option \<times> outcome \<times> bool) list option" \<comment> \<open>rows of \<open>requests_out\<close>\<close>

datatype claim = Claim_request kv_request | Not_ready | Exhausted

definition set_once :: "'a option \<Rightarrow> 'a \<Rightarrow> 'a option" where
  "set_once c v = (case c of None \<Rightarrow> Some v | Some w \<Rightarrow> Some w)"

definition reader_stop :: "kv_shared \<Rightarrow> kv_shared" where
  "reader_stop sh = sh\<lparr>sv_stopped := True, sv_reader := Stopping\<rparr>"

text \<open>
  One step of the reader thread; \<open>panicked\<close> when reading the next request panics. \<open>None\<close> when it is
  blocked or has ended.
\<close>

definition reader_step :: "bool \<Rightarrow> kv_shared \<Rightarrow> kv_shared option" where
  "reader_step panicked sh =
     (case sv_reader sh of
        Reading \<Rightarrow>
          Some (if panicked then
                  reader_stop (sh\<lparr>sv_error := set_once (sv_error sh) ''kv_replay: the trace reader thread panicked''\<rparr>)
                else case sv_rest sh of
                       [] \<Rightarrow> reader_stop sh
                     | Inr req # rest \<Rightarrow> sh\<lparr>sv_rest := rest, sv_sent := sv_sent sh + 1, sv_reader := Sending req\<rparr>
                     | Inl e # rest \<Rightarrow> reader_stop (sh\<lparr>sv_rest := rest, sv_error := set_once (sv_error sh) e\<rparr>))
      | Sending req \<Rightarrow>
          if length (sv_channel sh) < READ_AHEAD
          then Some (sh\<lparr>sv_channel := sv_channel sh @ [req], sv_reader := Reading\<rparr>) else None
      | Stopping \<Rightarrow> Some (sh\<lparr>sv_reader := Gone\<rparr>)
      | Gone \<Rightarrow> None)"

definition kv_claim :: "kv_shared \<Rightarrow> kv_shared \<times> claim" where
  "kv_claim sh =
     (case sv_channel sh of
        req # ch \<Rightarrow> (sh\<lparr>sv_channel := ch\<rparr>, Claim_request req)
      | [] \<Rightarrow> (sh, if sv_reader sh = Gone then Exhausted else Not_ready))"

definition kv_start_clock :: "nat \<Rightarrow> kv_shared \<Rightarrow> kv_shared" where
  "kv_start_clock t sh = sh\<lparr>sv_start := set_once (sv_start sh) t\<rparr>"

definition kv_is_finished :: "kv_shared \<Rightarrow> bool" where
  "kv_is_finished sh \<longleftrightarrow> sv_stopped sh \<and> sv_finished sh \<ge> sv_sent sh"

text \<open>The condition on which \<open>wait_read_ahead\<close> goes on sleeping.\<close>

definition read_ahead_waits :: "bool \<Rightarrow> kv_shared \<Rightarrow> bool" where
  "read_ahead_waits running sh \<longleftrightarrow> \<not> sv_stopped sh \<and> length (sv_channel sh) < READ_AHEAD \<and> running"

definition mark_finished :: "kv_shared \<Rightarrow> kv_shared" where
  "mark_finished sh = sh\<lparr>sv_finished := sv_finished sh + 1\<rparr>"

definition count_failed :: "kv_shared \<Rightarrow> kv_shared" where
  "count_failed sh = sh\<lparr>sv_metrics := (sv_metrics sh)\<lparr>km_requests_failed := km_requests_failed (sv_metrics sh) + 1\<rparr>\<rparr>"

definition write_row :: "kv_request \<Rightarrow> nat option \<Rightarrow> outcome \<Rightarrow> bool \<Rightarrow> kv_shared \<Rightarrow> kv_shared" where
  "write_row req lag oc recorded sh =
     (case sv_log sh of None \<Rightarrow> sh | Some rows \<Rightarrow> sh\<lparr>sv_log := Some (rows @ [(req, lag, oc, recorded)])\<rparr>)"

section \<open>A round of the dispatcher task\<close>

abbreviation START_POLL :: nat where "START_POLL \<equiv> 1000000"

datatype kv_round_end = Kv_stopped | Kv_sleep nat | Kv_again | Kv_wait bool nat

record kv_task =
  kt_exhausted :: bool
  kt_pending :: "kv_job option"

definition hand_over :: "kv_job option \<Rightarrow> kv_dispatcher \<Rightarrow> kv_dispatcher" where
  "hand_over job d =
     (let i = hd (kd_waiting d) in
      d\<lparr>kd_waiting := tl (kd_waiting d), kd_slots := (kd_slots d)[i := kv_slot_complete (kd_slots d ! i) job]\<rparr>)"

text \<open>The while loop that fails handed-back requests after a failed reconnect.\<close>

fun fail_returned :: "nat \<Rightarrow> (kv_job \<times> nat) list \<Rightarrow> kv_shared \<Rightarrow> (kv_job \<times> nat) list \<times> kv_shared" where
  "fail_returned failures [] sh = ([], sh)"
| "fail_returned failures ((job, was) # rs) sh =
     (if failures > was then fail_returned failures rs (count_failed (mark_finished sh)) else ((job, was) # rs, sh))"

definition is_due :: "nat \<Rightarrow> kv_job \<Rightarrow> bool" where
  "is_due now job \<longleftrightarrow> (case kj_scheduled job of None \<Rightarrow> True | Some d \<Rightarrow> d \<le> now)"

text \<open>With no live connection: a held request that is due joins the handed-back ones, and those fail after a failed reconnect.\<close>

definition no_live_rules :: "nat \<Rightarrow> kv_shared \<Rightarrow> kv_dispatcher \<Rightarrow> kv_task \<Rightarrow> kv_shared \<times> kv_dispatcher \<times> kv_task" where
  "no_live_rules now sh d t =
     (if kd_live d = 0 then
        let (d, t) = (case kt_pending t of
                        Some job \<Rightarrow> if is_due now job
                                    then (d\<lparr>kd_returned := kd_returned d @ [(job, kd_connect_failures d)]\<rparr>, t\<lparr>kt_pending := None\<rparr>)
                                    else (d, t)
                      | None \<Rightarrow> (d, t));
            (rs, sh) = fail_returned (kd_connect_failures d) (kd_returned d) sh
        in (sh, d\<lparr>kd_returned := rs\<rparr>, t)
      else (sh, d, t))"

definition kv_nap :: "nat option \<Rightarrow> bool \<Rightarrow> nat" where
  "kv_nap due_in reader_behind =
     (case due_in of
        Some d \<Rightarrow> if d \<noteq> 0 then min d IDLE_SLEEP_MAX else if reader_behind then START_POLL else IDLE_SLEEP_MAX
      | None \<Rightarrow> if reader_behind then START_POLL else IDLE_SLEEP_MAX)"

text \<open>The end of a round: hand the held request over if it is due, else wait.\<close>

definition serve_or_wait ::
  "nat \<Rightarrow> bool \<Rightarrow> bool \<Rightarrow> kv_dispatcher \<Rightarrow> kv_task \<Rightarrow> kv_dispatcher \<times> kv_task \<times> kv_round_end" where
  "serve_or_wait now has_slot reader_behind d t =
     (let due_in = map_option (\<lambda>j. case kj_scheduled j of None \<Rightarrow> 0 | Some due \<Rightarrow> due - now) (kt_pending t) in
      if has_slot \<and> due_in = Some 0 then (hand_over (kt_pending t) d, t\<lparr>kt_pending := None\<rparr>, Kv_again)
      else let needs_slot = (\<not> has_slot \<and> (due_in = Some 0 \<or> kd_returned d \<noteq> [] \<or> kt_pending t = None \<and> \<not> kt_exhausted t))
           in (d\<lparr>kd_wants_slot := needs_slot\<rparr>, t, Kv_wait needs_slot (kv_nap due_in reader_behind)))"

text \<open>The body of the loop of \<open>run_dispatcher\<close>, up to its wait; \<open>now\<close> and \<open>now'\<close> are its two clock readings.\<close>

definition kv_round ::
  "kv_replay \<Rightarrow> nat \<Rightarrow> nat \<Rightarrow> bool \<Rightarrow> kv_shared \<Rightarrow> kv_dispatcher \<Rightarrow> kv_task \<Rightarrow> kv_shared \<times> kv_dispatcher \<times> kv_task \<times> kv_round_end" where
  "kv_round kv now now' stop sh d t =
     (if stop then (sh, kv_close d, t, Kv_stopped)
      else case sv_start sh of
        None \<Rightarrow> (sh, d, t, Kv_sleep START_POLL)
      | Some start \<Rightarrow>
          let has_slot = (kd_waiting d \<noteq> []) in
          if has_slot \<and> kd_returned d \<noteq> [] then
            (sh, hand_over (Some (fst (hd (kd_returned d)))) (d\<lparr>kd_returned := tl (kd_returned d)\<rparr>), t, Kv_again)
          else
            let (sh, d, t) = no_live_rules now sh d t in
            if has_slot \<and> kt_pending t = None \<and> \<not> kt_exhausted t then
              (case kv_claim sh of
                 (sh, Claim_request req) \<Rightarrow> (sh, d, t\<lparr>kt_pending := Some (kv_job_new req (scheduled_at kv start req))\<rparr>, Kv_again)
               | (sh, Exhausted) \<Rightarrow> (sh, d, t\<lparr>kt_exhausted := True\<rparr>, Kv_again)
               | (sh, Not_ready) \<Rightarrow> (sh\<lparr>sv_read_waits := sv_read_waits sh + 1\<rparr>, serve_or_wait now' has_slot True d t))
            else (sh, serve_or_wait now' has_slot False d t))"

text \<open>
  A poll of the wait: \<open>fired\<close> when the timer has run out. Once it is over, \<open>wait_end\<close> is what the task does before
  its next round.
\<close>

definition kv_wait_poll :: "bool \<Rightarrow> bool \<Rightarrow> kv_dispatcher \<Rightarrow> kv_dispatcher \<times> bool" where
  "kv_wait_poll needs_slot fired d =
     (if kd_returned d \<noteq> [] \<and> kd_waiting d \<noteq> [] then (d, True)
      else if needs_slot \<and> kd_waiting d \<noteq> [] then (d, True)
      else (d\<lparr>kd_idle := True, kd_idle_woken := False\<rparr>, fired))"

definition kv_wait_end :: "kv_dispatcher \<Rightarrow> kv_dispatcher" where
  "kv_wait_end d = d\<lparr>kd_wants_slot := False, kd_idle := False, kd_idle_woken := False\<rparr>"

section \<open>A connection\<close>

text \<open>
  Where a connection task is in \<open>drive\<close>: outside it (with what it returned last; \<open>Some\<close> the reason of a
  disconnect), at the top of its loop (also while it sleeps there), waiting on a slot, or running a request.
\<close>

datatype conn_at =
    Outside "disconnect_reason option"
  | At_top bool \<comment> \<open>\<open>ran_any\<close>\<close>
  | Waiting nat bool
  | Running_job kv_job "nat option"

definition drive_enter :: "kv_dispatcher \<Rightarrow> kv_dispatcher \<times> conn_at" where
  "drive_enter d = (live_new d, At_top False)"

definition drive_return :: "kv_dispatcher \<Rightarrow> disconnect_reason option \<Rightarrow> kv_dispatcher \<times> conn_at" where
  "drive_return d r = (live_drop d, Outside r)"

definition no_job :: "bool \<Rightarrow> bool \<Rightarrow> kv_dispatcher \<Rightarrow> kv_dispatcher \<times> conn_at" where
  "no_job stop ran_any d = (if stop then drive_return d None else (d, At_top ran_any))"

text \<open>The loop's top; \<open>stop'\<close> is what the phase says once \<open>next_job\<close> has returned without a job.\<close>

definition drive_turn :: "bool \<Rightarrow> bool \<Rightarrow> bool \<Rightarrow> bool \<Rightarrow> kv_dispatcher \<Rightarrow> kv_dispatcher \<times> conn_at" where
  "drive_turn stop stop' alive ran_any d =
     (if stop then drive_return d None
      else if \<not> alive then drive_return (if ran_any then d else note_connect_failed d) (Some Eof)
      else case next_job d of
             (d, None) \<Rightarrow> no_job stop' ran_any d
           | (d, Some i) \<Rightarrow> (fst (slot_poll d i), Waiting i ran_any))"

text \<open>A hand-back, or the request counted as failed when it has used them up; the connection is left.\<close>

definition hand_back_or_fail ::
  "kv_shared \<Rightarrow> kv_dispatcher \<Rightarrow> kv_job \<Rightarrow> hand_back \<Rightarrow> kv_shared \<times> kv_dispatcher \<times> conn_at" where
  "hand_back_or_fail sh d job why =
     (case give_back d job why of
        (d, True) \<Rightarrow> (sh, drive_return d (Some Eof))
      | (d, False) \<Rightarrow> (count_failed (mark_finished sh), drive_return d (Some Eof)))"

definition drive_poll ::
  "bool \<Rightarrow> bool \<Rightarrow> nat \<Rightarrow> kv_shared \<Rightarrow> kv_dispatcher \<Rightarrow> nat \<Rightarrow> bool \<Rightarrow> kv_shared \<times> kv_dispatcher \<times> conn_at" where
  "drive_poll stop alive now sh d i ran_any =
     (case slot_poll d i of
        (d, False) \<Rightarrow> (sh, d, Waiting i ran_any)
      | (d, True) \<Rightarrow>
          (case slot_take d i of
             (d, None) \<Rightarrow> (sh, no_job stop ran_any d)
           | (d, Some job) \<Rightarrow>
               if \<not> alive then hand_back_or_fail sh d job Unsent
               else (sh, d, Running_job job (map_option (\<lambda>due. now - due) (kj_scheduled job)))))"

definition drive_result ::
  "bool \<Rightarrow> kv_failure + outcome \<Rightarrow> kv_shared \<Rightarrow> kv_dispatcher \<Rightarrow> kv_job \<Rightarrow> nat option \<Rightarrow> kv_shared \<times> kv_dispatcher \<times> conn_at" where
  "drive_result recorded result sh d job lag =
     (case result of
        Inl Fail_closed \<Rightarrow> hand_back_or_fail sh d job LookupSent
      | Inr oc \<Rightarrow>
          let sh = mark_finished sh;
              sh = (case lag of Some l \<Rightarrow> sh\<lparr>sv_schedule_lag := l # sv_schedule_lag sh\<rparr> | None \<Rightarrow> sh);
              sh = sh\<lparr>sv_metrics := record_outcome (kj_req job) oc (sv_metrics sh)\<rparr>
          in (write_row (kj_req job) lag oc recorded sh, d, At_top True)
      | Inl Fail_request \<Rightarrow> (count_failed (mark_finished sh), d, At_top True)
      | Inl (Fail_disconnect reason) \<Rightarrow> (count_failed (mark_finished sh), drive_return d (Some reason)))"

section \<open>Workers and the whole replay\<close>

datatype task_at = Task_round | Task_wait bool | Task_over

record kv_worker =
  kw_d :: kv_dispatcher
  kw_task :: kv_task
  kw_at :: task_at
  kw_conns :: "conn_at list"

text \<open>\<open>start_dispatcher\<close>: a dispatcher whose task cannot be spawned is closed.\<close>

definition start_dispatcher :: "bool \<Rightarrow> nat \<Rightarrow> kv_worker" where
  "start_dispatcher spawned connections =
     (let d = kv_dispatcher_new connections in
      \<lparr>kw_d = (if spawned then d else kv_close d), kw_task = \<lparr>kt_exhausted = False, kt_pending = None\<rparr>,
       kw_at = (if spawned then Task_round else Task_over), kw_conns = replicate connections (Outside None)\<rparr>)"

text \<open>A round and the first poll of the wait it ends in, which are one turn of the task.\<close>

definition task_wait :: "bool \<Rightarrow> bool \<Rightarrow> kv_dispatcher \<Rightarrow> kv_dispatcher \<times> task_at" where
  "task_wait needs fired d =
     (case kv_wait_poll needs fired d of
        (d, True) \<Rightarrow> (kv_wait_end d, Task_round)
      | (d, False) \<Rightarrow> (d, Task_wait needs))"

definition task_turn :: "kv_replay \<Rightarrow> nat \<Rightarrow> nat \<Rightarrow> bool \<Rightarrow> kv_shared \<Rightarrow> kv_worker \<Rightarrow> kv_shared \<times> kv_worker" where
  "task_turn kv now now' stop sh w =
     (let (sh, d, t, e) = kv_round kv now now' stop sh (kw_d w) (kw_task w);
          (d, pos) = (case e of Kv_stopped \<Rightarrow> (d, Task_over) | Kv_wait needs _ \<Rightarrow> task_wait needs False d | _ \<Rightarrow> (d, Task_round))
      in (sh, w\<lparr>kw_d := d, kw_task := t, kw_at := pos\<rparr>))"

definition with_conn :: "nat \<Rightarrow> kv_worker \<Rightarrow> kv_shared \<times> kv_dispatcher \<times> conn_at \<Rightarrow> kv_shared \<times> kv_worker" where
  "with_conn j w r = (case r of (sh, d, c) \<Rightarrow> (sh, w\<lparr>kw_d := d, kw_conns := (kw_conns w)[j := c]\<rparr>))"

inductive worker_step :: "kv_replay \<Rightarrow> kv_shared \<Rightarrow> kv_worker \<Rightarrow> kv_shared \<times> kv_worker \<Rightarrow> bool" for kv sh w where
  round: "kw_at w = Task_round \<Longrightarrow> worker_step kv sh w (task_turn kv now now' stop sh w)"
| wait: "kw_at w = Task_wait needs \<Longrightarrow> task_wait needs fired (kw_d w) = (d, pos) \<Longrightarrow>
    worker_step kv sh w (sh, w\<lparr>kw_d := d, kw_at := pos\<rparr>)"
| connect_failed: "worker_step kv sh w (sh, w\<lparr>kw_d := note_connect_failed (kw_d w)\<rparr>)"
| enter: "j < length (kw_conns w) \<Longrightarrow> kw_conns w ! j = Outside r \<Longrightarrow>
    worker_step kv sh w (with_conn j w (sh, drive_enter (kw_d w)))"
| turn: "j < length (kw_conns w) \<Longrightarrow> kw_conns w ! j = At_top ran_any \<Longrightarrow>
    worker_step kv sh w (with_conn j w (sh, drive_turn stop stop' alive ran_any (kw_d w)))"
| poll: "j < length (kw_conns w) \<Longrightarrow> kw_conns w ! j = Waiting i ran_any \<Longrightarrow>
    worker_step kv sh w (with_conn j w (drive_poll stop alive now sh (kw_d w) i ran_any))"
| result: "j < length (kw_conns w) \<Longrightarrow> kw_conns w ! j = Running_job job lag \<Longrightarrow>
    worker_step kv sh w (with_conn j w (drive_result recorded result sh (kw_d w) job lag))"

inductive kv_step :: "kv_replay \<Rightarrow> kv_shared \<times> kv_worker list \<Rightarrow> kv_shared \<times> kv_worker list \<Rightarrow> bool" for kv where
  reader: "reader_step panicked sh = Some sh' \<Longrightarrow> kv_step kv (sh, ws) (sh', ws)"
| clock: "kv_step kv (sh, ws) (kv_start_clock start sh, ws)"
| worker: "k < length ws \<Longrightarrow> worker_step kv sh (ws ! k) (sh', w') \<Longrightarrow> kv_step kv (sh, ws) (sh', ws[k := w'])"

text \<open>Where a replay starts: the trace is opened, nothing is read, every worker has started its dispatcher.\<close>

definition kv_start :: "(string + kv_request) list \<Rightarrow> (bool \<times> nat) list \<Rightarrow> kv_shared \<Rightarrow> kv_shared \<times> kv_worker list \<Rightarrow> bool" where
  "kv_start trace workers sh s \<longleftrightarrow>
     s = (sh, map (\<lambda>(spawned, connections). start_dispatcher spawned connections) workers) \<and>
     sv_rest sh = trace \<and> sv_reader sh = Reading \<and> sv_sent sh = 0 \<and> \<not> sv_stopped sh \<and> sv_error sh = None \<and>
     sv_channel sh = [] \<and> sv_start sh = None \<and> sv_finished sh = 0"

section \<open>Where the requests are\<close>

definition opt_jobs :: "kv_job option \<Rightarrow> kv_job multiset" where
  "opt_jobs x = (case x of None \<Rightarrow> {#} | Some j \<Rightarrow> {#j#})"

lemma opt_jobs_simps [simp]: "opt_jobs None = {#}" "opt_jobs (Some j) = {#j#}"
  by (simp_all add: opt_jobs_def)

definition slot_jobs :: "kv_slot list \<Rightarrow> kv_job multiset" where
  "slot_jobs ss = (\<Sum>s\<leftarrow>ss. opt_jobs (ks_job s))"

definition conn_jobs :: "conn_at \<Rightarrow> kv_job multiset" where
  "conn_jobs c = (case c of Running_job job _ \<Rightarrow> {#job#} | _ \<Rightarrow> {#})"

definition disp_jobs :: "kv_dispatcher \<Rightarrow> kv_job multiset" where
  "disp_jobs d = mset (map fst (kd_returned d)) + slot_jobs (kd_slots d)"

definition worker_jobs :: "kv_worker \<Rightarrow> kv_job multiset" where
  "worker_jobs w = disp_jobs (kw_d w) + opt_jobs (kt_pending (kw_task w)) + (\<Sum>c\<leftarrow>kw_conns w. conn_jobs c)"

abbreviation requests_of :: "kv_job multiset \<Rightarrow> kv_request multiset" where
  "requests_of J \<equiv> image_mset kj_req J"

lemma slot_jobs_update:
  assumes "i < length ss"
  shows "slot_jobs (ss[i := s]) + opt_jobs (ks_job (ss ! i)) = slot_jobs ss + opt_jobs (ks_job s)"
  unfolding slot_jobs_def by (rule sum_list_at [OF assms, of "\<lambda>s. opt_jobs (ks_job s)"]) simp

lemma slot_jobs_keep: "ks_job s = ks_job (ss ! i) \<Longrightarrow> slot_jobs (ss[i := s]) = slot_jobs ss"
  using slot_jobs_update [of i ss s] by (cases "i < length ss") (auto simp: not_less list_update_beyond)

text \<open>
  Requests move between the channel and a worker, or are finished, one count each; the reader's side is not
  touched.
\<close>

definition moves :: "kv_shared \<Rightarrow> kv_job multiset \<Rightarrow> kv_shared \<Rightarrow> kv_job multiset \<Rightarrow> bool" where
  "moves sh J sh' J' \<longleftrightarrow>
     sv_rest sh' = sv_rest sh \<and> sv_reader sh' = sv_reader sh \<and> sv_sent sh' = sv_sent sh \<and> sv_stopped sh' = sv_stopped sh \<and>
     sv_error sh' = sv_error sh \<and> length (sv_channel sh') \<le> length (sv_channel sh) \<and>
     (\<exists>fin. mset (sv_channel sh') + requests_of J' + fin = mset (sv_channel sh) + requests_of J \<and>
            sv_finished sh' = sv_finished sh + size fin)"

lemma moves_refl [intro, simp]: "moves sh J sh J"
  by (simp add: moves_def)

lemma moves_trans:
  assumes "moves a A b B" and "moves b B c C"
  shows "moves a A c C"
proof -
  obtain f where f: "mset (sv_channel b) + requests_of B + f = mset (sv_channel a) + requests_of A" "sv_finished b = sv_finished a + size f"
    using assms(1) by (auto simp: moves_def)
  obtain g where g: "mset (sv_channel c) + requests_of C + g = mset (sv_channel b) + requests_of B" "sv_finished c = sv_finished b + size g"
    using assms(2) by (auto simp: moves_def)
  have "mset (sv_channel c) + requests_of C + (g + f) = mset (sv_channel a) + requests_of A"
    using f(1) g(1) by (metis add.assoc)
  then show ?thesis using assms f(2) g(2) by (auto simp: moves_def intro!: exI [of _ "g + f"])
qed

lemma moves_frame: "moves sh J sh' J' \<Longrightarrow> moves sh (J + K) sh' (J' + K)"
  unfolding moves_def by (auto simp: add.assoc)

lemma moves_finish: "moves sh (add_mset job J) (mark_finished sh) J" "moves sh (add_mset job J) (count_failed (mark_finished sh)) J"
  by (auto simp: moves_def mark_finished_def count_failed_def intro!: exI [of _ "{#kj_req job#}"])

lemma fail_returned_moves:
  "fail_returned n rs sh = (rs', sh') \<Longrightarrow> moves sh (mset (map fst rs)) sh' (mset (map fst rs')) \<and> set rs' \<subseteq> set rs \<and> sv_start sh' = sv_start sh"
proof (induction n rs sh rule: fail_returned.induct)
  case (2 failures job was rs sh)
  show ?case
  proof (cases "failures > was")
    case True
    then have "moves (count_failed (mark_finished sh)) (mset (map fst rs)) sh' (mset (map fst rs')) \<and> set rs' \<subseteq> set rs \<and> sv_start sh' = sv_start sh"
      using 2 by (simp add: count_failed_def mark_finished_def)
    then show ?thesis using moves_trans [OF moves_finish(2)] by (auto simp: subset_insertI2)
  qed (use 2 in auto)
qed simp

section \<open>Slots and their connections\<close>

text \<open>
  The waiting slots are exactly those not done; each has a registered waker and no job. A slot that is done has
  woken its connection. A closed dispatcher has no waiting slot.
\<close>

definition disp_wf :: "kv_dispatcher \<Rightarrow> bool" where
  "disp_wf d \<longleftrightarrow>
     distinct (kd_waiting d) \<and> set (kd_waiting d) = {i. i < length (kd_slots d) \<and> \<not> ks_done (kd_slots d ! i)} \<and>
     (\<forall>s\<in>set (kd_slots d). if ks_done s then ks_woken s else ks_waker s \<and> ks_job s = None) \<and>
     (kd_closed d \<longrightarrow> kd_waiting d = [])"

text \<open>The slots a connection has to come back to: not done, or with a job to take.\<close>

definition open_slots :: "kv_dispatcher \<Rightarrow> nat set" where
  "open_slots d = {i. i < length (kd_slots d) \<and> (\<not> ks_done (kd_slots d ! i) \<or> ks_job (kd_slots d ! i) \<noteq> None)}"

text \<open>What an operation of the dispatcher task leaves as it was for the connections.\<close>

definition keeps :: "kv_dispatcher \<Rightarrow> kv_dispatcher \<Rightarrow> bool" where
  "keeps d d' \<longleftrightarrow> disp_wf d' \<and> open_slots d' \<subseteq> open_slots d \<and> length (kd_slots d') = length (kd_slots d) \<and>
     kd_live d' = kd_live d \<and> kd_connections d' = kd_connections d"

lemma kv_slot_complete_fields [simp]:
  "ks_done (kv_slot_complete s job)" "\<not> ks_waker (kv_slot_complete s job)" "ks_job (kv_slot_complete s job) = job"
  "ks_woken (kv_slot_complete s job) = (ks_woken s \<or> ks_waker s)"
  by (simp_all add: kv_slot_complete_def Let_def)

lemma disp_wf_waiting:
  assumes "disp_wf d" and "i \<in> set (kd_waiting d)"
  shows "i < length (kd_slots d)" "\<not> ks_done (kd_slots d ! i)" "ks_waker (kd_slots d ! i)" "ks_job (kd_slots d ! i) = None"
  using assms nth_mem [of i "kd_slots d"] by (auto simp: disp_wf_def split: if_splits)

lemma keeps_same_slots:
  assumes "disp_wf d" and "kd_slots d' = kd_slots d" "kd_waiting d' = kd_waiting d" "kd_closed d' = kd_closed d"
    "kd_live d' = kd_live d" "kd_connections d' = kd_connections d"
  shows "keeps d d'"
  using assms by (simp add: keeps_def disp_wf_def open_slots_def)

text \<open>The first waiting slot is completed, with a job or without.\<close>

lemma complete_first:
  assumes wf: "disp_wf d" and w: "kd_waiting d = i # q"
    and d': "kd_slots d' = (kd_slots d)[i := kv_slot_complete (kd_slots d ! i) job]" "kd_waiting d' = q" "kd_closed d' = kd_closed d"
      "kd_live d' = kd_live d" "kd_connections d' = kd_connections d"
  shows "keeps d d'" "slot_jobs (kd_slots d') = slot_jobs (kd_slots d) + opt_jobs job"
proof -
  have i: "i < length (kd_slots d)" "\<not> ks_done (kd_slots d ! i)" "ks_waker (kd_slots d ! i)" "ks_job (kd_slots d ! i) = None"
    using disp_wf_waiting [OF wf, of i] w by auto
  have "set q = set (kd_waiting d) - {i}" "distinct q" using wf w by (auto simp: disp_wf_def)
  then have q: "distinct q" "set q = {k. k < length (kd_slots d') \<and> \<not> ks_done (kd_slots d' ! k)}"
    using wf i by (auto simp: disp_wf_def d' nth_list_update)
  have slots: "\<forall>s\<in>set (kd_slots d'). if ks_done s then ks_woken s else ks_waker s \<and> ks_job s = None"
    using wf i unfolding disp_wf_def d'(1) by (auto dest!: set_update_subset_insert [THEN subsetD])
  have "disp_wf d'" using q slots wf w by (auto simp: disp_wf_def d')
  moreover have "open_slots d' \<subseteq> open_slots d" using i by (auto simp: open_slots_def d' nth_list_update split: if_splits)
  ultimately show "keeps d d'" by (simp add: keeps_def d')
  show "slot_jobs (kd_slots d') = slot_jobs (kd_slots d) + opt_jobs job"
    using slot_jobs_update [OF i(1), of "kv_slot_complete (kd_slots d ! i) job"] i(4) by (simp add: d')
qed

lemma keeps_trans: "keeps a b \<Longrightarrow> keeps b c \<Longrightarrow> keeps a c"
  by (auto simp: keeps_def)

lemma hand_over_ok:
  assumes "disp_wf d" and "kd_waiting d \<noteq> []"
  shows "keeps d (hand_over job d)" "disp_jobs (hand_over job d) = disp_jobs d + opt_jobs job"
proof -
  obtain i q where w: "kd_waiting d = i # q" using assms(2) by (cases "kd_waiting d") auto
  have f: "kd_slots (hand_over job d) = (kd_slots d)[i := kv_slot_complete (kd_slots d ! i) job]" "kd_waiting (hand_over job d) = q"
    "kd_closed (hand_over job d) = kd_closed d" "kd_live (hand_over job d) = kd_live d"
    "kd_connections (hand_over job d) = kd_connections d" "kd_returned (hand_over job d) = kd_returned d"
    by (simp_all add: hand_over_def Let_def w)
  note C = complete_first [OF assms(1) w f(1-5)]
  show "keeps d (hand_over job d)" by (rule C(1))
  show "disp_jobs (hand_over job d) = disp_jobs d + opt_jobs job" using C(2) by (simp add: disp_jobs_def f)
qed

lemma close_loop:
  assumes "disp_wf d" and "kd_waiting d = q"
  shows "keeps d (d\<lparr>kd_slots := foldl (\<lambda>ss i. ss[i := kv_slot_complete (ss ! i) None]) (kd_slots d) q, kd_waiting := []\<rparr>)
    \<and> slot_jobs (foldl (\<lambda>ss i. ss[i := kv_slot_complete (ss ! i) None]) (kd_slots d) q) = slot_jobs (kd_slots d)"
  using assms
proof (induction q arbitrary: d)
  case Nil
  then show ?case using keeps_same_slots [OF Nil(1), of "d\<lparr>kd_waiting := []\<rparr>"] by simp
next
  case (Cons i q)
  let ?d = "d\<lparr>kd_slots := (kd_slots d)[i := kv_slot_complete (kd_slots d ! i) None], kd_waiting := q\<rparr>"
  have C: "keeps d ?d" "slot_jobs (kd_slots ?d) = slot_jobs (kd_slots d)"
    using complete_first [OF Cons.prems, of ?d None] by simp_all
  have wf: "disp_wf ?d" using C(1) by (simp add: keeps_def)
  from Cons.IH [OF wf] show ?case using C(2) keeps_trans [OF C(1)] by simp
qed

lemma kv_close_ok:
  assumes "disp_wf d"
  shows "keeps d (kv_close d)" "disp_jobs (kv_close d) = disp_jobs d" "kd_waiting (kv_close d) = []"
proof -
  define c where "c = d\<lparr>kd_slots := foldl (\<lambda>ss i. ss[i := kv_slot_complete (ss ! i) None]) (kd_slots d) (kd_waiting d), kd_waiting := []\<rparr>"
  have L: "keeps d c" "slot_jobs (kd_slots c) = slot_jobs (kd_slots d)" using close_loop [OF assms refl] by (simp_all add: c_def)
  have c: "kv_close d = c\<lparr>kd_closed := True\<rparr>" "kd_waiting c = []" "kd_returned c = kd_returned d" by (simp_all add: kv_close_def c_def)
  have "disp_wf (kv_close d)" using L(1) c(2) by (simp add: keeps_def disp_wf_def c(1))
  moreover have "open_slots (kv_close d) = open_slots c" by (simp add: open_slots_def c(1))
  ultimately show "keeps d (kv_close d)" using L(1) by (simp add: keeps_def c(1))
  show "disp_jobs (kv_close d) = disp_jobs d" "kd_waiting (kv_close d) = []" using L(2) c by (simp_all add: disp_jobs_def)
qed

section \<open>A round\<close>

definition bounded :: "nat \<Rightarrow> kv_job multiset \<Rightarrow> bool" where
  "bounded n J \<longleftrightarrow> (\<forall>j\<in>#J. kj_dead_handovers j \<le> max n 1)"

lemma bounded_simps [simp]:
  "bounded n {#}" "bounded n (J + K) \<longleftrightarrow> bounded n J \<and> bounded n K" "bounded n (add_mset j J) \<longleftrightarrow> kj_dead_handovers j \<le> max n 1 \<and> bounded n J"
  by (auto simp: bounded_def)

definition held_jobs :: "kv_dispatcher \<Rightarrow> kv_task \<Rightarrow> kv_job multiset" where
  "held_jobs d t = disp_jobs d + opt_jobs (kt_pending t)"

lemma fst_image_mono: "set rs' \<subseteq> set rs \<Longrightarrow> bounded n (mset (map fst rs)) \<Longrightarrow> bounded n (mset (map fst rs'))"
  by (auto simp: bounded_def)

lemma fail_returned_ok:
  assumes wf: "disp_wf d" and f: "fail_returned n (kd_returned d) sh = (rs, sh')"
  shows "keeps d (d\<lparr>kd_returned := rs\<rparr>)" "moves sh (held_jobs d t) sh' (held_jobs (d\<lparr>kd_returned := rs\<rparr>) t)"
    "bounded m (held_jobs d t) \<longrightarrow> bounded m (held_jobs (d\<lparr>kd_returned := rs\<rparr>) t)" "sv_start sh' = sv_start sh"
proof -
  show "keeps d (d\<lparr>kd_returned := rs\<rparr>)" by (rule keeps_same_slots [OF wf]) simp_all
  note F = fail_returned_moves [OF f]
  have "moves sh (mset (map fst (kd_returned d)) + (slot_jobs (kd_slots d) + opt_jobs (kt_pending t))) sh'
      (mset (map fst rs) + (slot_jobs (kd_slots d) + opt_jobs (kt_pending t)))" using F by (intro moves_frame) simp
  then show "moves sh (held_jobs d t) sh' (held_jobs (d\<lparr>kd_returned := rs\<rparr>) t)" by (simp add: held_jobs_def disp_jobs_def add.assoc)
  show "bounded m (held_jobs d t) \<longrightarrow> bounded m (held_jobs (d\<lparr>kd_returned := rs\<rparr>) t)"
    using F fst_image_mono [of rs "kd_returned d" m] by (simp add: held_jobs_def disp_jobs_def)
  show "sv_start sh' = sv_start sh" using F by simp
qed

lemma no_live_rules_ok:
  assumes wf: "disp_wf d" and r: "no_live_rules now sh d t = (sh', d', t')"
  shows "keeps d d' \<and> moves sh (held_jobs d t) sh' (held_jobs d' t') \<and> (bounded m (held_jobs d t) \<longrightarrow> bounded m (held_jobs d' t')) \<and>
     kd_waiting d' = kd_waiting d"
proof (cases "kd_live d = 0")
  case False
  then show ?thesis
    using r keeps_same_slots [OF wf, of d] by (simp add: no_live_rules_def)
next
  case True
  define p where "p = (case kt_pending t of Some job \<Rightarrow> is_due now job | None \<Rightarrow> False)"
  define d1 where "d1 = (if p then d\<lparr>kd_returned := kd_returned d @ [(the (kt_pending t), kd_connect_failures d)]\<rparr> else d)"
  define t1 where "t1 = (if p then t\<lparr>kt_pending := None\<rparr> else t)"
  obtain rs sh1 where f: "fail_returned (kd_connect_failures d1) (kd_returned d1) sh = (rs, sh1)" by fastforce
  have e: "sh' = sh1" "d' = d1\<lparr>kd_returned := rs\<rparr>" "t' = t1"
    using r True f by (auto simp: no_live_rules_def p_def d1_def t1_def Let_def split: option.splits if_splits)
  have h: "held_jobs d1 t1 = held_jobs d t"
    by (auto simp: held_jobs_def disp_jobs_def d1_def t1_def p_def split: option.splits)
  have k1: "keeps d d1" by (rule keeps_same_slots [OF wf]) (simp_all add: d1_def)
  then have wf1: "disp_wf d1" by (simp add: keeps_def)
  note F = fail_returned_ok [OF wf1 f]
  show ?thesis
    using keeps_trans [OF k1 F(1)] F(2) [of t1] F(3) [of m t1] True unfolding e h by (simp add: d1_def)
qed

text \<open>What a round leaves for the wait it ends in.\<close>

definition wait_ready :: "kv_round_end \<Rightarrow> kv_dispatcher \<Rightarrow> bool" where
  "wait_ready e d \<longleftrightarrow>
     (case e of Kv_wait needs _ \<Rightarrow> kd_wants_slot d = needs | Kv_stopped \<Rightarrow> kd_waiting d = [] | _ \<Rightarrow> True)"

lemma serve_or_wait_ok:
  assumes wf: "disp_wf d" and hs: "has_slot = (kd_waiting d \<noteq> [])"
    and s: "serve_or_wait now has_slot rb d t = (d', t', e)"
  shows "keeps d d' \<and> held_jobs d' t' = held_jobs d t \<and> wait_ready e d'"
proof -
  define due_in where "due_in = map_option (\<lambda>j. case kj_scheduled j of None \<Rightarrow> 0 | Some due \<Rightarrow> due - now) (kt_pending t)"
  define needs where "needs \<longleftrightarrow> \<not> has_slot \<and> (due_in = Some 0 \<or> kd_returned d \<noteq> [] \<or> kt_pending t = None \<and> \<not> kt_exhausted t)"
  note s' = s [unfolded serve_or_wait_def due_in_def [symmetric] Let_def needs_def [symmetric]]
  show ?thesis
  proof (cases "has_slot \<and> due_in = Some 0")
    case True
    then have "d' = hand_over (kt_pending t) d" "t' = t\<lparr>kt_pending := None\<rparr>" "e = Kv_again" using s' by auto
    then show ?thesis using hand_over_ok [OF wf, of "kt_pending t"] True hs by (simp add: held_jobs_def wait_ready_def)
  next
    case False
    have e: "d' = d\<lparr>kd_wants_slot := needs\<rparr>" "t' = t" "e = Kv_wait needs (kv_nap due_in rb)" using s' unfolding if_not_P [OF False] by simp_all
    have "keeps d d'" by (rule keeps_same_slots [OF wf]) (simp_all add: e)
    then show ?thesis by (simp add: e held_jobs_def disp_jobs_def wait_ready_def)
  qed
qed

lemma claim_moves:
  assumes "kv_claim sh = (sh', Claim_request req)" and "kt_pending t = None"
  shows "moves sh (held_jobs d t) sh' (held_jobs d (t\<lparr>kt_pending := Some (kv_job_new req x)\<rparr>))"
proof -
  obtain ch where "sv_channel sh = req # ch" "sh' = sh\<lparr>sv_channel := ch\<rparr>"
    using assms(1) by (auto simp: kv_claim_def split: list.splits if_splits)
  then show ?thesis using assms(2) by (simp add: moves_def held_jobs_def kv_job_new_def)
qed

lemma kv_round_ok:
  assumes wf: "disp_wf d" and r: "kv_round kv now now' stop sh d t = (sh', d', t', e)"
  shows "keeps d d' \<and> moves sh (held_jobs d t) sh' (held_jobs d' t') \<and> (bounded m (held_jobs d t) \<longrightarrow> bounded m (held_jobs d' t')) \<and> wait_ready e d'"
proof (cases "stop \<or> sv_start sh = None")
  case True
  then show ?thesis using r kv_close_ok [OF wf] keeps_same_slots [OF wf, of d]
    by (cases stop) (auto simp: kv_round_def held_jobs_def wait_ready_def)
next
  case False
  then obtain start where start: "\<not> stop" "sv_start sh = Some start" by auto
  show ?thesis
  proof (cases "kd_waiting d \<noteq> [] \<and> kd_returned d \<noteq> []")
    case True
    define d0 where "d0 = d\<lparr>kd_returned := tl (kd_returned d)\<rparr>"
    have k: "keeps d d0" by (rule keeps_same_slots [OF wf]) (simp_all add: d0_def)
    have d': "d' = hand_over (Some (fst (hd (kd_returned d)))) d0" "t' = t" "sh' = sh" "e = Kv_again"
      using r start True by (simp_all add: kv_round_def d0_def)
    have "disp_wf d0" "kd_waiting d0 \<noteq> []" using k True by (simp_all add: keeps_def d0_def)
    note H = hand_over_ok [OF this, of "Some (fst (hd (kd_returned d)))"]
    have "held_jobs d' t' = held_jobs d t"
      using H(2) True by (cases "kd_returned d") (auto simp: held_jobs_def d' disp_jobs_def d0_def)
    then show ?thesis using keeps_trans [OF k H(1)] by (simp add: d' wait_ready_def)
  next
    case False
    obtain sh1 d1 t1 where n: "no_live_rules now sh d t = (sh1, d1, t1)" using prod_cases3 by blast
    have N: "keeps d d1" "moves sh (held_jobs d t) sh1 (held_jobs d1 t1)" "bounded m (held_jobs d t) \<longrightarrow> bounded m (held_jobs d1 t1)"
      "kd_waiting d1 = kd_waiting d" using no_live_rules_ok [OF wf n, of m] by simp_all
    have wf1: "disp_wf d1" using N(1) by (simp add: keeps_def)
    have serve: ?thesis if s: "serve_or_wait now' (kd_waiting d \<noteq> []) rb d1 t1 = (d', t', e)" and m: "moves sh1 (held_jobs d1 t1) sh' (held_jobs d1 t1)" for rb
      using serve_or_wait_ok [OF wf1 _ s] N keeps_trans [OF N(1)] moves_trans [OF N(2) m] by auto
    show ?thesis
    proof (cases "kd_waiting d \<noteq> [] \<and> kt_pending t1 = None \<and> \<not> kt_exhausted t1")
      case True
      obtain sh2 cl where c: "kv_claim sh1 = (sh2, cl)" by fastforce
      show ?thesis
      proof (cases cl)
        case (Claim_request req)
        then have d': "sh' = sh2" "d' = d1" "t' = t1\<lparr>kt_pending := Some (kv_job_new req (scheduled_at kv start req))\<rparr>" "e = Kv_again"
          using r start False True c n by (simp_all add: kv_round_def Let_def)
        have "moves sh1 (held_jobs d1 t1) sh' (held_jobs d' t')" unfolding d'
          by (rule claim_moves) (use c Claim_request True in simp_all)
        from moves_trans [OF N(2) this] show ?thesis using N(1,3) True by (simp add: d' held_jobs_def kv_job_new_def wait_ready_def)
      next
        case Not_ready
        then have s: "sh' = sh2\<lparr>sv_read_waits := sv_read_waits sh2 + 1\<rparr>" "serve_or_wait now' (kd_waiting d \<noteq> []) True d1 t1 = (d', t', e)"
          using r start False True c n by (simp_all add: kv_round_def Let_def)
        have "sh2 = sh1" using c Not_ready by (auto simp: kv_claim_def split: list.splits)
        then show ?thesis using s by (intro serve) (simp_all add: moves_def)
      next
        case Exhausted
        then have d': "sh' = sh2" "d' = d1" "t' = t1\<lparr>kt_exhausted := True\<rparr>" "e = Kv_again"
          using r start False True c n by (simp_all add: kv_round_def Let_def)
        have "sh2 = sh1" using c Exhausted by (auto simp: kv_claim_def split: list.splits)
        then show ?thesis using N(1-3) by (simp add: d' held_jobs_def wait_ready_def)
      qed
    next
      case w: False
      then have "sh' = sh1" "serve_or_wait now' (kd_waiting d \<noteq> []) False d1 t1 = (d', t', e)"
        using r start False n by (simp_all add: kv_round_def Let_def if_not_P [OF w])
      then show ?thesis by (intro serve) simp_all
    qed
  qed
qed

section \<open>A worker\<close>

text \<open>The slots the connections of a worker wait on.\<close>

definition waited :: "conn_at list \<Rightarrow> nat set" where
  "waited cs = {i. \<exists>r. Waiting i r \<in> set cs}"

definition in_drive :: "conn_at \<Rightarrow> bool" where
  "in_drive c \<longleftrightarrow> (case c of Outside _ \<Rightarrow> False | _ \<Rightarrow> True)"

text \<open>
  The task that waits for a connection is woken by the first one that asks.
\<close>

definition wait_wf :: "task_at \<Rightarrow> kv_dispatcher \<Rightarrow> bool" where
  "wait_wf pos d \<longleftrightarrow>
     (case pos of
        Task_wait needs \<Rightarrow> kd_wants_slot d = needs \<and>
          (kd_idle d \<and> needs \<longrightarrow> kd_waiting d = [])
      | Task_round \<Rightarrow> True
      | Task_over \<Rightarrow> kd_closed d)"

definition worker_wf :: "kv_worker \<Rightarrow> bool" where
  "worker_wf w \<longleftrightarrow>
     disp_wf (kw_d w) \<and> open_slots (kw_d w) \<subseteq> waited (kw_conns w) \<and> waited (kw_conns w) \<subseteq> {..<length (kd_slots (kw_d w))} \<and>
     kd_live (kw_d w) = length (filter in_drive (kw_conns w)) \<and>
     bounded (kd_connections (kw_d w)) (worker_jobs w) \<and> wait_wf (kw_at w) (kw_d w)"

lemma worker_jobs_alt: "worker_jobs w = held_jobs (kw_d w) (kw_task w) + (\<Sum>c\<leftarrow>kw_conns w. conn_jobs c)"
  by (simp add: worker_jobs_def held_jobs_def)

lemma waiting_open: "disp_wf d \<Longrightarrow> set (kd_waiting d) \<subseteq> open_slots d"
  by (auto simp: disp_wf_def open_slots_def)

text \<open>While a connection waits, one is live.\<close>

lemma worker_live:
  assumes "worker_wf w"
  shows "kd_live (kw_d w) = 0 \<longrightarrow> kd_waiting (kw_d w) = []"
proof (intro impI)
  assume "kd_live (kw_d w) = 0"
  then have "\<forall>c\<in>set (kw_conns w). \<not> in_drive c" using assms by (simp add: worker_wf_def filter_empty_conv)
  then have "waited (kw_conns w) = {}" by (fastforce simp: waited_def in_drive_def)
  then have "set (kd_waiting (kw_d w)) = {}" using waiting_open [of "kw_d w"] assms by (auto simp: worker_wf_def)
  then show "kd_waiting (kw_d w) = []" by simp
qed

text \<open>An operation of the task keeps the worker in order.\<close>

lemma worker_keeps:
  assumes wf: "worker_wf w" and k: "keeps (kw_d w) d'" and m: "moves sh (held_jobs (kw_d w) (kw_task w)) sh' (held_jobs d' t')"
    and b: "bounded (kd_connections (kw_d w)) (held_jobs (kw_d w) (kw_task w)) \<longrightarrow> bounded (kd_connections (kw_d w)) (held_jobs d' t')"
    and p: "wait_wf pos d'"
  shows "worker_wf (w\<lparr>kw_d := d', kw_task := t', kw_at := pos\<rparr>) \<and> moves sh (worker_jobs w) sh' (worker_jobs (w\<lparr>kw_d := d', kw_task := t', kw_at := pos\<rparr>))"
proof -
  let ?w = "w\<lparr>kw_d := d', kw_task := t', kw_at := pos\<rparr>"
  have "bounded (kd_connections (kw_d w)) (worker_jobs ?w)" using wf b by (simp add: worker_wf_def worker_jobs_alt)
  then have "worker_wf ?w" using wf k p unfolding worker_wf_def keeps_def by auto
  moreover have "moves sh (worker_jobs w) sh' (worker_jobs ?w)" unfolding worker_jobs_alt by (simp add: moves_frame [OF m])
  ultimately show ?thesis by simp
qed

lemma task_wait_ok:
  assumes wf: "disp_wf d" and needs: "kd_wants_slot d = needs" and w: "task_wait needs fired d = (d', pos)"
  shows "keeps d d' \<and> disp_jobs d' = disp_jobs d \<and> wait_wf pos d'"
proof -
  have s: "kd_slots d' = kd_slots d" "kd_waiting d' = kd_waiting d" "kd_closed d' = kd_closed d" "kd_live d' = kd_live d"
    "kd_connections d' = kd_connections d" "kd_returned d' = kd_returned d" "wait_wf pos d'"
    using w needs by (cases fired; auto simp: task_wait_def kv_wait_poll_def kv_wait_end_def wait_wf_def split: if_splits)+
  have "keeps d d'" by (rule keeps_same_slots [OF wf s(1-5)])
  then show ?thesis by (simp add: s disp_jobs_def)
qed

lemma task_turn_ok:
  assumes wf: "worker_wf w" and t: "task_turn kv now now' stop sh w = (sh', w')"
  shows "worker_wf w' \<and> moves sh (worker_jobs w) sh' (worker_jobs w')"
proof -
  obtain d t' e where r: "kv_round kv now now' stop sh (kw_d w) (kw_task w) = (sh', d, t', e)"
    using t by (auto simp: task_turn_def Let_def split: prod.splits kv_round_end.splits)
  have dwf: "disp_wf (kw_d w)" using wf by (simp add: worker_wf_def)
  note R = kv_round_ok [OF dwf r, of "kd_connections (kw_d w)"]
  define d2 where "d2 = fst (case e of Kv_stopped \<Rightarrow> (d, Task_over) | Kv_wait needs _ \<Rightarrow> task_wait needs False d | _ \<Rightarrow> (d, Task_round))"
  define pos where "pos = snd (case e of Kv_stopped \<Rightarrow> (d, Task_over) | Kv_wait needs _ \<Rightarrow> task_wait needs False d | _ \<Rightarrow> (d, Task_round))"
  have w': "w' = w\<lparr>kw_d := d2, kw_task := t', kw_at := pos\<rparr>"
    using t r by (simp add: task_turn_def d2_def pos_def Let_def split: prod.splits)
  have "keeps d d2 \<and> disp_jobs d2 = disp_jobs d \<and> wait_wf pos d2"
  proof (cases e)
    case (Kv_wait needs nap)
    then have "task_wait needs False d = (d2, pos)" by (simp add: d2_def pos_def)
    then show ?thesis using R Kv_wait by (intro task_wait_ok) (auto simp: keeps_def wait_ready_def)
  next
    case Kv_stopped
    have "stop" using r Kv_stopped by (auto simp: kv_round_def serve_or_wait_def Let_def split: option.splits if_splits prod.splits claim.splits)
    then have "kd_closed d" using r by (simp add: kv_round_def kv_close_def split: if_splits) auto
    then show ?thesis using R Kv_stopped keeps_same_slots [of d d] by (simp add: d2_def pos_def wait_wf_def keeps_def)
  qed (use R keeps_same_slots [of d d] in \<open>simp_all add: d2_def pos_def wait_wf_def keeps_def\<close>)
  then have "keeps (kw_d w) d2" "held_jobs d2 t' = held_jobs d t'" "wait_wf pos d2" using keeps_trans R by (auto simp: held_jobs_def)
  then show ?thesis unfolding w' using R by (intro worker_keeps [OF wf]) simp_all
qed

lemma waited_update: "j < length cs \<Longrightarrow> waited cs - {i. \<exists>r. cs ! j = Waiting i r} \<subseteq> waited (cs[j := c])"
proof
  assume j: "j < length cs"
  fix i assume i: "i \<in> waited cs - {i. \<exists>r. cs ! j = Waiting i r}"
  then obtain r k where k: "k < length cs" "cs ! k = Waiting i r" by (auto simp: waited_def in_set_conv_nth)
  with i have "k \<noteq> j" by auto
  with k have "cs[j := c] ! k = Waiting i r" "k < length (cs[j := c])" by simp_all
  then show "i \<in> waited (cs[j := c])" unfolding waited_def by (metis (mono_tags) mem_Collect_eq nth_mem)
qed

lemma waited_update_upper: "waited (cs[j := c]) \<subseteq> waited cs \<union> {i. \<exists>r. c = Waiting i r}"
  using set_update_subset_insert [of cs j c] by (auto simp: waited_def)

lemma worker_conn:
  assumes wf: "worker_wf w" and j: "j < length (kw_conns w)" "kw_conns w ! j = c0"
    and d': "disp_wf d'" "open_slots d' \<subseteq> waited ((kw_conns w)[j := c])" "\<And>i r. c = Waiting i r \<Longrightarrow> i < length (kd_slots d')"
      "length (kd_slots (kw_d w)) \<le> length (kd_slots d')"
      "kd_live d' + of_bool (in_drive c0) = kd_live (kw_d w) + of_bool (in_drive c)"
      "kd_connections d' = kd_connections (kw_d w)" "wait_wf (kw_at w) d'"
    and m: "moves sh (disp_jobs (kw_d w) + conn_jobs c0) sh' (disp_jobs d' + conn_jobs c)"
    and b: "bounded (kd_connections d') (disp_jobs (kw_d w) + conn_jobs c0) \<longrightarrow> bounded (kd_connections d') (disp_jobs d' + conn_jobs c)"
  shows "worker_wf (w\<lparr>kw_d := d', kw_conns := (kw_conns w)[j := c]\<rparr>) \<and>
    moves sh (worker_jobs w) sh' (worker_jobs (w\<lparr>kw_d := d', kw_conns := (kw_conns w)[j := c]\<rparr>))"
proof -
  let ?w = "w\<lparr>kw_d := d', kw_conns := (kw_conns w)[j := c]\<rparr>"
  obtain K where K: "(\<Sum>c\<leftarrow>kw_conns w. conn_jobs c) = conn_jobs c0 + K" "\<And>y. (\<Sum>c\<leftarrow>(kw_conns w)[j := y]. conn_jobs c) = conn_jobs y + K"
    using sum_list_at [OF j(1), of conn_jobs] j(2) by metis
  obtain L where L: "(\<Sum>c\<leftarrow>kw_conns w. of_bool (in_drive c)) = of_bool (in_drive c0) + (L :: nat)"
      "\<And>y. (\<Sum>c\<leftarrow>(kw_conns w)[j := y]. of_bool (in_drive c)) = of_bool (in_drive y) + L"
    using sum_list_at [OF j(1), of "\<lambda>c. of_bool (in_drive c)"] j(2) by metis
  have len: "length (filter in_drive cs) = (\<Sum>c\<leftarrow>cs. of_bool (in_drive c))" for cs by (induction cs) auto
  have live: "kd_live d' = length (filter in_drive ((kw_conns w)[j := c]))"
    using wf d'(5) L(1) L(2) [of c] by (simp add: worker_wf_def len)
  have jobs: "worker_jobs w = disp_jobs (kw_d w) + conn_jobs c0 + (opt_jobs (kt_pending (kw_task w)) + K)"
    "worker_jobs ?w = disp_jobs d' + conn_jobs c + (opt_jobs (kt_pending (kw_task w)) + K)"
    using K by (simp_all add: worker_jobs_def add_ac)
  have mv: "moves sh (worker_jobs w) sh' (worker_jobs ?w)" unfolding jobs by (rule moves_frame [OF m])
  have bd: "bounded (kd_connections d') (worker_jobs ?w)" using wf b d'(6) unfolding worker_wf_def jobs by simp
  have "waited ((kw_conns w)[j := c]) \<subseteq> {..<length (kd_slots d')}"
  proof -
    have "waited (kw_conns w) \<subseteq> {..<length (kd_slots d')}" using wf d'(4) unfolding worker_wf_def by force
    moreover have "{i. \<exists>r. c = Waiting i r} \<subseteq> {..<length (kd_slots d')}" using d'(3) by auto
    ultimately show ?thesis using waited_update_upper [of "kw_conns w" j c] by blast
  qed
  then have "worker_wf ?w" using d'(1,2,7) live bd unfolding worker_wf_def by simp
  with mv show ?thesis by simp
qed

text \<open>Operations that leave the slots alone.\<close>

definition same_slots :: "kv_dispatcher \<Rightarrow> kv_dispatcher \<Rightarrow> bool" where
  "same_slots d d' \<longleftrightarrow> kd_slots d' = kd_slots d \<and> kd_waiting d' = kd_waiting d \<and> kd_closed d' = kd_closed d \<and>
     kd_connections d' = kd_connections d \<and> kd_wants_slot d' = kd_wants_slot d \<and> (kd_idle d' \<longrightarrow> kd_idle d)"

lemma same_slotsD:
  assumes "same_slots d d'"
  shows "disp_wf d \<Longrightarrow> disp_wf d'" "open_slots d' = open_slots d" "wait_wf pos d \<Longrightarrow> wait_wf pos d'"
    "length (kd_slots d') = length (kd_slots d)" "kd_connections d' = kd_connections d" "slot_jobs (kd_slots d') = slot_jobs (kd_slots d)"
  using assms by (auto simp: same_slots_def disp_wf_def open_slots_def wait_wf_def split: task_at.splits)

lemma worker_conn_same:
  assumes wf: "worker_wf w" and j: "j < length (kw_conns w)" "kw_conns w ! j = c0" and s: "same_slots (kw_d w) d'"
    and w0: "\<And>i r. c0 = Waiting i r \<Longrightarrow> i \<notin> open_slots (kw_d w)" and c: "\<And>i r. c \<noteq> Waiting i r"
    and live: "kd_live d' + of_bool (in_drive c0) = kd_live (kw_d w) + of_bool (in_drive c)"
    and m: "moves sh (disp_jobs (kw_d w) + conn_jobs c0) sh' (disp_jobs d' + conn_jobs c)"
    and b: "bounded (kd_connections d') (disp_jobs (kw_d w) + conn_jobs c0) \<longrightarrow> bounded (kd_connections d') (disp_jobs d' + conn_jobs c)"
  shows "worker_wf (w\<lparr>kw_d := d', kw_conns := (kw_conns w)[j := c]\<rparr>) \<and>
    moves sh (worker_jobs w) sh' (worker_jobs (w\<lparr>kw_d := d', kw_conns := (kw_conns w)[j := c]\<rparr>))"
proof (rule worker_conn [OF wf j _ _ _ _ live _ _ m b])
  note S = same_slotsD [OF s]
  show "disp_wf d'" "wait_wf (kw_at w) d'" "kd_connections d' = kd_connections (kw_d w)" "length (kd_slots (kw_d w)) \<le> length (kd_slots d')"
    using wf S by (simp_all add: worker_wf_def)
  show "open_slots d' \<subseteq> waited ((kw_conns w)[j := c])"
    using wf w0 j waited_update [OF j(1), of c] unfolding worker_wf_def S(2) by blast
qed (use c in auto)

abbreviation conn_update :: "kv_worker \<Rightarrow> nat \<Rightarrow> kv_dispatcher \<Rightarrow> conn_at \<Rightarrow> kv_worker" where
  "conn_update w j d c \<equiv> w\<lparr>kw_d := d, kw_conns := (kw_conns w)[j := c]\<rparr>"

lemma live_pos:
  assumes "worker_wf w" and "j < length (kw_conns w)" and "in_drive (kw_conns w ! j)"
  shows "0 < kd_live (kw_d w)"
  using assms by (auto simp: worker_wf_def filter_empty_conv)

lemma give_back_ok:
  assumes "give_back d job why = (d', ok)"
  shows "same_slots d d' \<and> kd_live d' = kd_live d \<and>
    (if ok then \<exists>job'. kj_req job' = kj_req job \<and> disp_jobs d' = add_mset job' (disp_jobs d) \<and>
                  (kj_dead_handovers job \<le> max (kd_connections d) 1 \<longrightarrow> kj_dead_handovers job' \<le> max (kd_connections d) 1)
     else d' = d)"
  using assms
  by (cases why; auto simp: give_back_def same_slots_def wake_idle_def disp_jobs_def max_def split: if_splits)

lemma hand_back_or_fail_ok:
  assumes h: "hand_back_or_fail sh d job why = (sh', d', c)" and "0 < kd_live d"
  shows "same_slots d d' \<and> c = Outside (Some Eof) \<and> kd_live d' + 1 = kd_live d \<and> moves sh (disp_jobs d + {#job#}) sh' (disp_jobs d') \<and>
    (bounded (kd_connections d) (disp_jobs d + {#job#}) \<longrightarrow> bounded (kd_connections d) (disp_jobs d'))"
proof -
  obtain d1 ok where g: "give_back d job why = (d1, ok)" by fastforce
  note G = give_back_ok [OF g]
  have d1: "same_slots d1 (live_drop d1)" "disp_jobs (live_drop d1) = disp_jobs d1" by (simp_all add: same_slots_def live_drop_def disp_jobs_def)
  have d': "d' = live_drop d1" "c = Outside (Some Eof)" "sh' = (if ok then sh else count_failed (mark_finished sh))"
    using h g by (cases ok; simp add: hand_back_or_fail_def drive_return_def)+
  have s: "same_slots d d'" "kd_live d' + 1 = kd_live d" using G d1 assms(2) by (auto simp: d' same_slots_def live_drop_def)
  show ?thesis
  proof (cases ok)
    case True
    then obtain job' where "kj_req job' = kj_req job" "disp_jobs d' = add_mset job' (disp_jobs d)"
        "kj_dead_handovers job \<le> max (kd_connections d) 1 \<longrightarrow> kj_dead_handovers job' \<le> max (kd_connections d) 1"
      using G d1 by (auto simp: d')
    then show ?thesis using s True by (simp add: d' moves_def)
  next
    case False
    then show ?thesis using s G d1 moves_finish(2) [of sh job "disp_jobs d"] by (simp add: d')
  qed
qed

lemma take_slot_ok:
  assumes wf: "worker_wf w" and j: "j < length (kw_conns w)" "kw_conns w ! j = Waiting i ran_any"
    and dn: "ks_done (kd_slots (kw_d w) ! i)" and t: "slot_take (kw_d w) i = (d1, job)"
    and c: "conn_jobs c = opt_jobs job" "in_drive c" "\<And>i r. c \<noteq> Waiting i r"
  shows "worker_wf (conn_update w j d1 c) \<and> moves sh (worker_jobs w) sh (worker_jobs (conn_update w j d1 c))"
proof -
  let ?d = "kw_d w" and ?s = "kd_slots (kw_d w) ! i"
  have i: "i < length (kd_slots ?d)" using wf nth_mem [OF j(1)] j(2) by (auto simp: worker_wf_def waited_def)
  have d1: "d1 = ?d\<lparr>kd_slots := (kd_slots ?d)[i := ?s\<lparr>ks_job := None\<rparr>]\<rparr>" "job = ks_job ?s" using t by (auto simp: slot_take_def Let_def)
  have dw: "disp_wf ?d" using wf by (simp add: worker_wf_def)
  have set: "{k. k < length (kd_slots d1) \<and> \<not> ks_done (kd_slots d1 ! k)} = {k. k < length (kd_slots ?d) \<and> \<not> ks_done (kd_slots ?d ! k)}"
    using i by (auto simp: d1 nth_list_update)
  have wk: "ks_woken ?s" using dw dn nth_mem [OF i] by (auto simp: disp_wf_def)
  have "\<forall>s\<in>set (kd_slots d1). if ks_done s then ks_woken s else ks_waker s \<and> ks_job s = None"
    using dw dn wk unfolding disp_wf_def d1(1) by (auto dest!: set_update_subset_insert [THEN subsetD])
  moreover have "kd_waiting d1 = kd_waiting ?d" "kd_closed d1 = kd_closed ?d" by (simp_all add: d1)
  ultimately have wf1: "disp_wf d1" using dw set unfolding disp_wf_def by simp
  have os: "open_slots d1 \<subseteq> open_slots ?d - {i}" using dn i by (auto simp: open_slots_def d1 nth_list_update split: if_splits)
  have jobs: "disp_jobs ?d = disp_jobs d1 + opt_jobs job"
    using slot_jobs_update [OF i, of "?s\<lparr>ks_job := None\<rparr>"] by (simp add: disp_jobs_def d1 add_ac)
  show ?thesis
  proof (rule worker_conn [OF wf j wf1])
    show "open_slots d1 \<subseteq> waited ((kw_conns w)[j := c])"
      using os wf j waited_update [OF j(1), of c] unfolding worker_wf_def by fastforce
    show "wait_wf (kw_at w) d1" using wf by (simp add: worker_wf_def wait_wf_def d1 split: task_at.splits)
    show "moves sh (disp_jobs ?d + conn_jobs (Waiting i ran_any)) sh (disp_jobs d1 + conn_jobs c)"
      using jobs c(1) by (simp add: conn_jobs_def)
    show "bounded (kd_connections d1) (disp_jobs ?d + conn_jobs (Waiting i ran_any)) \<longrightarrow> bounded (kd_connections d1) (disp_jobs d1 + conn_jobs c)"
      using jobs c(1) by (simp add: conn_jobs_def)
  qed (use c in \<open>auto simp: d1 in_drive_def\<close>)
qed

lemma conn_return_ok:
  assumes wf: "worker_wf w" and j: "j < length (kw_conns w)" "kw_conns w ! j = At_top ran_any"
    and d: "drive_return (if nt then note_connect_failed (kw_d w) else kw_d w) x = (d', c)"
  shows "worker_wf (conn_update w j d' c) \<and> moves sh (worker_jobs w) sh (worker_jobs (conn_update w j d' c))"
proof -
  have s: "same_slots (kw_d w) d'" "disp_jobs d' = disp_jobs (kw_d w)" "c = Outside x" "kd_live d' = kd_live (kw_d w) - 1"
    using d by (cases nt; auto simp: same_slots_def drive_return_def live_drop_def note_connect_failed_def disp_jobs_def)+
  have "0 < kd_live (kw_d w)" using live_pos [OF wf j(1)] j(2) by (simp add: in_drive_def)
  then have "kd_live d' + of_bool (in_drive (At_top ran_any)) = kd_live (kw_d w) + of_bool (in_drive c)" by (simp add: s in_drive_def)
  then show ?thesis by (intro worker_conn_same [OF wf j s(1)]) (simp_all add: s(2,3) conn_jobs_def)
qed

lemma next_job_ok:
  assumes "disp_wf d" and n: "next_job d = (d1, Some i)" and p: "d' = fst (slot_poll d1 i)"
  shows "disp_wf d' \<and> open_slots d' \<subseteq> insert i (open_slots d) \<and> i < length (kd_slots d') \<and> length (kd_slots d) \<le> length (kd_slots d') \<and>
    kd_live d' = kd_live d \<and> kd_connections d' = kd_connections d \<and> disp_jobs d' = disp_jobs d \<and> (wait_wf pos d \<longrightarrow> wait_wf pos d')"
proof -
  have cl: "\<not> kd_closed d" and i: "i = length (kd_slots d)" using n by (auto simp: next_job_def Let_def split: if_splits)
  let ?s = "\<lparr>ks_job = None, ks_done = False, ks_waker = True, ks_woken = False\<rparr>"
  have d': "kd_slots d' = kd_slots d @ [?s]" "kd_waiting d' = kd_waiting d @ [i]" "kd_closed d' = kd_closed d" "kd_live d' = kd_live d"
      "kd_connections d' = kd_connections d" "kd_returned d' = kd_returned d" "kd_wants_slot d' = kd_wants_slot d"
      "kd_idle d' = (kd_idle d \<and> \<not> kd_wants_slot d)"
    using n cl unfolding p next_job_def slot_poll_def Let_def wake_idle_def by (auto split: if_splits)
  have "set (kd_waiting d') = {k. k < length (kd_slots d') \<and> \<not> ks_done (kd_slots d' ! k)}"
    using assms(1) i unfolding disp_wf_def d' by (auto simp: nth_append less_Suc_eq)
  moreover have "distinct (kd_waiting d')" using assms(1) i unfolding disp_wf_def d' by auto
  ultimately have "disp_wf d'" using assms(1) cl unfolding disp_wf_def d' by auto
  moreover have "open_slots d' \<subseteq> insert i (open_slots d)" unfolding open_slots_def d' i by (auto simp: nth_append less_Suc_eq)
  moreover have "disp_jobs d' = disp_jobs d" by (simp add: disp_jobs_def d' slot_jobs_def)
  moreover have "wait_wf pos d \<longrightarrow> wait_wf pos d'" using cl by (auto simp: wait_wf_def d' split: task_at.splits)
  ultimately show ?thesis by (simp add: d' i)
qed

lemma drive_turn_ok:
  assumes wf: "worker_wf w" and j: "j < length (kw_conns w)" "kw_conns w ! j = At_top ran_any"
    and d: "drive_turn stop stop' alive ran_any (kw_d w) = (d', c)"
  shows "worker_wf (conn_update w j d' c) \<and> moves sh (worker_jobs w) sh (worker_jobs (conn_update w j d' c))"
proof (cases "stop \<or> \<not> alive")
  case True
  then have "drive_return (if \<not> stop \<and> \<not> ran_any then note_connect_failed (kw_d w) else kw_d w) (if stop then None else Some Eof) = (d', c)"
    using d by (cases stop; cases ran_any) (auto simp: drive_turn_def)
  then show ?thesis by (rule conn_return_ok [OF wf j])
next
  case False
  obtain d1 r where n: "next_job (kw_d w) = (d1, r)" by fastforce
  show ?thesis
  proof (cases r)
    case None
    then have e: "no_job stop' ran_any (kw_d w) = (d', c)" using d n False by (auto simp: drive_turn_def next_job_def Let_def split: if_splits)
    show ?thesis
    proof (cases stop')
      case True
      then have "drive_return (if False then note_connect_failed (kw_d w) else kw_d w) None = (d', c)" using e by (simp add: no_job_def)
      then show ?thesis by (rule conn_return_ok [OF wf j])
    next
      case False
      then show ?thesis using e wf j by (simp add: no_job_def list_update_id [of "kw_conns w" j, unfolded j(2)]) auto
    qed
  next
    case (Some i)
    then have e: "d' = fst (slot_poll d1 i)" "c = Waiting i ran_any" using d n False by (auto simp: drive_turn_def)
    have dw: "disp_wf (kw_d w)" "wait_wf (kw_at w) (kw_d w)" using wf by (simp_all add: worker_wf_def)
    note N = next_job_ok [OF dw(1) n [unfolded Some] e(1)]
    show ?thesis
    proof (rule worker_conn [OF wf j])
      have "waited (kw_conns w) \<subseteq> waited ((kw_conns w)[j := c])" using waited_update [OF j(1), of c] j(2) by auto
      moreover have "i \<in> waited ((kw_conns w)[j := c])" using j(1) by (auto simp: waited_def e(2) intro: set_update_memI)
      ultimately show "open_slots d' \<subseteq> waited ((kw_conns w)[j := c])" using N wf unfolding worker_wf_def by blast
    qed (use N dw in \<open>auto simp: e(2) in_drive_def conn_jobs_def\<close>)
  qed
qed

lemma drive_poll_ok:
  assumes wf: "worker_wf w" and j: "j < length (kw_conns w)" "kw_conns w ! j = Waiting i ran_any"
    and d: "drive_poll stop alive now sh (kw_d w) i ran_any = (sh', d', c)"
  shows "worker_wf (conn_update w j d' c) \<and> moves sh (worker_jobs w) sh' (worker_jobs (conn_update w j d' c))"
proof (cases "ks_done (kd_slots (kw_d w) ! i)")
  case False
  have i: "i < length (kd_slots (kw_d w))" using wf nth_mem [OF j(1)] j(2) by (auto simp: worker_wf_def waited_def)
  have "ks_waker (kd_slots (kw_d w) ! i)" using wf False nth_mem [OF i] by (auto simp: worker_wf_def disp_wf_def)
  then have "(kd_slots (kw_d w) ! i)\<lparr>ks_waker := True\<rparr> = kd_slots (kw_d w) ! i" by simp
  then have "d' = kw_d w" "c = Waiting i ran_any" "sh' = sh"
    using d False by (auto simp: drive_poll_def slot_poll_def Let_def)
  then show ?thesis using wf j by (simp add: list_update_id [of "kw_conns w" j, unfolded j(2)])
next
  case True
  obtain d1 job where t: "slot_take (kw_d w) i = (d1, job)" by fastforce
  have p: "slot_poll (kw_d w) i = (kw_d w, True)" using True by (simp add: slot_poll_def Let_def)
  show ?thesis
  proof (cases job)
    case None
    let ?w1 = "conn_update w j d1 (At_top ran_any)"
    have T: "worker_wf ?w1 \<and> moves sh (worker_jobs w) sh (worker_jobs ?w1)"
      by (rule take_slot_ok [OF wf j True t]) (simp_all add: None conn_jobs_def in_drive_def)
    have e: "sh' = sh" "no_job stop ran_any d1 = (d', c)" using d p t None by (simp_all add: drive_poll_def)
    show ?thesis
    proof (cases stop)
      case True
      have "worker_wf (conn_update ?w1 j d' c) \<and> moves sh (worker_jobs ?w1) sh (worker_jobs (conn_update ?w1 j d' c))"
        by (rule conn_return_ok [of _ _ ran_any False None]) (use T e True j in \<open>simp_all add: no_job_def\<close>)
      then show ?thesis using T moves_trans e(1) by (simp add: moves_trans) (metis moves_trans)
    qed (use T e in \<open>simp add: no_job_def\<close>)
  next
    case (Some jb)
    let ?lag = "map_option (\<lambda>due. now - due) (kj_scheduled jb)"
    let ?w1 = "conn_update w j d1 (Running_job jb ?lag)"
    have T: "worker_wf ?w1 \<and> moves sh (worker_jobs w) sh (worker_jobs ?w1)"
      by (rule take_slot_ok [OF wf j True t]) (simp_all add: Some conn_jobs_def in_drive_def)
    show ?thesis
    proof (cases alive)
      case True
      then show ?thesis using T d p t Some by (simp add: drive_poll_def)
    next
      case False
      then have h: "hand_back_or_fail sh d1 jb Unsent = (sh', d', c)" using d p t Some by (simp add: drive_poll_def)
      have l: "0 < kd_live d1" using live_pos [of ?w1 j] T j by (simp add: in_drive_def)
      note H = hand_back_or_fail_ok [OF h l]
      have "worker_wf (conn_update ?w1 j d' c) \<and> moves sh (worker_jobs ?w1) sh' (worker_jobs (conn_update ?w1 j d' c))"
        using T j H same_slotsD(5) [of d1 d']
        by (intro worker_conn_same [of ?w1 j "Running_job jb ?lag" d' c sh sh']) (auto simp: conn_jobs_def in_drive_def)
      then show ?thesis using T by simp (metis moves_trans)
    qed
  qed
qed

lemma drive_result_ok:
  assumes wf: "worker_wf w" and j: "j < length (kw_conns w)" "kw_conns w ! j = Running_job job lag"
    and d: "drive_result recorded res sh (kw_d w) job lag = (sh', d', c)"
  shows "worker_wf (conn_update w j d' c) \<and> moves sh (worker_jobs w) sh' (worker_jobs (conn_update w j d' c))"
proof -
  have l: "0 < kd_live (kw_d w)" using live_pos [OF wf j(1)] j(2) by (simp add: in_drive_def)
  show ?thesis
  proof (cases "res = Inl Fail_closed")
    case True
    then have h: "hand_back_or_fail sh (kw_d w) job LookupSent = (sh', d', c)" using d by (simp add: drive_result_def)
    note H = hand_back_or_fail_ok [OF h l]
    then show ?thesis using same_slotsD(5) [of "kw_d w" d']
      by (intro worker_conn_same [OF wf j]) (auto simp: conn_jobs_def in_drive_def)
  next
    case False
    have e: "same_slots (kw_d w) d'" "disp_jobs d' = disp_jobs (kw_d w)" "\<And>i r. c \<noteq> Waiting i r" "conn_jobs c = {#}"
        "kd_live d' + 1 = kd_live (kw_d w) + of_bool (in_drive c)" "kd_connections d' = kd_connections (kw_d w)"
      and m: "moves sh (disp_jobs (kw_d w) + {#job#}) sh' (disp_jobs (kw_d w))"
      using d False l
      by (auto simp: drive_result_def Let_def write_row_def drive_return_def live_drop_def same_slots_def disp_jobs_def in_drive_def conn_jobs_def
            moves_def mark_finished_def count_failed_def
          split: sum.splits kv_failure.splits option.splits intro!: exI [of _ "{#kj_req job#}"])
    show ?thesis
    proof (rule worker_conn_same [OF wf j e(1)])
      show "moves sh (disp_jobs (kw_d w) + conn_jobs (Running_job job lag)) sh' (disp_jobs d' + conn_jobs c)"
        using m by (simp add: conn_jobs_def [of "Running_job job lag"] e(2,4))
      show "bounded (kd_connections d') (disp_jobs (kw_d w) + conn_jobs (Running_job job lag)) \<longrightarrow> bounded (kd_connections d') (disp_jobs d' + conn_jobs c)"
        by (simp add: e(2,4))
    qed (use e in \<open>simp_all add: in_drive_def [of "Running_job job lag"]\<close>)
  qed
qed

lemma worker_step_ok:
  assumes "worker_step kv sh w (sh', w')" and wf: "worker_wf w"
  shows "worker_wf w' \<and> moves sh (worker_jobs w) sh' (worker_jobs w')"
  using assms(1)
proof cases
  case (round now now' stop)
  then show ?thesis using task_turn_ok [OF wf, of kv now now' stop sh sh' w'] by simp
next
  case (wait needs fired d pos)
  have dw: "disp_wf (kw_d w)" "kd_wants_slot (kw_d w) = needs" using wf wait by (simp_all add: worker_wf_def wait_wf_def)
  note T = task_wait_ok [OF dw wait(4)]
  have e: "w' = w\<lparr>kw_d := d, kw_task := kw_task w, kw_at := pos\<rparr>" "sh' = sh" using wait by simp_all
  have h: "held_jobs d (kw_task w) = held_jobs (kw_d w) (kw_task w)" using T by (simp add: held_jobs_def)
  show ?thesis unfolding e by (rule worker_keeps [OF wf]) (use T h in simp_all)
next
  case connect_failed
  have e: "w' = w\<lparr>kw_d := note_connect_failed (kw_d w), kw_task := kw_task w, kw_at := kw_at w\<rparr>" "sh' = sh" using connect_failed by simp_all
  have s: "same_slots (kw_d w) (note_connect_failed (kw_d w))" by (simp add: same_slots_def note_connect_failed_def)
  have h: "held_jobs (note_connect_failed (kw_d w)) (kw_task w) = held_jobs (kw_d w) (kw_task w)"
    by (simp add: held_jobs_def disp_jobs_def note_connect_failed_def)
  have "keeps (kw_d w) (note_connect_failed (kw_d w))"
    by (rule keeps_same_slots) (use wf in \<open>simp_all add: worker_wf_def note_connect_failed_def\<close>)
  then show ?thesis unfolding e using same_slotsD(3) [OF s] wf h by (intro worker_keeps [OF wf]) (simp_all add: worker_wf_def)
next
  case (enter j r)
  then have e: "w' = conn_update w j (live_new (kw_d w)) (At_top False)" "sh' = sh" by (simp_all add: with_conn_def drive_enter_def)
  have "same_slots (kw_d w) (live_new (kw_d w))" by (simp add: same_slots_def live_new_def)
  then show ?thesis unfolding e
    by (rule worker_conn_same [OF wf enter(2,3)]) (simp_all add: in_drive_def conn_jobs_def live_new_def disp_jobs_def)
next
  case (turn j ran_any stop stop' alive)
  obtain d' c where d: "drive_turn stop stop' alive ran_any (kw_d w) = (d', c)" by fastforce
  then show ?thesis using turn(1) drive_turn_ok [OF wf turn(2,3) d] by (simp add: with_conn_def)
next
  case (poll j i ran_any stop alive now)
  obtain sh1 d' c where d: "drive_poll stop alive now sh (kw_d w) i ran_any = (sh1, d', c)" using prod_cases3 by blast
  then show ?thesis using poll(1) drive_poll_ok [OF wf poll(2,3) d] by (simp add: with_conn_def)
next
  case (result j job lag recorded res)
  obtain sh1 d' c where d: "drive_result recorded res sh (kw_d w) job lag = (sh1, d', c)" using prod_cases3 by blast
  then show ?thesis using result(1) drive_result_ok [OF wf result(2,3) d] by (simp add: with_conn_def)
qed

section \<open>The whole replay\<close>

definition sending :: "kv_shared \<Rightarrow> kv_request multiset" where
  "sending sh = (case sv_reader sh of Sending req \<Rightarrow> {#req#} | _ \<Rightarrow> {#})"

text \<open>Every request the reader has sent is in one place, or finished.\<close>

definition accounts :: "kv_request list \<Rightarrow> kv_shared \<Rightarrow> kv_worker list \<Rightarrow> kv_request multiset \<Rightarrow> bool" where
  "accounts sent sh ws fin \<longleftrightarrow>
     length sent = sv_sent sh \<and> size fin = sv_finished sh \<and>
     mset sent = mset (sv_channel sh) + sending sh + (\<Sum>w\<leftarrow>ws. requests_of (worker_jobs w)) + fin"

definition reader_wf :: "(string + kv_request) list \<Rightarrow> kv_request list \<Rightarrow> kv_shared \<Rightarrow> bool" where
  "reader_wf trace sent sh \<longleftrightarrow>
     length (sv_channel sh) \<le> READ_AHEAD \<and> (sv_stopped sh \<longleftrightarrow> sv_reader sh = Stopping \<or> sv_reader sh = Gone) \<and>
     (\<exists>rest. trace = map Inr sent @ rest \<and> (\<not> sv_stopped sh \<longrightarrow> rest = sv_rest sh) \<and>
             (sv_stopped sh \<and> sv_error sh = None \<longrightarrow> rest = []))"

definition kv_inv :: "(string + kv_request) list \<Rightarrow> kv_shared \<times> kv_worker list \<Rightarrow> bool" where
  "kv_inv trace s \<longleftrightarrow> (case s of (sh, ws) \<Rightarrow>
     (\<forall>w\<in>set ws. worker_wf w) \<and> (\<exists>sent fin. reader_wf trace sent sh \<and> accounts sent sh ws fin))"

lemma start_dispatcher_ok: "worker_wf (start_dispatcher sp n)" "worker_jobs (start_dispatcher sp n) = {#}"
proof -
  have z: "(\<Sum>c\<leftarrow>replicate n (Outside None). conn_jobs c) = {#}" by (induction n) (auto simp: conn_jobs_def)
  then show w: "worker_jobs (start_dispatcher sp n) = {#}"
    by (simp add: worker_jobs_def start_dispatcher_def disp_jobs_def kv_close_def kv_dispatcher_new_def slot_jobs_def Let_def)
  have "filter in_drive (replicate n (Outside None)) = []" "waited (replicate n (Outside None)) = {}"
    by (auto simp: filter_empty_conv in_drive_def waited_def)
  then show "worker_wf (start_dispatcher sp n)" using w
    by (simp add: worker_wf_def) (simp add: start_dispatcher_def disp_wf_def open_slots_def wait_wf_def kv_close_def kv_dispatcher_new_def Let_def)
qed

lemma kv_start_inv:
  assumes "kv_start trace workers sh s"
  shows "kv_inv trace s"
proof -
  have "(\<Sum>w\<leftarrow>map (\<lambda>(sp, n). start_dispatcher sp n) workers. requests_of (worker_jobs w)) = {#}"
    by (induction workers) (auto simp: start_dispatcher_ok)
  then have "accounts [] sh (snd s) {#}" "reader_wf trace [] sh"
    using assms by (auto simp: accounts_def sending_def reader_wf_def kv_start_def)
  moreover have "\<forall>w\<in>set (snd s). worker_wf w" using assms by (auto simp: kv_start_def start_dispatcher_ok)
  ultimately show ?thesis using assms unfolding kv_inv_def kv_start_def by fastforce
qed

lemma reader_step_inv:
  assumes "reader_step panicked sh = Some sh'" and r: "reader_wf trace sent sh" and a: "accounts sent sh ws fin"
  shows "\<exists>sent'. reader_wf trace sent' sh' \<and> accounts sent' sh' ws fin"
proof (cases "sv_reader sh")
  case Reading
  then have ns: "\<not> sv_stopped sh" "trace = map Inr sent @ sv_rest sh" using r by (auto simp: reader_wf_def)
  show ?thesis
  proof (cases "\<exists>req rest. \<not> panicked \<and> sv_rest sh = Inr req # rest")
    case True
    then obtain req rest where rest: "\<not> panicked" "sv_rest sh = Inr req # rest" by blast
    then have sh': "sh' = sh\<lparr>sv_rest := rest, sv_sent := sv_sent sh + 1, sv_reader := Sending req\<rparr>"
      using assms(1) Reading by (simp add: reader_step_def)
    have "reader_wf trace (sent @ [req]) sh'" using r ns rest by (auto simp: reader_wf_def sh')
    moreover have "accounts (sent @ [req]) sh' ws fin" using a Reading by (simp add: accounts_def sh' sending_def)
    ultimately show ?thesis by blast
  next
    case False
    then have sh': "sv_stopped sh'" "sv_reader sh' = Stopping" "sv_channel sh' = sv_channel sh" "sv_sent sh' = sv_sent sh"
        "sv_finished sh' = sv_finished sh" "sv_error sh' = None \<longrightarrow> sv_rest sh = []"
      using assms(1) Reading by (auto simp: reader_step_def reader_stop_def set_once_def split: list.splits sum.splits if_splits option.splits)
    have "reader_wf trace sent sh'" using r ns sh' by (auto simp: reader_wf_def)
    moreover have "accounts sent sh' ws fin" using a Reading sh' by (simp add: accounts_def sending_def)
    ultimately show ?thesis by blast
  qed
next
  case (Sending req)
  then have "length (sv_channel sh) < READ_AHEAD" "sh' = sh\<lparr>sv_channel := sv_channel sh @ [req], sv_reader := Reading\<rparr>"
    using assms(1) by (auto simp: reader_step_def split: if_splits)
  then have "reader_wf trace sent sh'" "accounts sent sh' ws fin" using r a Sending by (auto simp: reader_wf_def accounts_def sending_def)
  then show ?thesis by blast
next
  case Stopping
  then have "sh' = sh\<lparr>sv_reader := Gone\<rparr>" using assms(1) by (simp add: reader_step_def)
  then have "reader_wf trace sent sh'" "accounts sent sh' ws fin" using r a Stopping by (auto simp: reader_wf_def accounts_def sending_def)
  then show ?thesis by blast
qed (use assms(1) in \<open>simp add: reader_step_def\<close>)

lemma worker_step_inv:
  assumes k: "k < length ws" and m: "moves sh (worker_jobs (ws ! k)) sh' (worker_jobs w')"
    and r: "reader_wf trace sent sh" and a: "accounts sent sh ws fin"
  shows "\<exists>fin'. accounts sent sh' (ws[k := w']) fin'" and "reader_wf trace sent sh'"
proof -
  obtain K where K: "(\<Sum>w\<leftarrow>ws. requests_of (worker_jobs w)) = requests_of (worker_jobs (ws ! k)) + K"
      "\<And>y. (\<Sum>w\<leftarrow>ws[k := y]. requests_of (worker_jobs w)) = requests_of (worker_jobs y) + K"
    using sum_list_at [OF k, of "\<lambda>w. requests_of (worker_jobs w)"] by blast
  obtain f where f: "mset (sv_channel sh') + requests_of (worker_jobs w') + f = mset (sv_channel sh) + requests_of (worker_jobs (ws ! k))"
      "sv_finished sh' = sv_finished sh + size f"
    and s: "sv_rest sh' = sv_rest sh" "sv_reader sh' = sv_reader sh" "sv_sent sh' = sv_sent sh" "sv_stopped sh' = sv_stopped sh" "sv_error sh' = sv_error sh"
    using m by (auto simp: moves_def)
  have "mset sent = (mset (sv_channel sh) + requests_of (worker_jobs (ws ! k))) + sending sh + K + fin"
    using a K(1) by (simp add: accounts_def add_ac)
  also have "\<dots> = mset (sv_channel sh') + sending sh' + (requests_of (worker_jobs w') + K) + (fin + f)"
    unfolding f(1) [symmetric] by (simp add: sending_def s add_ac)
  finally have "accounts sent sh' (ws[k := w']) (fin + f)" using a f(2) by (simp add: accounts_def K(2) s)
  then show "\<exists>fin'. accounts sent sh' (ws[k := w']) fin'" by blast
  have "length (sv_channel sh') \<le> length (sv_channel sh)" using m by (simp add: moves_def)
  then show "reader_wf trace sent sh'" using r by (auto simp: reader_wf_def s)
qed

lemma kv_step_inv:
  assumes "kv_step kv s s'" and inv: "kv_inv trace s"
  shows "kv_inv trace s'"
  using assms(1)
proof cases
  case (reader panicked sh sh' ws)
  obtain sent fin where "reader_wf trace sent sh" "accounts sent sh ws fin" "\<forall>w\<in>set ws. worker_wf w"
    using inv reader(1) by (auto simp: kv_inv_def)
  with reader_step_inv [OF reader(3)] show ?thesis using reader(2) by (fastforce simp: kv_inv_def)
next
  case (clock sh ws t)
  obtain sent fin where "reader_wf trace sent sh" "accounts sent sh ws fin" "\<forall>w\<in>set ws. worker_wf w"
    using inv clock(1) by (auto simp: kv_inv_def)
  moreover have "reader_wf trace sent (kv_start_clock t sh) = reader_wf trace sent sh" "accounts sent (kv_start_clock t sh) ws fin = accounts sent sh ws fin"
    by (simp_all add: reader_wf_def accounts_def sending_def kv_start_clock_def)
  ultimately show ?thesis using clock(2) by (auto simp: kv_inv_def)
next
  case (worker k ws sh sh' w')
  obtain sent fin where a: "reader_wf trace sent sh" "accounts sent sh ws fin" and wf: "\<forall>w\<in>set ws. worker_wf w"
    using inv worker(1) by (auto simp: kv_inv_def)
  have "worker_wf (ws ! k)" using wf worker(3) by simp
  note W = worker_step_ok [OF worker(4) this]
  obtain fin' where "accounts sent sh' (ws[k := w']) fin'" "reader_wf trace sent sh'"
    using worker_step_inv [OF worker(3) _ a, of sh' w'] W by blast
  moreover have "\<forall>w\<in>set (ws[k := w']). worker_wf w" using wf W set_update_subset_insert [of ws k w'] by auto
  ultimately show ?thesis using worker(2) by (auto simp: kv_inv_def)
qed

lemma kv_reach_inv:
  assumes "(kv_step kv)\<^sup>*\<^sup>* s s'" and "kv_inv trace s"
  shows "kv_inv trace s'"
  using assms by (induction rule: rtranclp_induct) (auto intro: kv_step_inv)

text \<open>What a worker promises its connections.\<close>

definition worker_sound :: "kv_worker \<Rightarrow> bool" where
  "worker_sound w \<longleftrightarrow>
     (\<forall>j\<in>#worker_jobs w. kj_dead_handovers j \<le> max (kd_connections (kw_d w)) 1) \<and>
     (\<forall>i r. Waiting i r \<in> set (kw_conns w) \<longrightarrow> i < length (kd_slots (kw_d w)) \<and>
        (let s = kd_slots (kw_d w) ! i in if ks_done s then ks_woken s else ks_waker s \<and> i \<in> set (kd_waiting (kw_d w)))) \<and>
     (\<forall>i<length (kd_slots (kw_d w)). ks_job (kd_slots (kw_d w) ! i) \<noteq> None \<longrightarrow> (\<exists>r. Waiting i r \<in> set (kw_conns w))) \<and>
     (kd_closed (kw_d w) \<longrightarrow> kd_waiting (kw_d w) = []) \<and>
     (kw_at w = Task_wait True \<and> kd_idle (kw_d w) \<longrightarrow> kd_waiting (kw_d w) = [])"

lemma worker_wf_sound:
  assumes "worker_wf w"
  shows "worker_sound w"
proof -
  let ?d = "kw_d w"
  have wf: "disp_wf ?d" "open_slots ?d \<subseteq> waited (kw_conns w)" "waited (kw_conns w) \<subseteq> {..<length (kd_slots ?d)}"
    "bounded (kd_connections ?d) (worker_jobs w)" "wait_wf (kw_at w) ?d" using assms by (simp_all add: worker_wf_def)
  have "i < length (kd_slots ?d) \<and> (let s = kd_slots ?d ! i in if ks_done s then ks_woken s else ks_waker s \<and> i \<in> set (kd_waiting ?d))"
    if "Waiting i r \<in> set (kw_conns w)" for i r
  proof -
    have i: "i < length (kd_slots ?d)" using that wf(3) by (auto simp: waited_def)
    then show ?thesis using wf(1) nth_mem [OF i] by (auto simp: disp_wf_def Let_def)
  qed
  moreover have "\<exists>r. Waiting i r \<in> set (kw_conns w)" if "i < length (kd_slots ?d)" "ks_job (kd_slots ?d ! i) \<noteq> None" for i
    using that wf(2) by (auto simp: open_slots_def waited_def)
  ultimately show ?thesis using wf by (auto simp: worker_sound_def bounded_def disp_wf_def wait_wf_def)
qed


section \<open>An example\<close>

definition demo_kv_metrics :: kv_metrics where
  "demo_kv_metrics = \<lparr>km_requests = 0, km_requests_failed = 0, km_input_tokens = 0, km_cached_tokens = 0, km_new_tokens = 0,
     km_full_hits = 0, km_chunk0_misses = 0, km_no_full_chunk = 0, km_lookups = 0, km_loads = 0, km_stores = 0,
     km_loads_with_cached = 0, km_lookup_time = [], km_load_time = [], km_load_time_per_1k = [], km_store_time = []\<rparr>"

definition demo_kv_shared :: kv_shared where
  "demo_kv_shared = \<lparr>sv_rest = [Inr demo_kv_request], sv_reader = Reading, sv_sent = 0, sv_stopped = False, sv_error = None,
     sv_channel = [], sv_start = None, sv_finished = 0, sv_metrics = demo_kv_metrics, sv_schedule_lag = [], sv_read_waits = 0,
     sv_log = None\<rparr>"

text \<open>The reader has sent the request of the trace, and the clock is set.\<close>

definition demo_kv_later :: kv_shared where
  "demo_kv_later = demo_kv_shared\<lparr>sv_rest := [], sv_reader := Reading, sv_sent := 1, sv_channel := [demo_kv_request], sv_start := Some 5\<rparr>"

lemma demo_kv_reach:
  "(kv_step demo_kv)\<^sup>*\<^sup>* (demo_kv_shared, [start_dispatcher True 2]) (demo_kv_later, [start_dispatcher True 2])"
proof -
  let ?ws = "[start_dispatcher True 2]"
  let ?a = "demo_kv_shared\<lparr>sv_rest := [], sv_sent := 1, sv_reader := Sending demo_kv_request\<rparr>"
  let ?b = "?a\<lparr>sv_channel := [demo_kv_request], sv_reader := Reading\<rparr>"
  have "kv_step demo_kv (demo_kv_shared, ?ws) (?a, ?ws)" by (rule kv_step.reader [of False]) (simp add: reader_step_def demo_kv_shared_def)
  moreover have "kv_step demo_kv (?a, ?ws) (?b, ?ws)" by (rule kv_step.reader [of False]) (simp add: reader_step_def demo_kv_shared_def)
  moreover have "kv_step demo_kv (?b, ?ws) (kv_start_clock 5 ?b, ?ws)" by (rule kv_step.clock)
  moreover have "kv_start_clock 5 ?b = demo_kv_later" by (simp add: kv_start_clock_def set_once_def demo_kv_later_def demo_kv_shared_def)
  ultimately show ?thesis by (metis (no_types, lifting) rtranclp.rtrancl_into_rtrancl rtranclp.rtrancl_refl)
qed


text \<open>
  A hand-back wakes the dispatcher, but when no connection is idle at that moment the task goes back to its wait with
  what it needed before; the next connection that asks does not wake it if that was nothing. The handed-back request
  then waits for the timer although a connection is idle.
\<close>

lemma hand_back_waits_for_timer:
  assumes "give_back d job why = (d1, True)" and "kd_waiting d = []" and "\<not> kd_closed d" "\<not> kd_wants_slot d"
    and "kv_wait_poll False False d1 = (d2, ready)" and "next_job d2 = (d3, slot)"
  shows "\<not> ready \<and> kd_idle d3 \<and> \<not> kd_idle_woken d3 \<and> kd_returned d3 \<noteq> [] \<and> kd_waiting d3 \<noteq> []"
  using assms by (cases why; auto simp: give_back_def kv_wait_poll_def next_job_def wake_idle_def Let_def split: if_splits)

end
