(* ===== verification/Conn_Task.thy ===== *)
theory Conn_Task
  imports Append_Writer Kv_Dispatch
begin

text \<open>
  The connection tasks (\<open>src/worker.rs\<close>, \<open>resp_connection_task\<close>, \<open>memcache_connection_task\<close>,
  \<open>ping_connection_task\<close>, \<open>resp_append_task\<close>, \<open>memcache_append_task\<close>): connect, greet, check that the server
  answers, drive the workload, and start over when the connection is lost; with the per-worker flags
  they share (\<open>SharedWorkerState\<close>) and the drive loop of the ping protocol.

  The five tasks are one state machine with parts left out; \<open>conn_kind\<close> says which task it is, and
  for RESP whether RESP3 is spoken, for memcache whether it is the binary protocol. \<open>task_resume\<close> runs
  a task from the end of one await to the next. A step reads the phase once or more often while the
  main thread may change it: what each read returned is an argument. Sockets and clients are the crate
  ringline: an event says how what was awaited ended.
\<close>

section \<open>What the connections of a worker share\<close>

record bench_worker =
  bw_prefill_total :: nat
  bw_prefill_confirmed :: nat
  bw_prefill_done :: bool
  bw_precheck_done :: bool
  bw_kv :: "kv_dispatcher option"

record conn_shared =
  cs_shared :: shared_state
  cs_active :: int
  cs_append_active :: int
  cs_failed :: nat
  cs_disconnects :: "disconnect_reason \<Rightarrow> nat"

text \<open>A worker with no connections passes the precheck as it is created.\<close>

definition create_worker :: "nat \<Rightarrow> shared_state \<Rightarrow> bench_worker \<times> shared_state" where
  "create_worker my_connections h =
     (\<lparr>bw_prefill_total = 0, bw_prefill_confirmed = 0, bw_prefill_done = False, bw_precheck_done = (my_connections = 0),
       bw_kv = None\<rparr>,
      if my_connections = 0 then mark_precheck_complete h else h)"

definition mark_precheck_done :: "bench_worker \<Rightarrow> shared_state \<Rightarrow> bench_worker \<times> shared_state" where
  "mark_precheck_done w h =
     (if bw_precheck_done w then (w, h) else (w\<lparr>bw_precheck_done := True\<rparr>, mark_precheck_complete h))"

text \<open>The exchange of \<open>prefill_done\<close>, by whoever finds the prefill of this worker complete.\<close>

definition set_prefill_done :: "bench_worker \<Rightarrow> shared_state \<Rightarrow> bench_worker \<times> shared_state" where
  "set_prefill_done w h =
     (if bw_prefill_done w then (w, h) else (w\<lparr>bw_prefill_done := True\<rparr>, mark_prefill_complete h))"

definition confirm_prefill_key :: "bench_worker \<Rightarrow> shared_state \<Rightarrow> bench_worker \<times> shared_state" where
  "confirm_prefill_key w h =
     (let h = add_prefill_confirmed 1 h; worker_confirmed = wrapping_add (bw_prefill_confirmed w) 1;
          w = w\<lparr>bw_prefill_confirmed := worker_confirmed\<rparr>
      in if worker_confirmed \<ge> bw_prefill_total w \<and> bw_prefill_total w > 0 then set_prefill_done w h else (w, h))"

definition record_disconnect_reason :: "disconnect_reason \<Rightarrow> conn_shared \<Rightarrow> conn_shared" where
  "record_disconnect_reason r g = g\<lparr>cs_disconnects := (cs_disconnects g)(r := cs_disconnects g r + 1)\<rparr>"

definition connect_failed :: "conn_shared \<Rightarrow> conn_shared" where
  "connect_failed g = record_disconnect_reason ConnectFailed (g\<lparr>cs_failed := cs_failed g + 1\<rparr>)"

section \<open>The tasks\<close>

datatype conn_kind = Resp_reader bool | Memcache_reader bool | Ping_reader | Resp_writer bool | Memcache_writer

fun is_writer :: "conn_kind \<Rightarrow> bool" where
  "is_writer (Resp_writer resp3) = True"
| "is_writer Memcache_writer = True"
| "is_writer _ = False"

text \<open>What a task waits for. Backing off is a sleep of 100 ms, being parked one of 10 ms.\<close>

datatype conn_at = Connecting | Greeting | Prechecking | Parked | Driving | Backing_off | Returned

datatype conn_event = Answer bool | Slept | Driven "disconnect_reason option"

definition task_top :: "phase \<Rightarrow> conn_at" where
  "task_top ph = (if should_stop ph then Returned else Connecting)"

definition gauge_move :: "conn_kind \<Rightarrow> int \<Rightarrow> conn_shared \<Rightarrow> conn_shared" where
  "gauge_move kind x g =
     (if is_writer kind then g\<lparr>cs_append_active := cs_append_active g + x\<rparr> else g\<lparr>cs_active := cs_active g + x\<rparr>)"

text \<open>A reader of a KV replay tells the dispatcher of its worker that no connection came about.\<close>

definition tell_kv :: "bool \<Rightarrow> conn_kind \<Rightarrow> bench_worker \<Rightarrow> bench_worker" where
  "tell_kv kv_replay kind w =
     (case kind of
        Resp_reader _ \<Rightarrow> if kv_replay then w\<lparr>bw_kv := map_option note_connect_failed (bw_kv w)\<rparr> else w
      | _ \<Rightarrow> w)"

text \<open>The wait for the precheck to end, from its test.\<close>

definition task_parked ::
  "conn_kind \<Rightarrow> phase \<Rightarrow> phase \<Rightarrow> bench_worker \<Rightarrow> conn_shared \<Rightarrow> conn_at \<times> bench_worker \<times> conn_shared" where
  "task_parked kind ph\<^sub>1 ph\<^sub>2 w g =
     (if ph\<^sub>1 = Precheck then
        if should_stop ph\<^sub>2 then (Returned, w, gauge_move kind (- 1) g) else (Parked, w, g)
      else (Driving, w, g))"

definition prechecked :: "bench_worker \<Rightarrow> conn_shared \<Rightarrow> bench_worker \<times> conn_shared" where
  "prechecked w g = (let (w, h) = mark_precheck_done w (cs_shared g) in (w, g\<lparr>cs_shared := h\<rparr>))"

text \<open>A connection is up and greeted. The binary memcache protocol has nothing to ask: being connected is enough.\<close>

definition task_precheck ::
  "conn_kind \<Rightarrow> phase \<Rightarrow> phase \<Rightarrow> phase \<Rightarrow> bench_worker \<Rightarrow> conn_shared \<Rightarrow> conn_at \<times> bench_worker \<times> conn_shared" where
  "task_precheck kind ph\<^sub>1 ph\<^sub>2 ph\<^sub>3 w g =
     (if \<not> is_writer kind \<and> ph\<^sub>1 = Precheck \<and> \<not> bw_precheck_done w then
        if kind = Memcache_reader True then (let (w, g) = prechecked w g in task_parked kind ph\<^sub>2 ph\<^sub>3 w g)
        else (Prechecking, w, g)
      else (Driving, w, g))"

text \<open>A greeting or a check that fails: the connection is closed and the task backs off.\<close>

definition task_failed :: "bool \<Rightarrow> conn_kind \<Rightarrow> bench_worker \<Rightarrow> conn_shared \<Rightarrow> conn_at \<times> bench_worker \<times> conn_shared" where
  "task_failed kv_replay kind w g =
     (Backing_off, tell_kv kv_replay kind w, (gauge_move kind (- 1) g)\<lparr>cs_failed := cs_failed g + 1\<rparr>)"

fun task_resume ::
  "bool \<Rightarrow> conn_kind \<Rightarrow> phase \<Rightarrow> phase \<Rightarrow> phase \<Rightarrow> conn_at \<Rightarrow> conn_event \<Rightarrow> bench_worker \<Rightarrow> conn_shared \<Rightarrow>
   conn_at \<times> bench_worker \<times> conn_shared" where
  "task_resume kv_replay kind ph\<^sub>1 ph\<^sub>2 ph\<^sub>3 Connecting (Answer ok) w g =
     (if ok then
        let g = gauge_move kind 1 g in
        if kind = Resp_reader True \<or> kind = Resp_writer True then (Greeting, w, g)
        else task_precheck kind ph\<^sub>1 ph\<^sub>2 ph\<^sub>3 w g
      else (Backing_off, tell_kv kv_replay kind w, connect_failed g))"
| "task_resume kv_replay kind ph\<^sub>1 ph\<^sub>2 ph\<^sub>3 Greeting (Answer ok) w g =
     (if ok then task_precheck kind ph\<^sub>1 ph\<^sub>2 ph\<^sub>3 w g else task_failed kv_replay kind w g)"
| "task_resume kv_replay kind ph\<^sub>1 ph\<^sub>2 ph\<^sub>3 Prechecking (Answer ok) w g =
     (if ok then (let (w, g) = prechecked w g in task_parked kind ph\<^sub>1 ph\<^sub>2 w g) else task_failed kv_replay kind w g)"
| "task_resume kv_replay kind ph\<^sub>1 ph\<^sub>2 ph\<^sub>3 Parked Slept w g = task_parked kind ph\<^sub>1 ph\<^sub>2 w g"
| "task_resume kv_replay kind ph\<^sub>1 ph\<^sub>2 ph\<^sub>3 Driving (Driven r) w g =
     (let g = gauge_move kind (- 1) g in
      case r of None \<Rightarrow> (Returned, w, g) | Some reason \<Rightarrow> (Backing_off, w, record_disconnect_reason reason g))"
| "task_resume kv_replay kind ph\<^sub>1 ph\<^sub>2 ph\<^sub>3 Backing_off Slept w g = (task_top ph\<^sub>1, w, g)"
| "task_resume kv_replay kind ph\<^sub>1 ph\<^sub>2 ph\<^sub>3 pc ev w g = (pc, w, g)"

text \<open>The five tasks. Only a RESP reader of a KV replay has a dispatcher to tell.\<close>

type_synonym task_step =
  "phase \<Rightarrow> phase \<Rightarrow> phase \<Rightarrow> conn_at \<Rightarrow> conn_event \<Rightarrow> bench_worker \<Rightarrow> conn_shared \<Rightarrow> conn_at \<times> bench_worker \<times> conn_shared"

definition resp_connection_task :: "bool \<Rightarrow> bool \<Rightarrow> task_step" where
  "resp_connection_task kv_replay resp3 = task_resume kv_replay (Resp_reader resp3)"

definition memcache_connection_task :: "bool \<Rightarrow> task_step" where
  "memcache_connection_task binary = task_resume False (Memcache_reader binary)"

definition ping_connection_task :: task_step where
  "ping_connection_task = task_resume False Ping_reader"

definition resp_append_task :: "bool \<Rightarrow> task_step" where
  "resp_append_task resp3 = task_resume False (Resp_writer resp3)"

definition memcache_append_task :: task_step where
  "memcache_append_task = task_resume False Memcache_writer"

fun connection_task :: "bool \<Rightarrow> conn_kind \<Rightarrow> task_step" where
  "connection_task kv_replay (Resp_reader resp3) = resp_connection_task kv_replay resp3"
| "connection_task kv_replay (Memcache_reader binary) = memcache_connection_task binary"
| "connection_task kv_replay Ping_reader = ping_connection_task"
| "connection_task kv_replay (Resp_writer resp3) = resp_append_task resp3"
| "connection_task kv_replay Memcache_writer = memcache_append_task"

lemmas connection_task_defs =
  resp_connection_task_def memcache_connection_task_def ping_connection_task_def resp_append_task_def memcache_append_task_def

lemma task_resume_untold:
  assumes "\<And>b w. tell_kv b kind w = w"
  shows "task_resume kv kind ph\<^sub>1 ph\<^sub>2 ph\<^sub>3 pc ev w g = task_resume kv' kind ph\<^sub>1 ph\<^sub>2 ph\<^sub>3 pc ev w g"
  by (cases pc; cases ev) (simp_all add: task_failed_def assms)

lemma connection_task_resumes: "connection_task kv kind ph\<^sub>1 ph\<^sub>2 ph\<^sub>3 pc ev w g = task_resume kv kind ph\<^sub>1 ph\<^sub>2 ph\<^sub>3 pc ev w g"
  by (cases kind) (simp_all add: connection_task_defs task_resume_untold [of _ False _ _ _ _ _ _ _ kv] tell_kv_def)

section \<open>A worker starts\<close>

text \<open>The task the protocol asks for. The DMA client is a build option and has no task here.\<close>

fun reader_kind :: "protocol \<Rightarrow> conn_kind option" where
  "reader_kind Resp = Some (Resp_reader False)"
| "reader_kind Resp3 = Some (Resp_reader True)"
| "reader_kind Memcache = Some (Memcache_reader False)"
| "reader_kind MemcacheBinary = Some (Memcache_reader True)"
| "reader_kind PingProtocol = Some Ping_reader"
| "reader_kind Dma = None"

fun writer_kind :: "protocol \<Rightarrow> conn_kind option" where
  "writer_kind Resp = Some (Resp_writer False)"
| "writer_kind Resp3 = Some (Resp_writer True)"
| "writer_kind Memcache = Some Memcache_writer"
| "writer_kind MemcacheBinary = Some Memcache_writer"
| "writer_kind _ = None"

text \<open>
  A task to spawn is its kind, the endpoint it serves and its seed. The runtime may refuse a spawn, by the
  place of the task among the worker's; each refusal counts as a failed connection.
\<close>

type_synonym spawn_request = "conn_kind option \<times> nat \<times> u64"

fun spawn_all :: "(nat \<Rightarrow> bool) \<Rightarrow> nat \<Rightarrow> spawn_request list \<Rightarrow> conn_shared \<Rightarrow> spawn_request list \<times> conn_shared" where
  "spawn_all accepts i [] g = ([], g)"
| "spawn_all accepts i (t # ts) g =
     (if accepts i then (let (us, g) = spawn_all accepts (Suc i) ts g in (t # us, g))
      else spawn_all accepts (Suc i) ts (g\<lparr>cs_failed := cs_failed g + 1\<rparr>))"

definition spawn_protocol_tasks ::
  "(nat \<Rightarrow> bool) \<Rightarrow> config \<Rightarrow> u64 \<Rightarrow> f64 list option \<Rightarrow> nat \<Rightarrow> nat \<Rightarrow> nat \<Rightarrow> conn_shared \<Rightarrow>
   (spawn_request list \<times> conn_shared) option" where
  "spawn_protocol_tasks accepts cfg run shares num_endpoints my_connections worker_id g =
     (case my_connection_endpoints (cn_endpoint_allocation (cf_connection cfg)) shares (total_connections (cf_connection cfg))
             (gn_threads (cf_general cfg)) num_endpoints my_connections worker_id of
        None \<Rightarrow> None
      | Some (my_start, my_endpoints) \<Rightarrow>
          Some (spawn_all accepts 0
                  (map (\<lambda>(i, e). (reader_kind (tg_protocol (cf_target cfg)), e, connection_seed run Reader worker_id i))
                     (enumerate 0 my_endpoints)) g))"

text \<open>The connections to each node of a routed worker; an endpoint outside the list is the panic of an index.\<close>

fun count_per_node :: "nat list \<Rightarrow> nat list \<Rightarrow> nat list option" where
  "count_per_node cnt [] = Some cnt"
| "count_per_node cnt (e # es) = (if e < length cnt then count_per_node (cnt[e := cnt ! e + 1]) es else None)"

datatype funding = Unlimited | By_tokens token_dispatcher | By_node routed_queues u64

text \<open>
  The dispatcher a worker gets, before any connection task can look for it; \<open>accepted\<close> is whether it could
  be spawned. A routed worker whose dispatcher could not panics.
\<close>

definition start_funding ::
  "bool \<Rightarrow> bool \<Rightarrow> config \<Rightarrow> u64 \<Rightarrow> f64 list option \<Rightarrow> nat \<Rightarrow> nat \<Rightarrow> nat \<Rightarrow> funding option" where
  "start_funding accepted limited cfg run shares num_endpoints my_connections worker_id =
     (if \<not> limited then Some Unlimited
      else if wl_routing (cf_workload cfg) = Routed then
        (case my_connection_endpoints (cn_endpoint_allocation (cf_connection cfg)) shares (total_connections (cf_connection cfg))
                (gn_threads (cf_general cfg)) num_endpoints my_connections worker_id of
           None \<Rightarrow> None
         | Some (my_start, my_endpoints) \<Rightarrow>
             (case count_per_node (replicate (max num_endpoints 1) 0) my_endpoints of
                None \<Rightarrow> None
              | Some per_node \<Rightarrow>
                  if accepted
                  then Some (By_node (routed_new per_node (cn_pipeline_depth (cf_connection cfg))) (connection_seed run Dispatcher worker_id 0))
                  else None))
      else Some (if accepted then By_tokens dispatcher_new else Unlimited))"

record worker_start =
  ws_funding :: funding
  ws_kv :: "kv_worker option"
  ws_readers :: "spawn_request list"
  ws_writers :: "spawn_request list"
  ws_globals :: conn_shared

text \<open>
  The start of a worker. The four flags say whether the runtime accepted the two dispatchers, and by place the
  readers and the writers; the DMA protocol, a build option, spawns no readers.
\<close>

definition on_start ::
  "bool \<Rightarrow> bool \<Rightarrow> (nat \<Rightarrow> bool) \<Rightarrow> (nat \<Rightarrow> bool) \<Rightarrow> bool \<Rightarrow> bool \<Rightarrow> config \<Rightarrow> u64 \<Rightarrow> f64 list option \<Rightarrow> nat \<Rightarrow> nat \<Rightarrow> nat \<Rightarrow>
   conn_shared \<Rightarrow> worker_start option" where
  "on_start accepted kv_accepted accepts accepts_writer limited kv_replay cfg run shares num_endpoints my_connections worker_id g =
     (case start_funding accepted limited cfg run shares num_endpoints my_connections worker_id of
        None \<Rightarrow> None
      | Some f \<Rightarrow>
          (case (if tg_protocol (cf_target cfg) = Dma then Some ([], g)
                 else spawn_protocol_tasks accepts cfg run shares num_endpoints my_connections worker_id g) of
             None \<Rightarrow> None
           | Some (readers, g) \<Rightarrow>
               let (writers, g) =
                     spawn_all accepts_writer 0
                       (map (Pair (writer_kind (tg_protocol (cf_target cfg))))
                          (spawn_append_tasks run (map_option ap_connections (wl_append (cf_workload cfg))) num_endpoints
                             (gn_threads (cf_general cfg)) worker_id)) g
               in Some \<lparr>ws_funding = f, ws_kv = (if kv_replay then Some (start_dispatcher kv_accepted my_connections) else None),
                    ws_readers = readers, ws_writers = writers,
                    ws_globals = g\<lparr>cs_shared := mark_worker_started (cs_shared g)\<rparr>\<rparr>))"

text \<open>What a worker's tick keeps, and whether it asks for the shutdown.\<close>

record bench_handler =
  bh_last_phase :: phase
  bh_recording :: bool
  bh_tick_count :: nat

definition on_tick :: "phase \<Rightarrow> bool \<Rightarrow> bench_handler \<Rightarrow> bool \<times> bench_handler" where
  "on_tick ph diagnose b =
     (let b = (if ph \<noteq> bh_last_phase b then b\<lparr>bh_recording := is_recording ph, bh_last_phase := ph\<rparr> else b) in
      if should_stop ph then (True, b)
      else let b = b\<lparr>bh_tick_count := bh_tick_count b + 1\<rparr> in (False, if diagnose then b\<lparr>bh_tick_count := 0\<rparr> else b))"

lemma on_tick_records:
  assumes "bh_recording b = is_recording (bh_last_phase b)" and "on_tick ph diagnose b = (stop, b')"
  shows "bh_recording b' = is_recording ph \<and> bh_last_phase b' = ph \<and> (stop \<longleftrightarrow> ph = Stop)"
  using assms by (auto simp: on_tick_def Let_def should_stop_def split: if_splits)

section \<open>The ping protocol\<close>

record ('rl, 't) ping_drive =
  pg_inflight :: "'t in_flight"
  pg_limiter :: "'rl worker_limiter option"
  pg_worker_slip :: nat
  pg_requests_sent :: nat
  pg_slip_samples :: "nat list"

datatype ping_await = Ping_return | Ping_sleep nat | Ping_sent

text \<open>One iteration up to its await: \<open>now\<close> is the clock reading of the limiter.\<close>

definition ping_iteration ::
  "'rl ratelimit \<Rightarrow> phase \<Rightarrow> nat \<Rightarrow> nat \<Rightarrow> ('rl, 't) ping_drive \<Rightarrow> bench_worker \<Rightarrow> shared_state \<Rightarrow>
   ping_await \<times> ('rl, 't) ping_drive \<times> bench_worker \<times> shared_state" where
  "ping_iteration L ph fired_at now p w h =
     (if should_stop ph then (Ping_return, p, w, h)
      else if ph \<noteq> Warmup \<and> ph \<noteq> Running then
        let (w, h) = (if ph = Prefill \<and> \<not> bw_prefill_done w then set_prefill_done w h else (w, h))
        in (Ping_sleep 1000000, p, w, h)
      else
        let (refused, p) =
              (case pg_limiter p of
                 None \<Rightarrow> (None, p)
               | Some rl \<Rightarrow>
                   (case limiter_try_wait L now rl of
                      (Inr _, rl) \<Rightarrow> (None, p\<lparr>pg_limiter := Some rl\<rparr>)
                    | (Inl (Insufficient wait), rl) \<Rightarrow> (Some (max wait 50000), p\<lparr>pg_limiter := Some rl\<rparr>)
                    | (Inl _, rl) \<Rightarrow> (Some 1000000, p\<lparr>pg_limiter := Some rl\<rparr>)))
        in case refused of
             Some wait \<Rightarrow> (Ping_sleep wait, p, w, h)
           | None \<Rightarrow>
               let slip = map_option (limiter_slip_ns L) (pg_limiter p);
                   p = p\<lparr>pg_worker_slip := (case slip of Some s \<Rightarrow> s | None \<Rightarrow> pg_worker_slip p),
                         pg_requests_sent := pg_requests_sent p + 1,
                         pg_slip_samples := pg_slip_samples p @ (case slip of Some s \<Rightarrow> [s] | None \<Rightarrow> []),
                         pg_inflight := inflight_push (pg_inflight p) fired_at\<rparr>
               in (Ping_sent, p, w, h))"

definition ping_reply :: "('rl, 't) ping_drive \<Rightarrow> ('rl, 't) ping_drive" where
  "ping_reply p = p\<lparr>pg_inflight := fst (inflight_pop (pg_inflight p))\<rparr>"

text \<open>One request at a time: between iterations nothing is in flight, and a ping awaited is the only one.\<close>

lemma ping_one_at_a_time:
  assumes "if_fired (pg_inflight p) = []" and "ping_iteration L ph t now p w h = (a, p', w', h')"
  shows "if_fired (pg_inflight p') = (if a = Ping_sent then [t] else [])" and "if_fired (pg_inflight (ping_reply p')) = []"
    and "pg_requests_sent p' = pg_requests_sent p + (if a = Ping_sent then 1 else 0)"
  using assms
  by (auto simp: ping_iteration_def ping_reply_def inflight_push_def push_queued_def inflight_pop_def Let_def
      split: if_splits option.splits prod.splits sum.splits try_wait_error.splits)

text \<open>All an iteration does to the shared state is to report the prefill of its worker, which has none, as complete.\<close>

lemma ping_shared:
  assumes "ping_iteration L ph t now p w h = (a, p', w', h')"
  shows "(w', h') = (w, h) \<or> (w', h') = set_prefill_done w h"
  using assms by (auto simp: ping_iteration_def Let_def split: if_splits option.splits prod.splits sum.splits try_wait_error.splits)

section \<open>Many tasks on many workers\<close>

record conn_system =
  cy_workers :: "bench_worker list"
  cy_tasks :: "(nat \<times> conn_kind \<times> conn_at) list" \<comment> \<open>its worker, what it is, what it waits for\<close>
  cy_globals :: conn_shared

definition conn_up :: "conn_at \<Rightarrow> bool" where
  "conn_up pc \<longleftrightarrow> pc \<in> {Greeting, Prechecking, Parked, Driving}"

lemma conn_up_simps [simp]:
  "conn_up Greeting" "conn_up Prechecking" "conn_up Parked" "conn_up Driving"
  "\<not> conn_up Connecting" "\<not> conn_up Backing_off" "\<not> conn_up Returned"
  by (simp_all add: conn_up_def)

definition count_tasks :: "bool \<Rightarrow> (nat \<times> conn_kind \<times> conn_at) list \<Rightarrow> nat" where
  "count_tasks writers ts = length (filter (\<lambda>(i, kind, pc). is_writer kind = writers \<and> conn_up pc) ts)"

definition count_flags :: "(bench_worker \<Rightarrow> bool) \<Rightarrow> bench_worker list \<Rightarrow> nat" where
  "count_flags f ws = length (filter f ws)"

inductive conn_reach :: "bool \<Rightarrow> conn_system \<Rightarrow> bool" for kv_replay :: bool where
  conn_start: "\<forall>(i, kind, pc)\<in>set (cy_tasks S). i < length (cy_workers S) \<and> \<not> conn_up pc \<Longrightarrow>
    cs_active (cy_globals S) = 0 \<Longrightarrow> cs_append_active (cy_globals S) = 0 \<Longrightarrow> length (cy_workers S) \<le> U64_MAX \<Longrightarrow>
    sh_precheck_done (cs_shared (cy_globals S)) = count_flags bw_precheck_done (cy_workers S) \<Longrightarrow>
    sh_prefill_complete (cs_shared (cy_globals S)) = count_flags bw_prefill_done (cy_workers S) \<Longrightarrow> conn_reach kv_replay S"
| conn_task: "conn_reach kv_replay S \<Longrightarrow> j < length (cy_tasks S) \<Longrightarrow> cy_tasks S ! j = (i, kind, pc) \<Longrightarrow>
    connection_task kv_replay kind ph\<^sub>1 ph\<^sub>2 ph\<^sub>3 pc ev (cy_workers S ! i) (cy_globals S) = (pc', w', g') \<Longrightarrow>
    conn_reach kv_replay (S\<lparr>cy_workers := (cy_workers S)[i := w'], cy_tasks := (cy_tasks S)[j := (i, kind, pc')], cy_globals := g'\<rparr>)"
| conn_confirm: "conn_reach kv_replay S \<Longrightarrow> i < length (cy_workers S) \<Longrightarrow>
    confirm_prefill_key (cy_workers S ! i) (cs_shared (cy_globals S)) = (w', h') \<Longrightarrow>
    conn_reach kv_replay (S\<lparr>cy_workers := (cy_workers S)[i := w'], cy_globals := (cy_globals S)\<lparr>cs_shared := h'\<rparr>\<rparr>)"
| conn_ping: "conn_reach kv_replay S \<Longrightarrow> i < length (cy_workers S) \<Longrightarrow>
    set_prefill_done (cy_workers S ! i) (cs_shared (cy_globals S)) = (w', h') \<Longrightarrow>
    conn_reach kv_replay (S\<lparr>cy_workers := (cy_workers S)[i := w'], cy_globals := (cy_globals S)\<lparr>cs_shared := h'\<rparr>\<rparr>)"
| conn_phase: "conn_reach kv_replay S \<Longrightarrow>
    conn_reach kv_replay (S\<lparr>cy_globals := (cy_globals S)\<lparr>cs_shared := set_phase ph (cs_shared (cy_globals S))\<rparr>\<rparr>)"

subsection \<open>Each flag is raised once, and counted\<close>

definition flags_kept :: "bench_worker \<Rightarrow> shared_state \<Rightarrow> bench_worker \<Rightarrow> shared_state \<Rightarrow> bool" where
  "flags_kept w h w' h' \<longleftrightarrow>
     (bw_precheck_done w \<longrightarrow> bw_precheck_done w') \<and> (bw_prefill_done w \<longrightarrow> bw_prefill_done w') \<and>
     sh_precheck_done h' =
       (if bw_precheck_done w' \<and> \<not> bw_precheck_done w then wrapping_add (sh_precheck_done h) 1 else sh_precheck_done h) \<and>
     sh_prefill_complete h' =
       (if bw_prefill_done w' \<and> \<not> bw_prefill_done w then wrapping_add (sh_prefill_complete h) 1 else sh_prefill_complete h)"

lemmas flag_defs = flags_kept_def mark_precheck_done_def set_prefill_done_def mark_precheck_complete_def mark_prefill_complete_def

lemma flags_kept_refl [simp]: "flags_kept w h w h"
  by (simp add: flags_kept_def)

lemma set_prefill_done_kept: "set_prefill_done w h = (w', h') \<Longrightarrow> flags_kept w h w' h'"
  by (auto simp: flag_defs split: if_splits)

lemma confirm_prefill_kept: "confirm_prefill_key w h = (w', h') \<Longrightarrow> flags_kept w h w' h'"
  by (auto simp: flag_defs confirm_prefill_key_def add_prefill_confirmed_def Let_def split: if_splits)

lemma prechecked_kept:
  assumes "prechecked w g = (w', g')"
  shows "flags_kept w (cs_shared g) w' (cs_shared g')" "bw_precheck_done w'" "cs_active g' = cs_active g"
    "cs_append_active g' = cs_append_active g"
  using assms by (auto simp: flag_defs prechecked_def split: if_splits prod.splits)

lemma gauge_move_simps [simp]:
  "cs_shared (gauge_move kind x g) = cs_shared g"
  "cs_active (gauge_move kind x g) = cs_active g + (if is_writer kind then 0 else x)"
  "cs_append_active (gauge_move kind x g) = cs_append_active g + (if is_writer kind then x else 0)"
  by (simp_all add: gauge_move_def)

lemma disconnect_simps [simp]:
  "cs_shared (record_disconnect_reason r g) = cs_shared g" "cs_active (record_disconnect_reason r g) = cs_active g"
  "cs_append_active (record_disconnect_reason r g) = cs_append_active g"
  "cs_shared (connect_failed g) = cs_shared g" "cs_active (connect_failed g) = cs_active g"
  "cs_append_active (connect_failed g) = cs_append_active g"
  by (simp_all add: record_disconnect_reason_def connect_failed_def)

lemma tell_kv_kept [simp]:
  "flags_kept w h (tell_kv kv kind w) h" "bw_precheck_done (tell_kv kv kind w) = bw_precheck_done w"
  by (cases kind; simp add: tell_kv_def flags_kept_def)+

text \<open>What a part of a task does to the counts, from a task that was connected or not.\<close>

definition counted :: "conn_kind \<Rightarrow> bool \<Rightarrow> bench_worker \<Rightarrow> conn_shared \<Rightarrow> conn_at \<times> bench_worker \<times> conn_shared \<Rightarrow> bool" where
  "counted kind up w g out \<longleftrightarrow>
     (case out of (pc, w', g') \<Rightarrow>
        flags_kept w (cs_shared g) w' (cs_shared g') \<and>
        cs_active g' = cs_active g + (if is_writer kind then 0 else of_bool (conn_up pc) - of_bool up) \<and>
        cs_append_active g' = cs_append_active g + (if is_writer kind then of_bool (conn_up pc) - of_bool up else 0))"

lemma task_parked_counted: "counted kind True w g (task_parked kind ph\<^sub>1 ph\<^sub>2 w g)"
  by (simp add: task_parked_def counted_def)

lemma prechecked_counted:
  assumes "prechecked w g = (w', g')"
  shows "counted kind True w g (task_parked kind ph\<^sub>1 ph\<^sub>2 w' g')"
  using prechecked_kept [OF assms] by (cases "ph\<^sub>1 = Precheck"; cases "should_stop ph\<^sub>2") (simp_all add: task_parked_def counted_def)

lemma task_precheck_counted: "counted kind True w g (task_precheck kind ph\<^sub>1 ph\<^sub>2 ph\<^sub>3 w g)"
proof -
  obtain w' g' where "prechecked w g = (w', g')" by fastforce
  moreover have "counted kind True w g (Prechecking, w, g)" "counted kind True w g (Driving, w, g)" by (simp_all add: counted_def)
  ultimately show ?thesis using prechecked_counted [of w g w' g' "Memcache_reader True" ph\<^sub>2 ph\<^sub>3]
    by (auto simp: task_precheck_def)
qed

lemma task_failed_counted: "counted kind True w g (task_failed kv kind w g)"
  by (simp add: task_failed_def counted_def)

lemma task_resume_counted: "counted kind (conn_up pc) w g (task_resume kv kind ph\<^sub>1 ph\<^sub>2 ph\<^sub>3 pc ev w g)"
proof (cases "(kv, kind, ph\<^sub>1, ph\<^sub>2, ph\<^sub>3, pc, ev, w, g)" rule: task_resume.cases)
  case (1 kv kind ph1 ph2 ph3 ok w g)
  then show ?thesis using task_precheck_counted [of kind w "gauge_move kind 1 g" ph1 ph2 ph3]
    by (auto simp: Let_def counted_def split: prod.splits)
next
  case (3 kv kind ph1 ph2 ph3 ok w g)
  obtain w' g' where "prechecked w g = (w', g')" by fastforce
  with 3 show ?thesis using prechecked_counted [of w g w' g' kind ph1 ph2] by (simp add: task_failed_counted)
qed (simp_all add: task_precheck_counted task_failed_counted task_parked_counted,
    auto simp: counted_def task_top_def Let_def split: option.splits)

lemma count_flags_update:
  assumes "i < length ws"
  shows "count_flags f (ws[i := w]) + of_bool (f (ws ! i)) = count_flags f ws + of_bool (f w)"
  using assms
proof (induction ws arbitrary: i)
  case (Cons a ws)
  then show ?case by (cases i) (auto simp: count_flags_def)
qed simp

lemma count_tasks_update:
  assumes "j < length ts" and "ts ! j = (i, kind, pc)"
  shows "int (count_tasks b (ts[j := (i, kind, pc')])) =
    int (count_tasks b ts) + (if is_writer kind = b then of_bool (conn_up pc') - of_bool (conn_up pc) else 0)"
  using assms
proof (induction ts arbitrary: j)
  case (Cons a ts)
  then show ?case by (cases j) (auto simp: count_tasks_def)
qed simp

definition conn_inv :: "conn_system \<Rightarrow> bool" where
  "conn_inv S \<longleftrightarrow>
     (\<forall>(i, kind, pc)\<in>set (cy_tasks S). i < length (cy_workers S)) \<and> length (cy_workers S) \<le> U64_MAX \<and>
     cs_active (cy_globals S) = int (count_tasks False (cy_tasks S)) \<and>
     cs_append_active (cy_globals S) = int (count_tasks True (cy_tasks S)) \<and>
     sh_precheck_done (cs_shared (cy_globals S)) = count_flags bw_precheck_done (cy_workers S) \<and>
     sh_prefill_complete (cs_shared (cy_globals S)) = count_flags bw_prefill_done (cy_workers S)"

lemma flag_counted:
  assumes "i < length ws" and "length ws \<le> U64_MAX" and "f (ws ! i) \<longrightarrow> f w'" and "n = count_flags f ws"
    and "n' = (if f w' \<and> \<not> f (ws ! i) then wrapping_add n 1 else n)"
  shows "n' = count_flags f (ws[i := w'])"
proof -
  have c: "count_flags f (ws[i := w']) + of_bool (f (ws ! i)) = count_flags f ws + of_bool (f w')"
    by (rule count_flags_update [OF assms(1)])
  have "count_flags f ws + 1 \<le> length ws" if no: "\<not> f (ws ! i)"
    using length_filter_less [of "ws ! i" ws f] no assms(1) by (simp add: count_flags_def)
  then have "wrapping_add n 1 = n + 1" if "\<not> f (ws ! i)" using that assms(2,4) by (intro wrapping_add_exact) simp
  then show ?thesis using c assms(3,4,5) by (cases "f (ws ! i)") auto
qed

lemma flags_step:
  assumes inv: "conn_inv S" and i: "i < length (cy_workers S)"
    and kept: "flags_kept (cy_workers S ! i) (cs_shared (cy_globals S)) w' h'"
  shows "sh_precheck_done h' = count_flags bw_precheck_done ((cy_workers S)[i := w']) \<and>
    sh_prefill_complete h' = count_flags bw_prefill_done ((cy_workers S)[i := w'])"
proof -
  have I: "length (cy_workers S) \<le> U64_MAX" "sh_precheck_done (cs_shared (cy_globals S)) = count_flags bw_precheck_done (cy_workers S)"
    "sh_prefill_complete (cs_shared (cy_globals S)) = count_flags bw_prefill_done (cy_workers S)"
    using inv by (simp_all add: conn_inv_def)
  note K = kept [unfolded flags_kept_def]
  show ?thesis
    using flag_counted [OF i I(1) _ I(2), of w' "sh_precheck_done h'"] flag_counted [OF i I(1) _ I(3), of w' "sh_prefill_complete h'"] K
    by blast
qed

lemma conn_reach_inv: "conn_reach kv S \<Longrightarrow> conn_inv S"
proof (induction rule: conn_reach.induct)
  case (conn_start S)
  have "count_tasks b (cy_tasks S) = 0" for b
    using conn_start(1) by (auto simp: count_tasks_def filter_empty_conv)
  then show ?case using conn_start by (auto simp: conn_inv_def)
next
  case (conn_task S j i kind pc ph1 ph2 ph3 ev pc' w' g')
  have i: "i < length (cy_workers S)"
    using conn_task.IH conn_task.hyps(2,3) unfolding conn_inv_def by (metis (no_types, lifting) case_prodD nth_mem)
  have c: "counted kind (conn_up pc) (cy_workers S ! i) (cy_globals S) (pc', w', g')"
    using task_resume_counted [of kind pc "cy_workers S ! i" "cy_globals S" kv ph1 ph2 ph3 ev] conn_task.hyps(4) by (simp add: connection_task_resumes)
  then have "flags_kept (cy_workers S ! i) (cs_shared (cy_globals S)) w' (cs_shared g')" by (simp add: counted_def)
  note fl = flags_step [OF conn_task.IH i this]
  have tasks: "\<forall>(i, kind, pc)\<in>set ((cy_tasks S)[j := (i, kind, pc')]). i < length (cy_workers S)"
    using conn_task.IH i unfolding conn_inv_def by (auto dest!: set_update_subset_insert [THEN subsetD])
  show ?case
    using conn_task.IH tasks fl c count_tasks_update [OF conn_task.hyps(2,3), of _ pc'] by (auto simp: conn_inv_def counted_def)
next
  case (conn_confirm S i w' h')
  then show ?case using flags_step [OF conn_confirm.IH conn_confirm.hyps(2) confirm_prefill_kept] by (simp add: conn_inv_def)
next
  case (conn_ping S i w' h')
  then show ?case using flags_step [OF conn_ping.IH conn_ping.hyps(2) set_prefill_done_kept] by (simp add: conn_inv_def)
next
  case (conn_phase S ph)
  then show ?case by (simp add: conn_inv_def set_phase_def)
qed

text \<open>A worker with keys to prefill reports itself complete at the last of them, once, however many confirmations follow.\<close>

fun confirm_times :: "nat \<Rightarrow> bench_worker \<Rightarrow> shared_state \<Rightarrow> bench_worker \<times> shared_state" where
  "confirm_times 0 w h = (w, h)"
| "confirm_times (Suc n) w h = (let (w, h) = confirm_times n w h in confirm_prefill_key w h)"

lemma confirm_times_complete:
  assumes "bw_prefill_confirmed w = 0" "\<not> bw_prefill_done w" "0 < bw_prefill_total w" and "n < U64_LIMIT"
    and "confirm_times n w h = (w', h')"
  shows "bw_prefill_confirmed w' = n \<and> bw_prefill_total w' = bw_prefill_total w \<and> (bw_prefill_done w' \<longleftrightarrow> bw_prefill_total w \<le> n) \<and>
    sh_prefill_complete h' = (if bw_prefill_total w \<le> n then wrapping_add (sh_prefill_complete h) 1 else sh_prefill_complete h)"
  using assms(4,5)
proof (induction n arbitrary: w' h')
  case 0
  then show ?case using assms(1-3) by simp
next
  case (Suc n)
  obtain w1 h1 where 1: "confirm_times n w h = (w1, h1)" by fastforce
  note IH = Suc.IH [OF Suc_lessD [OF Suc.prems(1)] 1]
  have "wrapping_add n 1 = Suc n" using Suc.prems(1) wrapping_add_exact [of n 1] by simp
  then show ?case using IH Suc.prems(2) 1 assms(3)
    by (auto simp: confirm_prefill_key_def set_prefill_done_def add_prefill_confirmed_def mark_prefill_complete_def Let_def
        split: if_splits)
qed



section \<open>The workers spawn every connection\<close>

lemma spawn_all_counts:
  "spawn_all accepts i ts g = (us, g') \<Longrightarrow>
    length us + cs_failed g' = length ts + cs_failed g \<and> cs_shared g' = cs_shared g \<and> ((\<forall>i. accepts i) \<longrightarrow> us = ts)"
  by (induction accepts i ts g arbitrary: us g' rule: spawn_all.induct) (fastforce split: if_splits prod.splits)+

lemma count_per_node_spec:
  "\<forall>e\<in>set es. e < length cnt \<Longrightarrow> \<exists>cnt'. count_per_node cnt es = Some cnt' \<and> length cnt' = length cnt \<and>
    (\<forall>e<length cnt. cnt' ! e = cnt ! e + count_list es e)"
proof (induction cnt es rule: count_per_node.induct)
  case (2 cnt e es)
  then have "e < length cnt" by simp
  then obtain cnt' where "count_per_node (cnt[e := cnt ! e + 1]) es = Some cnt'" "length cnt' = length cnt"
    "\<forall>e'<length cnt. cnt' ! e' = cnt[e := cnt ! e + 1] ! e' + count_list es e'"
    using 2 by auto
  then show ?case using \<open>e < length cnt\<close> by (simp add: nth_list_update)
qed simp

lemma my_slice:
  assumes "0 < threads" "w < threads" "connection_endpoints alloc shares tot n = Some a" "length a = tot"
  shows "my_connection_endpoints alloc shares tot threads n (fst (connection_share tot threads w)) w =
    Some (snd (connection_share tot threads w), take (fst (connection_share tot threads w)) (drop (snd (connection_share tot threads w)) a))"
proof -
  have "max threads 1 = threads" using assms(1) by simp
  then show ?thesis using connection_share_bound [OF assms(1,2), of tot] assms(3,4)
    by (simp add: my_connection_endpoints_def connection_share_def Let_def subslice_def)
qed

lemma slices_concat:
  assumes "0 < threads" "length a = tot"
  shows "m \<le> threads \<Longrightarrow> concat (map (\<lambda>w. take (fst (connection_share tot threads w)) (drop (snd (connection_share tot threads w)) a)) [0..<m])
    = take (snd (connection_share tot threads m)) a"
proof (induction m)
  case 0
  then show ?case by (simp add: connection_share_def Let_def)
next
  case (Suc m)
  then have "snd (connection_share tot threads (Suc m)) = snd (connection_share tot threads m) + fst (connection_share tot threads m)"
    using connection_share_next [OF assms(1), of m tot] by simp
  with Suc show ?case by (simp add: take_add)
qed

text \<open>What one worker's start leaves, with its slice \<open>es\<close> of the endpoints.\<close>

definition started_ok :: "config \<Rightarrow> nat \<Rightarrow> nat list \<Rightarrow> nat \<Rightarrow> (nat \<Rightarrow> bool) \<Rightarrow> conn_shared \<Rightarrow> worker_start \<Rightarrow> bool" where
  "started_ok cfg n es writers accepts g s \<longleftrightarrow>
     length (ws_readers s) + length (ws_writers s) + cs_failed (ws_globals s) = length es + writers + cs_failed g \<and>
     cs_shared (ws_globals s) = mark_worker_started (cs_shared g) \<and>
     (\<forall>q seed. ws_funding s = By_node q seed \<longrightarrow> map nq_cap (rq_nodes q) =
        map (\<lambda>e. saturating_mul (saturating_mul (count_list es e) (cn_pipeline_depth (cf_connection cfg))) ROUTED_QUEUE_PIPELINES) [0..<n]) \<and>
     ((\<forall>i. accepts i) \<longrightarrow> map (\<lambda>(kind, e, seed). e) (ws_readers s) = es)"

lemma start_funding_ok:
  assumes "my_connection_endpoints (cn_endpoint_allocation (cf_connection cfg)) shares (total_connections (cf_connection cfg))
      (gn_threads (cf_general cfg)) n mine w = Some (first, es)" and "\<forall>e\<in>set es. e < n" and "0 < n"
  shows "\<exists>f. start_funding True limited cfg run shares n mine w = Some f \<and>
    (\<forall>q seed. f = By_node q seed \<longrightarrow> map nq_cap (rq_nodes q) =
        map (\<lambda>e. saturating_mul (saturating_mul (count_list es e) (cn_pipeline_depth (cf_connection cfg))) ROUTED_QUEUE_PIPELINES) [0..<n])"
proof -
  have "max n 1 = n" using assms(3) by simp
  moreover obtain per where "count_per_node (replicate n 0) es = Some per" "length per = n" "\<forall>e<n. per ! e = count_list es e"
    using count_per_node_spec [of es "replicate n 0"] assms(2) by auto
  moreover from this(2,3) have "per = map (count_list es) [0..<n]" by (intro nth_equalityI) simp_all
  ultimately show ?thesis using assms(1) by (simp add: start_funding_def routed_new_def o_def)
qed

lemma on_start_ok:
  assumes "my_connection_endpoints (cn_endpoint_allocation (cf_connection cfg)) shares (total_connections (cf_connection cfg))
      (gn_threads (cf_general cfg)) n mine w = Some (first, es)" and "\<forall>e\<in>set es. e < n" and "0 < n"
    and "tg_protocol (cf_target cfg) \<noteq> Dma"
    and writers: "writers = length (spawn_append_tasks run (map_option ap_connections (wl_append (cf_workload cfg))) n (gn_threads (cf_general cfg)) w)"
  shows "\<exists>s. on_start True kv_ok accepts accepts_writer limited kv cfg run shares n mine w g = Some s \<and> started_ok cfg n es writers accepts g s"
proof -
  obtain f where f: "start_funding True limited cfg run shares n mine w = Some f"
    "\<forall>q seed. f = By_node q seed \<longrightarrow> map nq_cap (rq_nodes q) =
        map (\<lambda>e. saturating_mul (saturating_mul (count_list es e) (cn_pipeline_depth (cf_connection cfg))) ROUTED_QUEUE_PIPELINES) [0..<n]"
    using start_funding_ok [OF assms(1-3), of limited run] by blast
  let ?ts = "map (\<lambda>(i, e). (reader_kind (tg_protocol (cf_target cfg)), e, connection_seed run Reader w i)) (enumerate 0 es)"
  obtain us g1 where 1: "spawn_all accepts 0 ?ts g = (us, g1)" by fastforce
  let ?ws = "map (Pair (writer_kind (tg_protocol (cf_target cfg))))
    (spawn_append_tasks run (map_option ap_connections (wl_append (cf_workload cfg))) n (gn_threads (cf_general cfg)) w)"
  obtain vs g2 where 2: "spawn_all accepts_writer 0 ?ws g1 = (vs, g2)" by fastforce
  have "map (\<lambda>(kind, e, seed). e) ?ts = map snd (enumerate 0 es)" by (simp add: split_beta o_def)
  then have e: "map (\<lambda>(kind, e, seed). e) ?ts = es" by simp
  show ?thesis
    using assms(1,4) f 1 2 spawn_all_counts [OF 1] spawn_all_counts [OF 2] e writers
    by (auto simp: on_start_def spawn_protocol_tasks_def started_ok_def)
qed



end
