(* ===== verification/F64_Order.thy ===== *)
theory F64_Order
  imports F64
begin

text \<open>
  Rounding keeps order and fixes what it has produced, so sums, products and quotients of
  non-negative floats are monotone; what the cumulative weights of the recency distribution need.
\<close>

section \<open>The rounding of a positive number\<close>

text \<open>The exponent and the significand of \<open>rnd\<close>.\<close>

definition rexp :: "rat \<Rightarrow> int" where "rexp q = max (flog2 \<bar>q\<bar>) (-1022)"
definition rsig :: "rat \<Rightarrow> int" where "rsig q = round_half_even (q / pow2 (rexp q - 52))"

lemma rnd_parts:
  "0 < q \<Longrightarrow> rnd q = (if rexp q > 1023 \<or> rexp q = 1023 \<and> rsig q \<ge> 2 ^ 53 then Inf False
     else Fin (of_int (rsig q) * pow2 (rexp q - 52)))"
proof -
  assume q: "0 < q"
  have "0 \<le> rsig q"
    using round_half_even_mono [of 0 "q / pow2 (rexp q - 52)"] round_half_even_int [of 0] q by (simp add: rsig_def less_imp_le)
  then have "\<bar>rsig q\<bar> = rsig q" by simp
  moreover have "rnd q = (if rexp q > 1023 \<or> rexp q = 1023 \<and> \<bar>rsig q\<bar> \<ge> 9007199254740992 then Inf (q < 0)
     else Fin (of_int (rsig q) * pow2 (rexp q - 52)))"
    using q by (simp only: rnd_def Let_def rexp_def rsig_def less_imp_neq [THEN not_sym] if_False)
  ultimately show ?thesis using q by simp
qed

lemma rsig_bounds:
  assumes "0 < q"
  shows "0 \<le> rsig q" and "rsig q \<le> 2 ^ 53" and "-1022 < rexp q \<Longrightarrow> 2 ^ 52 \<le> rsig q"
proof -
  show "0 \<le> rsig q"
    using round_half_even_mono [of 0 "q / pow2 (rexp q - 52)"] round_half_even_int [of 0] assms by (simp add: rsig_def less_imp_le)
  have "q < pow2 (flog2 q + 1)" using flog2_bounds [OF assms] by simp
  also have "\<dots> \<le> pow2 (rexp q + 1)" using assms by (intro pow2_mono) (simp add: rexp_def)
  also have "\<dots> = pow2 (rexp q - 52) * 2 ^ 53" using pow2_add_nat [of "rexp q - 52" 53] by (simp add: add.commute)
  finally have "q / pow2 (rexp q - 52) \<le> of_int (2 ^ 53)" by (simp add: field_simps)
  then show "rsig q \<le> 2 ^ 53" unfolding rsig_def by (metis round_half_even_int round_half_even_mono)
  assume "-1022 < rexp q"
  then have "rexp q = flog2 q" using assms by (simp add: rexp_def)
  then have "pow2 (rexp q) \<le> q" using flog2_bounds [OF assms] by simp
  moreover have "pow2 (rexp q) = pow2 (rexp q - 52) * 2 ^ 52" using pow2_add_nat [of "rexp q - 52" 52] by simp
  ultimately have "of_int (2 ^ 52) \<le> q / pow2 (rexp q - 52)" by (simp add: field_simps)
  then show "2 ^ 52 \<le> rsig q" unfolding rsig_def by (metis round_half_even_int round_half_even_mono)
qed

lemma flog2_mono: "0 < a \<Longrightarrow> a \<le> b \<Longrightarrow> flog2 a \<le> flog2 b"
  using flog2_bounds [of a] flog2_bounds [of b] pow2_less_cancel [of "flog2 a" "flog2 b + 1"] by force

section \<open>Order\<close>

text \<open>At most, for values that are not NaN and not negative.\<close>

fun f_leq :: "f64 \<Rightarrow> f64 \<Rightarrow> bool" where
  "f_leq (Fin a) (Fin b) = (a \<le> b)"
| "f_leq (Fin a) (Inf s) = (\<not> s)"
| "f_leq (Inf False) (Inf False) = True"
| "f_leq x y = False"

lemma rnd_mono:
  assumes "0 \<le> a" and "a \<le> b"
  shows "f_leq (rnd a) (rnd b)"
proof (cases "a = 0")
  case True
  show ?thesis
  proof (cases "b = 0")
    case True
    with \<open>a = 0\<close> show ?thesis by (simp add: rnd_def)
  next
    case False
    with assms have "0 < b" by simp
    then show ?thesis using True rnd_parts [of b] rsig_bounds(1) [of b] by (simp add: rnd_def [of 0])
  qed
next
  case False
  with assms have a: "0 < a" and b: "0 < b" by simp_all
  have e: "rexp a \<le> rexp b" using flog2_mono [OF a assms(2)] a b by (simp add: rexp_def)
  show ?thesis
  proof (cases "rexp a = rexp b")
    case True
    have "rsig a \<le> rsig b"
      using assms(2) True unfolding rsig_def by (intro round_half_even_mono) (simp add: divide_right_mono)
    then show ?thesis using True rnd_parts [OF a] rnd_parts [OF b] by (auto simp: mult_right_mono)
  next
    case False
    then have lt: "rexp a + 1 \<le> rexp b" using e by simp
    have sb: "2 ^ 52 \<le> rsig b" using rsig_bounds(3) [OF b] lt by (simp add: rexp_def)
    have sa: "rsig a \<le> 2 ^ 53" by (rule rsig_bounds(2) [OF a])
    have "of_int (rsig a) * pow2 (rexp a - 52) \<le> of_int (2 ^ 53) * pow2 (rexp a - 52)"
      using sa by (intro mult_right_mono) (simp_all only: of_int_le_iff pow2_nonneg)
    also have "\<dots> = of_int (2 ^ 52) * pow2 (rexp a + 1 - 52)" using pow2_add_nat [of "rexp a - 52" 1] by (simp add: algebra_simps)
    also have "\<dots> \<le> of_int (rsig b) * pow2 (rexp b - 52)"
      using sb lt by (intro mult_mono pow2_mono) (simp_all only: of_int_le_iff pow2_nonneg of_int_0_le_iff, simp_all)
    finally show ?thesis using rnd_parts [OF a] rnd_parts [OF b] lt by auto
  qed
qed

text \<open>A product of at most 53 bits and a power of two in range is a float.\<close>

lemma rnd_exact:
  assumes r: "r = of_int m * pow2 k" and m: "0 < m" "m \<le> 2 ^ 53" and k: "-1074 \<le> k" and small: "r < pow2 1024"
  shows "rnd r = Fin r"
proof -
  have pos: "0 < r" using r m(1) by simp
  note fl = flog2_bounds [OF pos]
  have "r \<le> of_int (2 ^ 53) * pow2 k" using r m(2) by (simp only: mult_right_mono of_int_le_iff pow2_nonneg)
  then have top: "r \<le> pow2 (k + 53)" using pow2_add_nat [of k 53] by (simp add: mult.commute)
  have "pow2 (flog2 r) \<le> pow2 (k + 53)" using fl top by simp
  also have "pow2 (k + 53) < pow2 (k + 53 + 1)" using pow2_add_nat [of "k + 53" 1] pow2_pos [of "k + 53"] by simp
  finally have "pow2 (flog2 r) < pow2 (k + 53 + 1)" .
  then have le: "flog2 r \<le> k + 53" using pow2_less_cancel by fastforce
  have e1024: "flog2 r < 1024" using flog2_le [OF pos small] .
  obtain n :: int where n: "r = of_int n * pow2 (rexp r - 52)" and n53: "n < 2 ^ 53"
  proof (cases "flog2 r \<le> k + 52")
    case True
    then have "rexp r - 52 \<le> k" using k pos by (simp add: rexp_def)
    then obtain j where j: "k = rexp r - 52 + int j" by (metis zle_iff_zadd)
    have "pow2 k = pow2 (rexp r - 52) * 2 ^ j" by (subst j) (rule pow2_add_nat)
    then have eq: "r = of_int (m * 2 ^ j) * pow2 (rexp r - 52)" by (subst r) simp
    have "r < pow2 (rexp r + 1)"
      using fl pos pow2_mono [of "flog2 r + 1" "rexp r + 1"] by (simp add: rexp_def)
    then have "of_int (m * 2 ^ j) * pow2 (rexp r - 52) < of_int (2 ^ 53) * pow2 (rexp r - 52)"
      using eq pow2_add_nat [of "rexp r - 52" 53] by (simp add: algebra_simps)
    then have "m * 2 ^ j < 2 ^ 53" by (simp only: mult_less_cancel_right_disj of_int_less_iff) (simp add: less_le_not_le)
    with eq show ?thesis by (rule that)
  next
    case False
    then have f: "flog2 r = k + 53" using le by simp
    then have "r = pow2 (k + 53)" using fl top by (simp add: antisym)
    moreover have "rexp r = k + 53" using f k pos by (simp add: rexp_def)
    ultimately have "r = of_int (2 ^ 52) * pow2 (rexp r - 52)" using pow2_add_nat [of "k + 1" 52] by (simp add: algebra_simps)
    then show ?thesis by (rule that) simp
  qed
  have "rsig r = round_half_even (of_int n)" unfolding rsig_def by (subst n) simp
  then have "rsig r = n" by simp
  then show ?thesis using rnd_parts [OF pos] n n53 e1024 pos by (auto simp: rexp_def)
qed

lemma rnd_idem:
  assumes "0 \<le> q" and "rnd q = Fin r"
  shows "rnd r = Fin r"
proof (cases "q = 0 \<or> r = 0")
  case True
  then show ?thesis using assms by (auto simp: rnd_def)
next
  case False
  then have q: "0 < q" and r0: "r \<noteq> 0" using assms(1) by simp_all
  have r: "r = of_int (rsig q) * pow2 (rexp q - 52)" and fin: "\<not> (rexp q > 1023 \<or> rexp q = 1023 \<and> rsig q \<ge> 2 ^ 53)"
    using assms(2) rnd_parts [OF q] by (auto split: if_splits)
  have m: "0 < rsig q" using rsig_bounds(1) [OF q] r r0 by (cases "rsig q = 0") auto
  have k: "-1074 \<le> rexp q - 52" by (simp add: rexp_def)
  have "r < pow2 1024"
  proof (cases "rexp q = 1023")
    case True
    then have "rsig q < 2 ^ 53" using fin by simp
    then have "r < of_int (2 ^ 53) * pow2 971" unfolding r True by (simp add: mult_strict_right_mono)
    then show ?thesis using pow2_add_nat [of 971 53] by (simp add: mult.commute)
  next
    case False
    then have "rexp q - 52 \<le> 970" using fin by simp
    then have "of_int (rsig q) * pow2 (rexp q - 52) \<le> of_int (2 ^ 53) * pow2 970"
      using rsig_bounds(2) [OF q] by (intro mult_mono pow2_mono) (simp_all only: of_int_le_iff pow2_nonneg of_int_0_le_iff, simp_all)
    also have "\<dots> = pow2 1023" using pow2_add_nat [of 970 53] by (simp add: mult.commute)
    also have "\<dots> < pow2 1024" using pow2_add_nat [of 1023 1] by simp
    finally show ?thesis using r by simp
  qed
  then show ?thesis using rnd_exact [OF r m rsig_bounds(2) [OF q] k] by simp
qed

lemma rnd_nonneg: "0 \<le> q \<Longrightarrow> rnd q = Fin r \<Longrightarrow> 0 \<le> r"
  using rnd_mono [of 0 q] by (simp add: rnd_def [of 0])

text \<open>Adding a non-negative float to a float does not lower it.\<close>

lemma rnd_add_ge:
  assumes "rnd a = Fin a" and "0 \<le> a" and "0 \<le> w"
  shows "f_leq (Fin a) (rnd (a + w))"
  using rnd_mono [of a "a + w"] assms by simp

lemma rnd_le:
  assumes "0 \<le> q" and "q \<le> b" and "rnd b = Fin b" and "rnd q = Fin r"
  shows "r \<le> b"
  using rnd_mono [OF assms(1,2)] assms(3,4) by simp

end
