(* ===== verification/Keydist.thy ===== *)
theory Keydist
  imports F64_Order Config Append_Writer
begin

text \<open>
  How key ids are drawn (\<open>src/keydist.rs\<close>): uniform, zipf and recency samplers, their construction
  from the workload, and the zipf sampler of one endpoint's keys.

  The random generator and the crate \<open>rand_distr\<close> (the zipf sampler and the alias table) are a record of
  operations, \<open>draws\<close>, with what their documentation promises as \<open>draws_ok\<close>; so is \<open>powf\<close>. Panics are
  \<open>None\<close>: an empty range, a violated \<open>assert!\<close>, an index out of range. The head of a
  recency sampler is the shared counter the main thread advances: its value at the draw is a field.
  Sizes are \<open>usize\<close>, multiplied with wrap-around where the code does not saturate.
\<close>

section \<open>Random draws\<close>

record 'g draws =
  dw_range :: "nat \<Rightarrow> nat \<Rightarrow> 'g \<Rightarrow> nat \<times> 'g"
  dw_unit :: "'g \<Rightarrow> f64 \<times> 'g"
  dw_zipf_ok :: "f64 \<Rightarrow> f64 \<Rightarrow> bool"
  dw_zipf :: "f64 \<Rightarrow> f64 \<Rightarrow> 'g \<Rightarrow> f64 \<times> 'g"
  dw_alias_ok :: "f64 list \<Rightarrow> bool"
  dw_alias :: "f64 list \<Rightarrow> 'g \<Rightarrow> nat \<times> 'g"
  dw_powf :: "f64 \<Rightarrow> f64 \<Rightarrow> f64"

text \<open>A range draw lies in the range, a unit draw in \<open>[0, 1)\<close>, and an alias draw is an index of the weights.\<close>

definition draws_ok :: "'g draws \<Rightarrow> bool" where
  "draws_ok D \<longleftrightarrow>
     (\<forall>lo hi g. lo < hi \<longrightarrow> lo \<le> fst (dw_range D lo hi g) \<and> fst (dw_range D lo hi g) < hi) \<and>
     (\<forall>g. \<exists>u. fst (dw_unit D g) = Fin u \<and> 0 \<le> u \<and> u < 1) \<and>
     (\<forall>ws g. dw_alias_ok D ws \<longrightarrow> fst (dw_alias D ws g) < length ws)"

definition random_range :: "'g draws \<Rightarrow> nat \<Rightarrow> nat \<Rightarrow> 'g \<Rightarrow> (nat \<times> 'g) option" where
  "random_range D lo hi g = (if lo < hi then Some (dw_range D lo hi g) else None)"

section \<open>Recency\<close>

record recency =
  re_head :: nat
  re_batch :: nat
  re_generations :: nat
  re_hot_fraction :: f64
  re_cdf :: "f64 list"

text \<open>The cumulative weights of \<open>n\<close> generations from the sum so far and the next weight, and the whole sum.\<close>

fun cumulate :: "f64 \<Rightarrow> nat \<Rightarrow> f64 \<Rightarrow> f64 \<Rightarrow> f64 list \<times> f64" where
  "cumulate decay 0 acc w = ([], acc)"
| "cumulate decay (Suc n) acc w =
     (let acc = f_add acc w; (cs, total_weight) = cumulate decay n acc (f_mul w decay) in (acc # cs, total_weight))"

definition recency_new :: "nat \<Rightarrow> nat \<Rightarrow> nat \<Rightarrow> f64 \<Rightarrow> f64 \<Rightarrow> recency option" where
  "recency_new initial_head batch generations decay hot_fraction =
     (if batch \<ge> 1 \<and> generations \<ge> 1 \<and> (is_finite decay \<and> f_lt (Fin 0) decay \<and> f_le decay (Fin 1)) \<and>
         (is_finite hot_fraction \<and> f_le (Fin 0) hot_fraction \<and> f_le hot_fraction (Fin 1)) then
        let (cdf, acc) = cumulate decay generations (Fin 0) (Fin 1)
        in Some \<lparr>re_head = initial_head, re_batch = batch, re_generations = generations, re_hot_fraction = hot_fraction,
             re_cdf = map (\<lambda>c. f_div c acc) cdf\<rparr>
      else None)"

text \<open>\<open>partition_point\<close> of a list that is partitioned (which \<open>cdf_sorted\<close> shows): where the test first fails.\<close>

definition sample_generation :: "'g draws \<Rightarrow> recency \<Rightarrow> 'g \<Rightarrow> nat \<times> 'g" where
  "sample_generation D r g =
     (let (u, g) = dw_unit D g
      in (min (length (takeWhile (\<lambda>c. f_le c u) (re_cdf r))) (re_generations r - 1), g))"

definition recency_sample :: "'g draws \<Rightarrow> recency \<Rightarrow> 'g \<Rightarrow> (nat \<times> 'g) option" where
  "recency_sample D r g =
     (let head = re_head r in
      if head = 0 then Some (0, g)
      else
        let hot_span = saturating_mul (re_generations r) (re_batch r); body_hi = saturating_sub head hot_span;
            (u, g) = dw_unit D g
        in if f_lt u (re_hot_fraction r) then
             let (a, g) = sample_generation D r g;
                 hi = saturating_sub head (wrapping_mul a (re_batch r));
                 lo = saturating_sub head (wrapping_mul (a + 1) (re_batch r))
             in if hi > lo then random_range D lo hi g else random_range D 0 head g
           else if body_hi = 0 then random_range D 0 head g
           else random_range D 0 body_hi g)"

section \<open>Zipf\<close>

record endpoint_zipf =
  ez_keys :: "nat list list"
  ez_tables :: "f64 list option list" \<comment> \<open>the weights an alias table is built from\<close>
  ez_shares :: "f64 list"

definition zipf_weights :: "'g draws \<Rightarrow> f64 \<Rightarrow> nat list \<Rightarrow> f64 list" where
  "zipf_weights D theta ids = map (\<lambda>id. dw_powf D (f_add (f_of_nat id) (Fin 1)) (f_neg theta)) ids"

definition endpoint_zipf_new :: "'g draws \<Rightarrow> nat list list \<Rightarrow> f64 \<Rightarrow> endpoint_zipf option" where
  "endpoint_zipf_new D keys theta =
     (if \<forall>ids\<in>set keys. ids \<noteq> [] \<longrightarrow> dw_alias_ok D (zipf_weights D theta ids) then
        let shares = map (\<lambda>ids. if ids = [] then Fin 0 else foldl f_add (Fin 0) (zipf_weights D theta ids)) keys;
            total_share = foldl f_add (Fin 0) shares
        in Some \<lparr>ez_keys = keys,
             ez_tables = map (\<lambda>ids. if ids = [] then None else Some (zipf_weights D theta ids)) keys,
             ez_shares = map (\<lambda>s. f_div s total_share) shares\<rparr>
      else None)"

text \<open>The outer option is a panic; the inner one is for an endpoint without keys.\<close>

definition endpoint_zipf_sample :: "'g draws \<Rightarrow> endpoint_zipf \<Rightarrow> nat \<Rightarrow> 'g \<Rightarrow> (nat option \<times> 'g) option" where
  "endpoint_zipf_sample D z ep g =
     (if ep < length (ez_tables z) then
        (case ez_tables z ! ep of
           None \<Rightarrow> Some (None, g)
         | Some ws \<Rightarrow>
             let (i, g) = dw_alias D ws g in
             if ep < length (ez_keys z) \<and> i < length (ez_keys z ! ep) then Some (Some (ez_keys z ! ep ! i), g) else None)
      else None)"

record zipfian =
  zf_n :: nat
  zf_theta :: f64
  zf_by_endpoint :: "endpoint_zipf option"

definition zipfian_new :: "'g draws \<Rightarrow> nat \<Rightarrow> f64 \<Rightarrow> zipfian option" where
  "zipfian_new D n theta =
     (if n \<ge> 1 \<and> dw_zipf_ok D (f_of_nat n) theta then Some \<lparr>zf_n = n, zf_theta = theta, zf_by_endpoint = None\<rparr> else None)"

text \<open>The crate's rank is in \<open>[1, n]\<close> as a float; whatever it is, the id is below \<open>n\<close>.\<close>

definition zipfian_sample :: "'g draws \<Rightarrow> zipfian \<Rightarrow> 'g \<Rightarrow> nat \<times> 'g" where
  "zipfian_sample D z g =
     (let (rank, g) = dw_zipf D (f_of_nat (zf_n z)) (zf_theta z) g
      in (min (saturating_sub (f_as_u64 rank) 1) (zf_n z - 1), g))"

section \<open>Key distributions\<close>

datatype key_dist = Uniform_dist nat | Zipf_dist zipfian | Recency_dist recency

definition from_workload :: "'g draws \<Rightarrow> workload \<Rightarrow> key_dist option" where
  "from_workload D w =
     (let ks = wl_keyspace w in
      case ks_distribution ks of
        Uniform \<Rightarrow> Some (Uniform_dist (ks_count ks))
      | Zipf \<Rightarrow> map_option Zipf_dist (zipfian_new D (ks_count ks) (ks_zipf_theta ks))
      | Recency \<Rightarrow>
          (case wl_append w of
             None \<Rightarrow> None
           | Some a \<Rightarrow> map_option Recency_dist
               (recency_new (ks_count ks) (ap_batch a) (ks_hot_generations ks) (ks_hot_decay ks) (ks_hot_fraction ks))))"

fun key_dist_sample :: "'g draws \<Rightarrow> key_dist \<Rightarrow> 'g \<Rightarrow> (nat \<times> 'g) option" where
  "key_dist_sample D (Uniform_dist n) g = random_range D 0 n g"
| "key_dist_sample D (Zipf_dist z) g = Some (zipfian_sample D z g)"
| "key_dist_sample D (Recency_dist r) g = recency_sample D r g"

fun key_dist_len :: "key_dist \<Rightarrow> nat" where
  "key_dist_len (Uniform_dist n) = n"
| "key_dist_len (Zipf_dist z) = zf_n z"
| "key_dist_len (Recency_dist r) = re_head r"

fun with_endpoint_keys :: "'g draws \<Rightarrow> nat list list \<Rightarrow> key_dist \<Rightarrow> key_dist option" where
  "with_endpoint_keys D keys (Zipf_dist z) =
     (if length keys > 1
      then map_option (\<lambda>e. Zipf_dist (z\<lparr>zf_by_endpoint := Some e\<rparr>)) (endpoint_zipf_new D keys (zf_theta z))
      else Some (Zipf_dist z))"
| "with_endpoint_keys D keys d = Some d"

fun endpoint_sampler :: "key_dist \<Rightarrow> endpoint_zipf option" where
  "endpoint_sampler (Zipf_dist z) = zf_by_endpoint z"
| "endpoint_sampler _ = None"

text \<open>The value of the shared head, and a batch published through it.\<close>

fun head_handle :: "key_dist \<Rightarrow> nat option" where
  "head_handle (Recency_dist r) = Some (re_head r)"
| "head_handle _ = None"

fun publish_head :: "nat \<Rightarrow> key_dist \<Rightarrow> key_dist" where
  "publish_head h (Recency_dist r) = Recency_dist (r\<lparr>re_head := h\<rparr>)"
| "publish_head h d = d"

text \<open>What a connection draws with: \<open>build_endpoint_keys\<close>, \<open>from_workload\<close> and \<open>with_endpoint_keys\<close> as the run composes them.\<close>

definition run_key_dist :: "'g draws \<Rightarrow> router \<Rightarrow> nat \<Rightarrow> workload \<Rightarrow> (nat list list \<times> key_dist) option" where
  "run_key_dist D R endpoints w =
     (let ks = wl_keyspace w in
      case build_endpoint_keys R (ks_format ks) (ks_count ks) (ks_length ks) endpoints of
        None \<Rightarrow> None
      | Some keys \<Rightarrow>
          (case from_workload D w of
             None \<Rightarrow> None
           | Some d \<Rightarrow> map_option (Pair keys) (with_endpoint_keys D keys d)))"


text \<open>The draws of a connection's loop, over a distribution that can be drawn from.\<close>

definition key_sampling :: "'g draws \<Rightarrow> nat list list \<Rightarrow> key_dist \<Rightarrow> 'g sampling" where
  "key_sampling D keys d =
     \<lparr>sm_range = dw_range D 0, sm_key = (\<lambda>g. the (key_dist_sample D d g)),
      sm_uniform = (case d of Uniform_dist n \<Rightarrow> True | _ \<Rightarrow> False), sm_endpoint_keys = keys,
      sm_by_endpoint = map_option (\<lambda>z ep g. the (endpoint_zipf_sample D z ep g)) (endpoint_sampler d)\<rparr>"

section \<open>The generation weights\<close>

lemma rnd_one [simp]: "rnd 1 = Fin 1"
  using f_of_nat_exact [of 1] by (simp add: f_of_nat_def)

lemma rnd_above_2_53: "rnd (2 ^ 53 + 1) = Fin (2 ^ 53)"
  by code_simp

lemma cumulate_weights:
  assumes "0 < d" "d \<le> 1"
  shows "0 \<le> a \<Longrightarrow> a \<le> 2 ^ 53 \<Longrightarrow> rnd a = Fin a \<Longrightarrow> 0 \<le> v \<Longrightarrow> v \<le> 1 \<Longrightarrow>
    \<exists>qs t. cumulate (Fin d) n (Fin a) (Fin v) = (map Fin qs, Fin t) \<and> length qs = n \<and> sorted (a # qs) \<and> last (a # qs) = t"
proof (induction n arbitrary: a v)
  case (Suc n)
  have "f_leq (rnd (a + v)) (rnd (2 ^ 53 + 1))" using Suc.prems by (intro rnd_mono) simp_all
  then obtain a' where a': "rnd (a + v) = Fin a'" "a' \<le> 2 ^ 53" unfolding rnd_above_2_53 by (cases "rnd (a + v)") auto
  have "f_leq (rnd (v * d)) (rnd 1)" using Suc.prems assms by (intro rnd_mono) (simp_all add: mult_le_one)
  then obtain v' where v': "rnd (v * d) = Fin v'" "v' \<le> 1" unfolding rnd_one by (cases "rnd (v * d)") auto
  have ge: "a \<le> a'" using rnd_add_ge [OF Suc.prems(3,1,4)] a' by simp
  have "rnd a' = Fin a'" using rnd_idem [OF _ a'(1)] Suc.prems by simp
  moreover have "0 \<le> v'" using rnd_nonneg [OF _ v'(1)] Suc.prems assms by simp
  ultimately obtain qs t where "cumulate (Fin d) n (Fin a') (Fin v') = (map Fin qs, Fin t)" "length qs = n" "sorted (a' # qs)"
    "last (a' # qs) = t"
    using Suc.IH [of a' v'] a'(2) v'(2) ge Suc.prems(1) by auto
  then show ?case using a' v' ge by (intro exI [of _ "a' # qs"] exI [of _ t]) auto
qed simp

lemma sorted_le_last: "sorted xs \<Longrightarrow> x \<in> set xs \<Longrightarrow> x \<le> last xs"
  by (induction xs) auto

text \<open>The normalized weights are sorted and end in one, so the search for a generation is well defined.\<close>

lemma cdf_sorted:
  assumes "recency_new h0 b n decay hf = Some r"
  shows "0 < n" "0 < b" "re_head r = h0" "re_batch r = b" "re_generations r = n" "re_hot_fraction r = hf"
    and "\<exists>qs. re_cdf r = map Fin qs \<and> length qs = n \<and> sorted qs \<and> last qs = 1"
proof -
  obtain d where d: "decay = Fin d" "0 < d" "d \<le> 1"
    using assms by (cases decay) (auto simp: recency_new_def f_le_def split: if_splits)
  obtain qs t where c: "cumulate decay n (Fin 0) (Fin 1) = (map Fin qs, Fin t)" "length qs = n" "sorted (0 # qs)" "last (0 # qs) = t"
    using cumulate_weights [OF d(2,3), of 0 1 n] d(1) by (auto simp: rnd_def)
  show n: "0 < n" "0 < b" using assms by (auto simp: recency_new_def split: if_splits)
  have r: "r = \<lparr>re_head = h0, re_batch = b, re_generations = n, re_hot_fraction = hf, re_cdf = map (\<lambda>c. f_div c (Fin t)) (map Fin qs)\<rparr>"
    using assms c(1) by (auto simp: recency_new_def split: if_splits)
  then show "re_head r = h0" "re_batch r = b" "re_generations r = n" "re_hot_fraction r = hf" by simp_all
  from n(1) c(2) obtain q qs' where qs: "qs = q # qs'" by (cases qs) auto
  have "q = 1" using c(1) n(1) by (cases n) (auto simp: qs d(1) Let_def split: prod.splits)
  then have t1: "1 \<le> t" using c(3,4) qs by (cases "qs' = []") (auto simp: last_in_set)
  have div: "\<exists>p. rnd (x / t) = Fin p \<and> p \<le> 1" if "x \<in> set qs" for x
  proof -
    have "0 \<le> x" "x \<le> t" using that c(3,4) qs sorted_le_last [of qs x] by auto
    then have "f_leq (rnd (x / t)) (rnd 1)" using t1 by (intro rnd_mono) (simp_all add: divide_le_eq_1)
    then show ?thesis by (cases "rnd (x / t)") auto
  qed
  define un where "un f = (case f of Fin p \<Rightarrow> p | _ \<Rightarrow> 0)" for f
  let ?ps = "map (\<lambda>x. un (rnd (x / t))) qs"
  have "re_cdf r = map Fin ?ps" using div t1 unfolding r by (fastforce simp: un_def)
  moreover have "sorted ?ps"
  proof -
    have "un (rnd (x / t)) \<le> un (rnd (y / t))" if "x \<in> set qs" "y \<in> set qs" "x \<le> y" for x y
    proof -
      have "0 \<le> x" using that(1) c(3) by auto
      then have "f_leq (rnd (x / t)) (rnd (y / t))" using that(3) t1 by (intro rnd_mono) (simp_all add: divide_right_mono)
      then show ?thesis using div [OF that(1)] div [OF that(2)] by (auto simp: un_def)
    qed
    then show ?thesis using c(3) by (auto simp: sorted_map intro: sorted_wrt_mono_rel)
  qed
  moreover have "last ?ps = 1"
  proof -
    have "last qs = t" "qs \<noteq> []" using c(4) qs by auto
    then have "last ?ps = un (rnd (t / t))" by (simp add: last_map del: div_self)
    then show ?thesis using t1 by (simp add: un_def)
  qed
  ultimately show "\<exists>qs. re_cdf r = map Fin qs \<and> length qs = n \<and> sorted qs \<and> last qs = 1"
    using c(2) by (intro exI [of _ ?ps]) simp
qed


lemma draws_okD:
  assumes "draws_ok D"
  shows "lo < hi \<Longrightarrow> lo \<le> fst (dw_range D lo hi g) \<and> fst (dw_range D lo hi g) < hi"
    and "\<exists>u. fst (dw_unit D g) = Fin u \<and> 0 \<le> u \<and> u < 1"
    and "dw_alias_ok D ws \<Longrightarrow> fst (dw_alias D ws g) < length ws"
  using assms by (auto simp: draws_ok_def)

lemma random_range_ok:
  assumes "draws_ok D" and "lo < hi"
  shows "\<exists>k g'. random_range D lo hi g = Some (k, g') \<and> lo \<le> k \<and> k < hi"
  using draws_okD(1) [OF assms, of g] assms(2) by (cases "dw_range D lo hi g") (simp add: random_range_def)

text \<open>A generation is drawn by the interval of the cumulative weights the unit draw falls in; the clamp never acts.\<close>

lemma sample_generation_ok:
  fixes g :: 'g
  assumes "draws_ok D" and "recency_new h0 b n decay hf = Some r0" and "r = r0\<lparr>re_head := h\<rparr>"
  defines "v \<equiv> fst (dw_unit D g)"
  shows "\<exists>a<n. sample_generation D r g = (a, snd (dw_unit D g)) \<and> f_lt v (re_cdf r0 ! a) \<and> (\<forall>i<a. f_le (re_cdf r0 ! i) v)"
proof -
  obtain qs where qs: "re_cdf r0 = map Fin qs" "length qs = n" "sorted qs" "last qs = 1"
    using cdf_sorted(7) [OF assms(2)] by blast
  have n: "0 < n" "re_generations r0 = n" using cdf_sorted [OF assms(2)] by simp_all
  obtain u where u: "v = Fin u" "u < 1" using draws_okD(2) [OF assms(1), of g] v_def by auto
  let ?a = "length (takeWhile (\<lambda>c. f_le c v) (re_cdf r0))"
  have le: "f_le (Fin x) v \<longleftrightarrow> x \<le> u" for x using u by (auto simp: f_le_def)
  have a: "?a < n"
  proof (rule ccontr)
    assume "\<not> ?a < n"
    moreover have "?a \<le> length (re_cdf r0)" by (rule length_takeWhile_le)
    ultimately have "takeWhile (\<lambda>c. f_le c v) (re_cdf r0) = re_cdf r0"
      using qs(1,2) by (metis le_antisym length_map not_less takeWhile_eq_take take_all order_refl)
    then have "f_le (last (re_cdf r0)) v" using qs(1,2) n(1) by (metis last_in_set length_0_conv length_map less_numeral_extra(3) set_takeWhileD)
    then show False using le [of "last qs"] qs n(1) u by (cases "qs = []") (auto simp: last_map)
  qed
  have "\<not> f_le (re_cdf r0 ! ?a) v" using nth_length_takeWhile [of "\<lambda>c. f_le c v" "re_cdf r0"] a qs(1,2) by simp
  then have "f_lt v (re_cdf r0 ! ?a)" using le [of "qs ! ?a"] u a qs(1,2) by simp
  moreover have "\<forall>i<?a. f_le (re_cdf r0 ! i) v"
    by (metis nth_mem set_takeWhileD takeWhile_nth)
  ultimately show ?thesis using a n assms(3) unfolding v_def
    by (intro exI [of _ ?a]) (simp add: sample_generation_def split_beta v_def)
qed

section \<open>A recency draw\<close>

lemma recency_sample_below:
  assumes D: "draws_ok D" and new: "recency_new h0 b n decay hf = Some r0" and h: "0 < h"
  shows "\<exists>k g'. recency_sample D (r0\<lparr>re_head := h\<rparr>) g = Some (k, g') \<and> k < h"
proof -
  let ?r = "r0\<lparr>re_head := h\<rparr>"
  have sub: "\<exists>k g'. random_range D lo hi g = Some (k, g') \<and> k < h" if "lo < hi" "hi \<le> h" for lo hi g
    using random_range_ok [OF D that(1), of g] that(2) by auto
  show ?thesis
    using h sub [of 0 h] sub by (auto simp: recency_sample_def Let_def split_beta)
qed

text \<open>
  C38. A recency draw lands where the weights say. The sampler's cumulative weights are as many as the
  generations, sorted, and end in exactly one, for any decay. A draw below any published head then never
  panics and gives an id below the head; a unit draw at or above the hot fraction gives an id of the
  body, when there is one; below it, the second unit draw picks the generation whose interval of
  the weights contains it, and the id lies in that generation's batch, counted from the head, when the
  keyspace reaches so far.
\<close>

theorem recency_sample_sound:
  fixes g :: 'g
  assumes D: "draws_ok D" and new: "recency_new h0 b n decay hf = Some r0" and h: "0 < h" and fits: "n * b \<le> U64_MAX"
  defines "u \<equiv> fst (dw_unit D g)" and "v \<equiv> fst (dw_unit D (snd (dw_unit D g)))" and "cdf \<equiv> re_cdf r0"
  shows "(\<exists>qs. cdf = map Fin qs \<and> length qs = n \<and> sorted qs \<and> last qs = 1) \<and>
    (\<exists>k g'. recency_sample D (r0\<lparr>re_head := h\<rparr>) g = Some (k, g') \<and> k < h \<and>
       (if f_lt u hf then
          \<exists>a<n. f_lt v (cdf ! a) \<and> (\<forall>i<a. f_le (cdf ! i) v) \<and> (a * b < h \<longrightarrow> h - (a + 1) * b \<le> k \<and> k < h - a * b)
        else n * b < h \<longrightarrow> k < h - n * b))"
proof -
  let ?r = "r0\<lparr>re_head := h\<rparr>" and ?g1 = "snd (dw_unit D g)"
  note R = cdf_sorted [OF new]
  obtain k g' where k: "recency_sample D ?r g = Some (k, g')" "k < h" using recency_sample_below [OF D new h] by blast
  have span: "saturating_mul n b = n * b" by (rule saturating_mul_exact [OF fits])
  have hot: "\<exists>a<n. f_lt v (cdf ! a) \<and> (\<forall>i<a. f_le (cdf ! i) v) \<and> (a * b < h \<longrightarrow> h - (a + 1) * b \<le> k \<and> k < h - a * b)"
    if lt: "f_lt u hf"
  proof -
    obtain a where a: "a < n" "sample_generation D ?r ?g1 = (a, snd (dw_unit D ?g1))" "f_lt v (cdf ! a)" "\<forall>i<a. f_le (cdf ! i) v"
      using sample_generation_ok [OF D new refl, of h ?g1] unfolding v_def cdf_def by blast
    have "(a + 1) * b \<le> n * b" using a(1) by (intro mult_right_mono) simp_all
    then have le: "(a + 1) * b \<le> U64_MAX" using fits by linarith
    have w: "wrapping_mul (a + 1) b = (a + 1) * b" "wrapping_mul a b = a * b"
      by (rule wrapping_mul_exact, use le in simp)+
    have "h - (a + 1) * b \<le> k \<and> k < h - a * b" if "a * b < h"
    proof -
      have win: "h - (a + 1) * b < h - a * b" using that R(2) by simp
      have "recency_sample D ?r g = random_range D (h - (a + 1) * b) (h - a * b) (snd (dw_unit D ?g1))"
        using h lt a(2) R(4,5,6) w win by (simp add: recency_sample_def Let_def split_beta u_def)
      then show ?thesis using random_range_ok [OF D win, of "snd (dw_unit D ?g1)"] k(1) by auto
    qed
    then show ?thesis using a by blast
  qed
  have body: "k < h - n * b" if "\<not> f_lt u hf" "n * b < h"
  proof -
    have "recency_sample D ?r g = random_range D 0 (h - n * b) ?g1"
      using h that R(4,5,6) span by (simp add: recency_sample_def Let_def split_beta u_def)
    then show ?thesis using random_range_ok [OF D, of 0 "h - n * b" ?g1] that(2) k(1) by auto
  qed
  from k hot body R(7) show ?thesis unfolding cdf_def by auto
qed

definition demo_draws :: "nat draws" where
  "demo_draws = \<lparr>dw_range = (\<lambda>lo hi g. (lo + g mod (hi - lo), g + 1)), dw_unit = (\<lambda>g. (Fin (1 / 2), g + 1)), dw_zipf_ok = (\<lambda>_ _. True),
     dw_zipf = (\<lambda>n _ g. (Fin 1, g + 1)), dw_alias_ok = (\<lambda>ws. ws \<noteq> []), dw_alias = (\<lambda>ws g. (g mod length ws, g + 1)),
     dw_powf = (\<lambda>x y. Fin 1)\<rparr>"

lemma demo_draws_ok: "draws_ok demo_draws"
proof -
  have "lo + g mod (hi - lo) < hi" if "lo < hi" for lo hi g :: nat
    using that mod_less_divisor [of "hi - lo" g] by linarith
  then show ?thesis by (auto simp: draws_ok_def demo_draws_def intro!: exI [of _ "1 / 2"])
qed

theorem recency_sample_sound_witness:
  "\<exists>r k g'. recency_new 100 10 2 (Fin (1 / 2)) (Fin (3 / 4)) = Some r \<and>
    recency_sample demo_draws (r\<lparr>re_head := 100\<rparr>) 7 = Some (k, g') \<and> 80 \<le> k \<and> k < 100"
proof -
  obtain r where r: "recency_new 100 10 2 (Fin (1 / 2)) (Fin (3 / 4)) = Some r"
    by (simp add: recency_new_def f_le_def split_beta)
  have hot: "f_lt (fst (dw_unit demo_draws 7)) (Fin (3 / 4))" by (simp add: demo_draws_def)
  obtain k g' a where "recency_sample demo_draws (r\<lparr>re_head := 100\<rparr>) 7 = Some (k, g')" "a < 2"
    "a * 10 < 100 \<longrightarrow> 100 - (a + 1) * 10 \<le> k \<and> k < 100 - a * 10"
    using recency_sample_sound [OF demo_draws_ok r, of 100 7] hot by auto
  then show ?thesis using r by (cases a) auto
qed


section \<open>A connection's draw\<close>

text \<open>
  The contract the samplers share: what is ready to be drawn from gives, without a panic, an id below its bound. A
  connection draws through it, and so does its rejection loop.
\<close>

locale key_sampler =
  fixes ready :: "'d \<Rightarrow> bool" and sample :: "'d \<Rightarrow> 'g \<Rightarrow> (nat \<times> 'g) option" and bound :: "'d \<Rightarrow> nat"
  assumes sampled: "ready d \<Longrightarrow> \<exists>k g'. sample d g = Some (k, g') \<and> k < bound d"
begin

lemma drawn_below: "ready d \<Longrightarrow> fst (the (sample d g)) < bound d"
  using sampled [of d g] by auto

lemma rejection_routes:
  assumes "ready d" and G: "sm_key G = (\<lambda>g. the (sample d g))" and "router_ok R (dc_num_endpoints cfg)"
  shows "\<exists>k g'. reject_route G cfg R n g = Some (k, g') \<and> (\<forall>i. k = Some i \<longrightarrow> i < bound d \<and>
    route_key R (dc_num_endpoints cfg) (write_key (dc_key_format cfg) (dc_key_len cfg) i) = Some (dc_endpoint_idx cfg))"
proof (induction n arbitrary: g)
  case (Suc n)
  obtain k g' where k: "the (sample d g) = (k, g')" by fastforce
  then have "k < bound d" using drawn_below [OF assms(1), of g] by simp
  moreover obtain e where "route_key R (dc_num_endpoints cfg) (write_key (dc_key_format cfg) (dc_key_len cfg) k) = Some e"
    using assms(3) by (auto simp: router_ok_def route_key_def)
  ultimately show ?case using Suc [of g'] k G by auto
qed simp

end

text \<open>A recency sampler as it is built, at a head that has been published.\<close>

definition recency_ok :: "recency \<Rightarrow> bool" where
  "recency_ok r \<longleftrightarrow> 0 < re_head r \<and>
     (\<exists>h0 b n decay hf r0. recency_new h0 b n decay hf = Some r0 \<and> r = r0\<lparr>re_head := re_head r\<rparr>)"

fun samplable :: "key_dist \<Rightarrow> bool" where
  "samplable (Uniform_dist n) = (0 < n)"
| "samplable (Zipf_dist z) = (0 < zf_n z)"
| "samplable (Recency_dist r) = recency_ok r"

interpretation recency_keys: key_sampler "\<lambda>(D, r). draws_ok D \<and> recency_ok r" "\<lambda>(D, r). recency_sample D r" "\<lambda>(D, r). re_head r"
proof
  fix d :: "'g draws \<times> recency" and g
  assume "case d of (D, r) \<Rightarrow> draws_ok D \<and> recency_ok r"
  then obtain D r h0 b n decay hf r0 where d: "d = (D, r)" "draws_ok D" "0 < re_head r"
    and r: "recency_new h0 b n decay hf = Some r0" "r = r0\<lparr>re_head := re_head r\<rparr>"
    by (auto simp: recency_ok_def)
  from recency_sample_below [OF d(2) r(1) d(3), of g] show "\<exists>k g'. (case d of (D, r) \<Rightarrow> recency_sample D r) g = Some (k, g') \<and>
      k < (case d of (D, r) \<Rightarrow> re_head r)"
    using r(2) d(1) by simp
qed

interpretation run_keys: key_sampler "\<lambda>(D, d). draws_ok D \<and> samplable d" "\<lambda>(D, d). key_dist_sample D d" "\<lambda>(D, d). key_dist_len d"
proof
  fix x :: "'g draws \<times> key_dist" and g
  assume x: "case x of (D, d) \<Rightarrow> draws_ok D \<and> samplable d"
  obtain D d where D: "x = (D, d)" by fastforce
  show "\<exists>k g'. (case x of (D, d) \<Rightarrow> key_dist_sample D d) g = Some (k, g') \<and> k < (case x of (D, d) \<Rightarrow> key_dist_len d)"
  proof (cases d)
    case (Uniform_dist n)
    then show ?thesis using x D random_range_ok [of D 0 n g] by auto
  next
    case (Zipf_dist z)
    then have "0 < zf_n z" using x D by simp
    then show ?thesis using D Zipf_dist by (simp add: zipfian_sample_def split_beta)
  next
    case (Recency_dist r)
    then show ?thesis using x D recency_keys.sampled [of "(D, r)" g] by simp
  qed
qed

lemma run_samplable:
  assumes "from_workload D w = Some d1" and "with_endpoint_keys D keys d1 = Some d" and "0 < ks_count (wl_keyspace w)" "0 < h"
  shows "samplable (publish_head h d)"
proof (cases d1)
  case (Recency_dist r)
  then obtain b n decay hf where "recency_new (ks_count (wl_keyspace w)) b n decay hf = Some r"
    using assms(1) by (auto simp: from_workload_def Let_def split: distribution.splits option.splits)
  then have "recency_ok (r\<lparr>re_head := h\<rparr>)" using assms(4) unfolding recency_ok_def by fastforce
  then show ?thesis using assms(2) Recency_dist by auto
qed (use assms in \<open>auto simp: from_workload_def zipfian_new_def Let_def split: distribution.splits option.splits if_splits\<close>)

lemma endpoint_keys_owned:
  assumes "router_ok R n" and "1 < n" and "cnt \<le> 4294967296" and "build_endpoint_keys R fmt cnt len n = Some keys"
  shows "keys = map (\<lambda>e. owned R fmt len n e [0..<cnt]) [0..<n]"
proof -
  have "map (\<lambda>k. k mod 4294967296) (owned R fmt len n e [0..<cnt]) = owned R fmt len n e [0..<cnt]" for e
    using assms(3) by (intro map_idI) (auto simp: owned_def)
  then have "keys = map (\<lambda>e. replicate n [] ! e @ owned R fmt len n e [0..<cnt]) [0..<n]"
    using assms(2,4) bucket_keys_spec [OF assms(1), of "replicate n []" fmt len "[0..<cnt]"] by (simp add: build_endpoint_keys_def)
  also have "\<dots> = map (\<lambda>e. owned R fmt len n e [0..<cnt]) [0..<n]" by (intro map_cong refl) simp
  finally show ?thesis .
qed

lemma owned_routes:
  "k \<in> set (owned R fmt len n e [0..<cnt]) \<Longrightarrow> k < cnt \<and> route_key R n (write_key fmt len k) = Some e"
  by (auto simp: owned_def owner_def route_key_def)

lemma endpoint_zipf_sample_ok:
  assumes D: "draws_ok D" and new: "endpoint_zipf_new D keys theta = Some z" and ep: "ep < length keys"
  shows "\<exists>k g'. endpoint_zipf_sample D z ep g = Some (k, g') \<and> (\<forall>i. k = Some i \<longrightarrow> i \<in> set (keys ! ep)) \<and>
    (k = None \<longleftrightarrow> keys ! ep = [])"
proof (cases "keys ! ep = []")
  case True
  then show ?thesis using new ep by (auto simp: endpoint_zipf_new_def endpoint_zipf_sample_def Let_def split: if_splits)
next
  case False
  let ?ws = "zipf_weights D theta (keys ! ep)"
  have z: "ez_keys z = keys" "ez_tables z ! ep = Some ?ws" "length (ez_tables z) = length keys"
    using new ep False by (auto simp: endpoint_zipf_new_def Let_def split: if_splits)
  have "dw_alias_ok D ?ws" using new ep False by (auto simp: endpoint_zipf_new_def split: if_splits)
  from draws_okD(3) [OF D this, of g] have "fst (dw_alias D ?ws g) < length (keys ! ep)" by (simp add: zipf_weights_def)
  then show ?thesis using z ep False by (simp add: endpoint_zipf_sample_def split_beta)
qed




definition demo_router :: router where
  "demo_router = \<lparr>rt_slot_table = None, rt_hash_slot = (\<lambda>_. 0), rt_ring = (\<lambda>key. unat (last key) mod 2)\<rparr>"

lemma demo_router_ok: "router_ok demo_router 2"
  by (auto simp: router_ok_def route_partition_def demo_router_def)

definition demo_drive_to :: "nat \<Rightarrow> drive_config" where
  "demo_drive_to ep = \<lparr>dc_memcache = False, dc_get_ratio = 80, dc_delete_ratio = 0, dc_value_len = 64, dc_pool_len = 1024,
     dc_backfill_on_miss = False, dc_num_endpoints = 2, dc_pipeline_depth = 8, dc_batch_size = 8, dc_endpoint_idx = ep,
     dc_key_len = 16, dc_key_format = Hex\<rparr>"


section \<open>A valid configuration has a sampler\<close>

text \<open>
  What the crates document: the zipf sampler exists for a size of at least one and a positive finite exponent; a power
  of a number from \<open>1\<close> to \<open>2^32\<close> to an exponent from \<open>-10\<close> to below \<open>0\<close> is positive and at most one (it is
  \<open>2^-320\<close> or more); and an alias table exists for up to \<open>2^32\<close> such weights, at least one.
\<close>

definition zipf_laws :: "'g draws \<Rightarrow> bool" where
  "zipf_laws D \<longleftrightarrow>
     (\<forall>n q. 1 \<le> n \<longrightarrow> 0 < q \<longrightarrow> dw_zipf_ok D (f_of_nat n) (Fin q)) \<and>
     (\<forall>n y. 1 \<le> n \<longrightarrow> n \<le> 2 ^ 32 \<longrightarrow> 0 < y \<longrightarrow> y \<le> 10 \<longrightarrow> (\<exists>p. dw_powf D (f_of_nat n) (Fin (- y)) = Fin p \<and> 0 < p \<and> p \<le> 1)) \<and>
     (\<forall>ws. ws \<noteq> [] \<longrightarrow> length ws \<le> 2 ^ 32 \<longrightarrow> (\<forall>x\<in>set ws. \<exists>p. x = Fin p \<and> 0 < p \<and> p \<le> 1) \<longrightarrow> dw_alias_ok D ws)"

lemma f_succ: "n < 2 ^ 53 \<Longrightarrow> f_add (f_of_nat n) (Fin 1) = f_of_nat (n + 1)"
  using f_of_nat_exact [of n] by (simp add: f_of_nat_def add.commute)

lemma endpoint_zipf_exists:
  assumes "zipf_laws D" and "0 < y" "y \<le> 10" and "\<forall>ids\<in>set keys. length ids \<le> 2 ^ 32 \<and> (\<forall>id\<in>set ids. id < 2 ^ 32)"
  shows "endpoint_zipf_new D keys (Fin y) \<noteq> None"
proof -
  have "dw_alias_ok D (zipf_weights D (Fin y) ids)" if ids: "ids \<in> set keys" "ids \<noteq> []" for ids
  proof -
    have "\<exists>p. dw_powf D (f_add (f_of_nat id) (Fin 1)) (f_neg (Fin y)) = Fin p \<and> 0 < p \<and> p \<le> 1" if "id \<in> set ids" for id
    proof -
      have "id < 2 ^ 32" using assms(4) ids(1) that by blast
      then have "f_add (f_of_nat id) (Fin 1) = f_of_nat (id + 1)" "1 \<le> id + 1" "id + 1 \<le> 2 ^ 32" using f_succ [of id] by simp_all
      then show ?thesis using assms(1-3) unfolding zipf_laws_def f_neg.simps by metis
    qed
    then have "\<forall>x\<in>set (zipf_weights D (Fin y) ids). \<exists>p. x = Fin p \<and> 0 < p \<and> p \<le> 1" by (simp add: zipf_weights_def)
    moreover have "zipf_weights D (Fin y) ids \<noteq> []" "length (zipf_weights D (Fin y) ids) \<le> 2 ^ 32"
      using ids assms(4) by (auto simp: zipf_weights_def)
    ultimately show ?thesis using assms(1) unfolding zipf_laws_def by blast
  qed
  then show ?thesis by (simp add: endpoint_zipf_new_def Let_def)
qed


lemma zipf_valid:
  assumes "validate dma c = Inr ()" and "ks_distribution (wl_keyspace (cf_workload c)) = Zipf"
  obtains y where "ks_zipf_theta (wl_keyspace (cf_workload c)) = Fin y" "0 < y" "y \<le> 10"
proof -
  have v: "is_finite (ks_zipf_theta (wl_keyspace (cf_workload c)))" "\<not> f_le (ks_zipf_theta (wl_keyspace (cf_workload c))) (Fin 0)"
    "\<not> f_lt MAX_ZIPF_THETA (ks_zipf_theta (wl_keyspace (cf_workload c)))"
    using validateD(3) [OF assms(1)] assms(2) by (simp_all add: validate_keyspace_def Let_def)
  then show thesis by (cases "ks_zipf_theta (wl_keyspace (cf_workload c))") (auto simp: f_le_def intro: that)
qed

lemma recency_valid:
  assumes "validate dma c = Inr ()" and "ks_distribution (wl_keyspace (cf_workload c)) = Recency"
  shows "\<exists>a. wl_append (cf_workload c) = Some a \<and> (let ks = wl_keyspace (cf_workload c) in
    \<exists>r. recency_new (ks_count ks) (ap_batch a) (ks_hot_generations ks) (ks_hot_decay ks) (ks_hot_fraction ks) = Some r \<and> re_head r = ks_count ks)"
proof -
  let ?ks = "wl_keyspace (cf_workload c)"
  obtain a where a: "wl_append (cf_workload c) = Some a" using validated_append(1) [OF assms(1)] assms(2) by blast
  note A = validated_append(2) [OF assms(1) a]
  have v: "is_finite (ks_hot_decay ?ks)" "\<not> f_le (ks_hot_decay ?ks) (Fin 0)" "\<not> f_lt (Fin 1) (ks_hot_decay ?ks)"
    "is_finite (ks_hot_fraction ?ks)" "f_le (Fin 0) (ks_hot_fraction ?ks)" "f_le (ks_hot_fraction ?ks) (Fin 1)"
    using validateD(4) [OF assms(1)] assms(2) by (simp_all add: validate_recency_def Let_def)
  then have "f_lt (Fin 0) (ks_hot_decay ?ks)" "f_le (ks_hot_decay ?ks) (Fin 1)"
    by (cases "ks_hot_decay ?ks"; auto simp: f_le_def)+
  then show ?thesis using A v a by (simp add: recency_new_def split_beta)
qed



section \<open>Readers and the append stream\<close>

text \<open>
  C12. A recency read never asks for a key that is not there. In every reachable state of the append stream, a draw of
  a reader below the head the main thread has published gives a prefilled id, or one a server has
  acknowledged; and there always is such an id.
\<close>

theorem recency_reads_are_stored:
  assumes laws: "client_laws C pend unf" and known: "\<And>a i. endpoint_of a = Some i \<Longrightarrow> i < max (rc_endpoints cfg) 1"
    and reach: "append_reach L H C pend G T endpoint_of cfg n S"
    and room: "rc_key_count cfg + (n + 1) * append_batch cfg \<le> 2 ^ 61" "n \<le> U64_MAX"
    and head: "rn_append_head (sy_run S) = Some h" and filled: "0 < rc_key_count cfg"
    and D: "draws_ok D" and new: "recency_new h0 b generations decay hf = Some r"
  shows "\<exists>k g'. recency_sample D (r\<lparr>re_head := h\<rparr>) g = Some (k, g') \<and> (k < rc_key_count cfg \<or> k \<in># sy_stored S)"
proof (cases "h = 0")
  case True
  then show ?thesis using filled by (simp add: recency_sample_def)
next
  case False
  have "keys_inv cfg (sy_run S) (sy_stored S) (writers_hold (sy_writers S))"
    using append_reach_inv [OF laws known reach room] by (simp add: system_inv_def)
  then have sub: "mset [rc_key_count cfg..<h] \<subseteq># sy_stored S" using head unfolding keys_inv_def by blast
  have "k \<in># sy_stored S" if "rc_key_count cfg \<le> k" "k < h" for k
    by (rule mset_subset_eqD [OF sub]) (use that in simp)
  moreover obtain k g' where "recency_sample D (r\<lparr>re_head := h\<rparr>) g = Some (k, g')" "k < h"
    using recency_sample_below [OF D new] False by blast
  ultimately show ?thesis by (meson not_less)
qed

theorem recency_reads_are_stored_witness:
  "\<exists>S r k g'. demo_append_reach 3 S \<and> rn_append_head (sy_run S) = Some 101 \<and>
    recency_sample demo_draws (r\<lparr>re_head := 101\<rparr>) 7 = Some (k, g') \<and> (k < 100 \<or> k \<in># sy_stored S)"
proof -
  obtain S where S: "demo_append_reach 3 S" "rn_append_head (sy_run S) = Some 101" using demo_append_run by metis
  have k: "rc_key_count demo_append_config = 100" by (simp add: demo_append_config_def demo_run_config_def)
  obtain r where r: "recency_new 100 10 2 (Fin (1 / 2)) (Fin (3 / 4)) = Some r"
    by (simp add: recency_new_def f_le_def split_beta)
  show ?thesis using recency_reads_are_stored [OF queue_client_laws _ S(1) demo_append_room _ S(2) _ demo_draws_ok r, of 7] S k by auto
qed

end
