(* ===== verification/Discovery.thy ===== *)
theory Discovery
  imports Text Endpoints
begin

text \<open>
  Finding the nodes before a run: the cluster topology of a RESP cluster (\<open>src/cluster.rs\<close>), the node
  list of an ElastiCache configuration endpoint (\<open>src/autodiscovery.rs\<close>), and \<open>resolve_endpoints\<close> of
  \<open>src/runner.rs\<close>.

  Text is a list of bytes (\<open>char\<close>); \<open>from_utf8\<close>, \<open>trim\<close> and the address parser are those of the
  standard library. A socket is the list of what its reads return. The reply to \<open>CLUSTER SLOTS\<close>, parsed by
  the crate resp-proto, is the list of its slot ranges; name resolution is an argument.
\<close>

section \<open>Strings as the standard library reads them\<close>

abbreviation CR :: char where "CR \<equiv> CHR 0x0D"
abbreviation LF :: char where "LF \<equiv> CHR 0x0A"

definition byte_in :: "nat \<Rightarrow> nat \<Rightarrow> char \<Rightarrow> bool" where
  "byte_in lo hi c \<longleftrightarrow> lo \<le> of_char c \<and> of_char c \<le> hi"

abbreviation tail_byte :: "char \<Rightarrow> bool" where "tail_byte \<equiv> byte_in 0x80 0xBF"

text \<open>Valid UTF-8: no overlong forms, no surrogates, nothing above \<open>U+10FFFF\<close>.\<close>

fun utf8_valid :: "string \<Rightarrow> bool" where
  "utf8_valid [] = True"
| "utf8_valid (a # s) =
     (if byte_in 0 0x7F a then utf8_valid s
      else case s of
        [] \<Rightarrow> False
      | b # s' \<Rightarrow>
          if byte_in 0xC2 0xDF a then tail_byte b \<and> utf8_valid s'
          else (case s' of
            [] \<Rightarrow> False
          | c # s'' \<Rightarrow>
              if byte_in 0xE0 0xEF a then
                (if byte_in 0xE0 0xE0 a then byte_in 0xA0 0xBF b else if byte_in 0xED 0xED a then byte_in 0x80 0x9F b else tail_byte b) \<and>
                tail_byte c \<and> utf8_valid s''
              else (case s'' of
                [] \<Rightarrow> False
              | d # s''' \<Rightarrow>
                  byte_in 0xF0 0xF4 a \<and>
                  (if byte_in 0xF0 0xF0 a then byte_in 0x90 0xBF b else if byte_in 0xF4 0xF4 a then byte_in 0x80 0x8F b else tail_byte b) \<and>
                  tail_byte c \<and> tail_byte d \<and> utf8_valid s''')))"

text \<open>The encodings of the characters with the property \<open>White_Space\<close>, which \<open>trim\<close> removes at both ends.\<close>

definition white_spaces :: "string list" where
  "white_spaces =
     map (\<lambda>n. [char_of n]) ([9..<14] @ [32 :: nat]) @ [[CHR 0xC2, CHR 0x85], [CHR 0xC2, CHR 0xA0], [CHR 0xE1, CHR 0x9A, CHR 0x80]] @
     map (\<lambda>n. [CHR 0xE2, CHR 0x80, char_of n]) ([0x80..<0x8B] @ [0xA8, 0xA9, 0xAF :: nat]) @
     [[CHR 0xE2, CHR 0x81, CHR 0x9F], [CHR 0xE3, CHR 0x80, CHR 0x80]]"

definition strip_any :: "string list \<Rightarrow> string \<Rightarrow> string option" where
  "strip_any ws s = (case filter (\<lambda>w. take (length w) s = w) ws of [] \<Rightarrow> None | w # _ \<Rightarrow> Some (drop (length w) s))"

text \<open>Each round removes at least one byte, so as many rounds as there are bytes are enough.\<close>

fun strip_all :: "nat \<Rightarrow> string list \<Rightarrow> string \<Rightarrow> string" where
  "strip_all 0 ws s = s"
| "strip_all (Suc n) ws s = (case strip_any ws s of None \<Rightarrow> s | Some s' \<Rightarrow> strip_all n ws s')"

definition str_trim :: "string \<Rightarrow> string" where
  "str_trim s =
     (let s = strip_all (length s) white_spaces s in rev (strip_all (length s) (map rev white_spaces) (rev s)))"

text \<open>\<open>str::lines\<close>: a line may end in \<open>\n\<close> or \<open>\r\n\<close>; the last one may end the text.\<close>

definition strip_cr :: "string \<Rightarrow> string" where
  "strip_cr s = (if s \<noteq> [] \<and> last s = CR then butlast s else s)"

definition str_lines :: "string \<Rightarrow> string list" where
  "str_lines s = (let ps = split_on LF s in map strip_cr (butlast ps) @ (if last ps = [] then [] else [last ps]))"

definition ascii_space :: "char \<Rightarrow> bool" where
  "ascii_space c \<longleftrightarrow> c \<in> {CHR '' '', CHR 0x09, LF, CHR 0x0C, CR}"

fun ascii_words :: "string \<Rightarrow> string \<Rightarrow> string list" where
  "ascii_words w [] = (if w = [] then [] else [w])"
| "ascii_words w (c # s) = (if ascii_space c then (if w = [] then [] else [w]) @ ascii_words [] s else ascii_words (w @ [c]) s)"

definition split_ascii_whitespace :: "string \<Rightarrow> string list" where
  "split_ascii_whitespace s = ascii_words [] s"

section \<open>Addresses\<close>

datatype ip_addr = V4 "nat list" | V6 "nat list"
datatype socket_addr = Socket_addr ip_addr nat nat \<comment> \<open>address, port, scope\<close>

definition read_given :: "char \<Rightarrow> string \<Rightarrow> string option" where
  "read_given c s = (case s of [] \<Rightarrow> None | x # xs \<Rightarrow> if x = c then Some xs else None)"

definition to_digit :: "nat \<Rightarrow> char \<Rightarrow> nat option" where
  "to_digit radix c =
     (let n = of_char c :: nat;
          d = (if 48 \<le> n \<and> n \<le> 57 then n - 48 else if 97 \<le> n \<and> n \<le> 122 then n - 87 else if 65 \<le> n \<and> n \<le> 90 then n - 55 else 255)
      in if d < radix then Some d else None)"

text \<open>\<open>read_number\<close>: with a bound on the digits or without, up to a maximum.\<close>

definition read_number :: "nat \<Rightarrow> nat option \<Rightarrow> bool \<Rightarrow> nat \<Rightarrow> string \<Rightarrow> (nat \<times> string) option" where
  "read_number radix max_digits allow_zero_prefix mx s =
     (let ds = takeWhile (\<lambda>c. to_digit radix c \<noteq> None) s; n = foldl (\<lambda>acc c. acc * radix + the (to_digit radix c)) 0 ds in
      if ds = [] \<or> (case max_digits of Some m \<Rightarrow> length ds > m | None \<Rightarrow> False) \<or>
         \<not> allow_zero_prefix \<and> hd ds = CHR ''0'' \<and> length ds > 1 \<or> n > mx
      then None else Some (n, drop (length ds) s))"

fun read_octets :: "nat \<Rightarrow> bool \<Rightarrow> string \<Rightarrow> (nat list \<times> string) option" where
  "read_octets 0 first s = Some ([], s)"
| "read_octets (Suc n) first s =
     (case Option.bind (if first then Some s else read_given CHR ''.'' s) (read_number 10 (Some 3) False 255) of
        None \<Rightarrow> None
      | Some (x, s) \<Rightarrow> map_option (\<lambda>(xs, s). (x # xs, s)) (read_octets n False s))"

definition read_ipv4 :: "string \<Rightarrow> (nat list \<times> string) option" where
  "read_ipv4 s = read_octets 4 True s"

text \<open>Up to \<open>n\<close> groups of an IPv6 address; an embedded IPv4 address is two and the last. The flag says whether there was one.\<close>

fun read_groups :: "nat \<Rightarrow> bool \<Rightarrow> string \<Rightarrow> nat list \<times> bool \<times> string" where
  "read_groups 0 first s = ([], False, s)"
| "read_groups (Suc n) first s =
     (let sep = (if first then Some s else read_given CHR '':'' s) in
      case (if n \<ge> 1 then Option.bind sep read_ipv4 else None) of
        Some (os, s) \<Rightarrow> ([os ! 0 * 256 + os ! 1, os ! 2 * 256 + os ! 3], True, s)
      | None \<Rightarrow>
          (case Option.bind sep (read_number 16 (Some 4) True 65535) of
             Some (g, s) \<Rightarrow> (let (gs, v4, s) = read_groups n False s in (g # gs, v4, s))
           | None \<Rightarrow> ([], False, s)))"

definition read_ipv6 :: "string \<Rightarrow> (nat list \<times> string) option" where
  "read_ipv6 s =
     (let (head, v4, s) = read_groups 8 True s in
      if length head = 8 then Some (head, s)
      else if v4 then None
      else case Option.bind (read_given CHR '':'' s) (read_given CHR '':'') of
             None \<Rightarrow> None
           | Some s \<Rightarrow>
               let (tl, v4, s) = read_groups (8 - (length head + 1)) True s
               in Some (head @ replicate (8 - length head - length tl) 0 @ tl, s))"

definition parse_ip :: "string \<Rightarrow> ip_addr option" where
  "parse_ip s =
     (case read_ipv4 s of
        Some (os, rest) \<Rightarrow> if rest = [] then Some (V4 os) else None
      | None \<Rightarrow> (case read_ipv6 s of Some (gs, rest) \<Rightarrow> if rest = [] then Some (V6 gs) else None | None \<Rightarrow> None))"

definition read_port :: "string \<Rightarrow> (nat \<times> string) option" where
  "read_port s = Option.bind (read_given CHR '':'' s) (read_number 10 None True 65535)"

definition read_scope :: "string \<Rightarrow> nat \<times> string" where
  "read_scope s =
     (case Option.bind (read_given CHR ''%'' s) (read_number 10 None True 4294967295) of None \<Rightarrow> (0, s) | Some (n, s) \<Rightarrow> (n, s))"

definition read_socket_v4 :: "string \<Rightarrow> (socket_addr \<times> string) option" where
  "read_socket_v4 s =
     (case read_ipv4 s of
        None \<Rightarrow> None
      | Some (os, s) \<Rightarrow> map_option (\<lambda>(port, s). (Socket_addr (V4 os) port 0, s)) (read_port s))"

definition read_socket_v6 :: "string \<Rightarrow> (socket_addr \<times> string) option" where
  "read_socket_v6 s =
     (case Option.bind (read_given CHR ''['' s) read_ipv6 of
        None \<Rightarrow> None
      | Some (gs, s) \<Rightarrow>
          let (scope, s) = read_scope s
          in map_option (\<lambda>(port, s). (Socket_addr (V6 gs) port scope, s)) (Option.bind (read_given CHR '']'' s) read_port))"

definition parse_socket_addr :: "string \<Rightarrow> socket_addr option" where
  "parse_socket_addr s =
     (case (case read_socket_v4 s of None \<Rightarrow> read_socket_v6 s | Some a \<Rightarrow> Some a) of
        Some (a, rest) \<Rightarrow> if rest = [] then Some a else None
      | None \<Rightarrow> None)"

section \<open>The topology of a cluster\<close>

text \<open>The crate's slot map: for each range of slots its first, its last and the text of its primary's address.\<close>

record slot_range =
  sl_start :: nat
  sl_end :: nat
  sl_primary :: string

datatype slots_reply = Slots_error string | Slots_unparsed | Slots "slot_range list"

datatype topology_error =
    Slots_refused string | Slots_malformed | Slots_empty | Bad_primary string | Slots_unmapped nat | Seed_unreachable

abbreviation SLOT_COUNT :: nat where "SLOT_COUNT \<equiv> 16384"
abbreviation UNASSIGNED :: nat where "UNASSIGNED \<equiv> 65535"

text \<open>The primaries, each once, in the order of their first range.\<close>

fun collect_primaries :: "slot_range list \<Rightarrow> socket_addr list \<Rightarrow> topology_error + socket_addr list" where
  "collect_primaries [] eps = Inr eps"
| "collect_primaries (r # rs) eps =
     (case parse_socket_addr (sl_primary r) of
        None \<Rightarrow> Inl (Bad_primary (sl_primary r))
      | Some a \<Rightarrow> collect_primaries rs (if a \<in> set eps then eps else eps @ [a]))"

fun index_of :: "'a \<Rightarrow> 'a list \<Rightarrow> nat" where
  "index_of a [] = 0"
| "index_of a (x # xs) = (if x = a then 0 else Suc (index_of a xs))"

text \<open>The slots of one range; a slot past the table is the panic of an index.\<close>

definition fill_range :: "nat \<Rightarrow> nat \<Rightarrow> nat \<Rightarrow> nat list \<Rightarrow> nat list option" where
  "fill_range start end_slot idx table =
     (if start \<le> end_slot \<and> length table \<le> end_slot then None
      else Some (map (\<lambda>s. if start \<le> s \<and> s \<le> end_slot then idx mod 65536 else table ! s) [0..<length table]))"

fun fill_slots :: "socket_addr list \<Rightarrow> slot_range list \<Rightarrow> nat list \<Rightarrow> (topology_error + nat list) option" where
  "fill_slots eps [] table = Some (Inr table)"
| "fill_slots eps (r # rs) table =
     (case parse_socket_addr (sl_primary r) of
        None \<Rightarrow> Some (Inl (Bad_primary (sl_primary r)))
      | Some a \<Rightarrow>
          (case fill_range (sl_start r) (sl_end r) (index_of a eps) table of
             None \<Rightarrow> None
           | Some table \<Rightarrow> fill_slots eps rs table))"

text \<open>\<open>None\<close> is a panic.\<close>

definition build_topology :: "slots_reply \<Rightarrow> (topology_error + socket_addr list \<times> nat list) option" where
  "build_topology value =
     (case value of
        Slots_error msg \<Rightarrow> Some (Inl (Slots_refused msg))
      | Slots_unparsed \<Rightarrow> Some (Inl Slots_malformed)
      | Slots ranges \<Rightarrow>
          if ranges = [] then Some (Inl Slots_empty)
          else
            (case collect_primaries ranges [] of
               Inl e \<Rightarrow> Some (Inl e)
             | Inr eps \<Rightarrow>
                 (case fill_slots eps ranges (replicate SLOT_COUNT UNASSIGNED) of
                    None \<Rightarrow> None
                  | Some (Inl e) \<Rightarrow> Some (Inl e)
                  | Some (Inr table) \<Rightarrow>
                      let unmapped = length (filter (\<lambda>s. s = UNASSIGNED) table)
                      in Some (if unmapped > 0 then Inl (Slots_unmapped unmapped) else Inr (eps, table)))))"


text \<open>
  The seeds in turn: the first that answers, else the error of the last. What each seed's exchange came to is an
  argument; a later seed is asked only when the earlier ones failed. \<open>None\<close> inside is that there is no seed.
\<close>

fun first_success :: "'e option \<Rightarrow> ('e + 'a) list \<Rightarrow> 'e option + 'a" where
  "first_success last_err [] = Inl last_err"
| "first_success last_err (Inl e # rs) = first_success (Some e) rs"
| "first_success last_err (Inr x # rs) = Inr x"

definition discover_topology :: "(topology_error + socket_addr list \<times> nat list) list \<Rightarrow> topology_error option + socket_addr list \<times> nat list" where
  "discover_topology outcomes = first_success None outcomes"

section \<open>Auto discovery\<close>

record cluster_config =
  cc_version :: nat
  cc_nodes :: "socket_addr list"

datatype response = Config_block string | Empty_block | Error_line string

datatype discovery_error =
    Not_utf8 | Bad_length | Unexpected_header string | Block_too_long nat | Not_followed_by_end
  | Response_too_long | Incomplete_at_deadline nat | Timed_out | Io_failed | Closed_early
  | Empty_configuration | Bad_version | No_node_list | Bad_entry string | Bad_port string | Bad_ip string
  | Unresolved string | No_address string | No_nodes | Server_said string | No_configuration

abbreviation MAX_RESPONSE :: nat where "MAX_RESPONSE \<equiv> 1048576"

definition CRLF :: string where "CRLF = [CR, LF]"
definition TRAILER :: string where "TRAILER = CRLF @ ''END'' @ CRLF"

fun find_crlf :: "string \<Rightarrow> nat option" where
  "find_crlf (c # d # s) = (if c = CR \<and> d = LF then Some 0 else map_option Suc (find_crlf (d # s)))"
| "find_crlf _ = None"

text \<open>The length a header line announces.\<close>

definition header_len :: "string \<Rightarrow> discovery_error + nat" where
  "header_len header =
     (let len = (case split_ascii_whitespace header of
                   [a, b, flags, n] \<Rightarrow> if a = ''CONFIG'' \<and> b = ''cluster'' \<or> a = ''VALUE'' then Some n else None
                 | _ \<Rightarrow> None)
      in case len of
           None \<Rightarrow> Inl (Unexpected_header header)
         | Some n \<Rightarrow> (case parse_uint U64_MAX n of None \<Rightarrow> Inl Bad_length | Some k \<Rightarrow> Inr k))"

text \<open>\<open>Inr None\<close>: the response is not complete.\<close>

definition parse_response :: "string \<Rightarrow> discovery_error + response option" where
  "parse_response buf =
     (case find_crlf buf of
        None \<Rightarrow> Inr None
      | Some eol \<Rightarrow>
          let header = take eol buf; rest = drop (eol + 2) buf in
          if \<not> utf8_valid header then Inl Not_utf8
          else if header = ''END'' then Inr (Some Empty_block)
          else if header = ''ERROR'' \<or> strip_prefix ''CLIENT_ERROR'' header \<noteq> None \<or> strip_prefix ''SERVER_ERROR'' header \<noteq> None
          then Inr (Some (Error_line header))
          else case header_len header of
                 Inl e \<Rightarrow> Inl e
               | Inr len \<Rightarrow>
                   if len > MAX_RESPONSE then Inl (Block_too_long len)
                   else if length rest < len + length TRAILER then Inr None
                   else if take (length TRAILER) (drop len rest) \<noteq> TRAILER then Inl Not_followed_by_end
                   else Inr (Some (Config_block (take len rest))))"

text \<open>The resolver of the operating system: the addresses of a host, or a failure.\<close>

definition parse_node :: "(string \<Rightarrow> nat \<Rightarrow> socket_addr list option) \<Rightarrow> string \<Rightarrow> discovery_error + socket_addr" where
  "parse_node resolve entry =
     (case split_on CHR ''|'' entry of
        [host, ip, port] \<Rightarrow>
          (case parse_uint 65535 port of
             None \<Rightarrow> Inl (Bad_port entry)
           | Some port \<Rightarrow>
               if ip \<noteq> [] then
                 (case parse_ip ip of None \<Rightarrow> Inl (Bad_ip entry) | Some ip \<Rightarrow> Inr (Socket_addr ip port 0))
               else
                 (case resolve host port of
                    None \<Rightarrow> Inl (Unresolved host)
                  | Some [] \<Rightarrow> Inl (No_address host)
                  | Some (a # _) \<Rightarrow> Inr a))
      | _ \<Rightarrow> Inl (Bad_entry entry))"

fun parse_nodes ::
  "(string \<Rightarrow> nat \<Rightarrow> socket_addr list option) \<Rightarrow> string list \<Rightarrow> socket_addr list \<Rightarrow> discovery_error + socket_addr list" where
  "parse_nodes resolve [] nodes = Inr nodes"
| "parse_nodes resolve (e # es) nodes =
     (case parse_node resolve e of
        Inl err \<Rightarrow> Inl err
      | Inr a \<Rightarrow> parse_nodes resolve es (if a \<in> set nodes then nodes else nodes @ [a]))"

definition parse_config :: "(string \<Rightarrow> nat \<Rightarrow> socket_addr list option) \<Rightarrow> string \<Rightarrow> discovery_error + cluster_config" where
  "parse_config resolve body =
     (if \<not> utf8_valid body then Inl Not_utf8
      else case filter (\<lambda>l. l \<noteq> []) (map str_trim (str_lines body)) of
             [] \<Rightarrow> Inl Empty_configuration
           | version_line # ls \<Rightarrow>
               (case parse_uint U64_MAX version_line of
                  None \<Rightarrow> Inl Bad_version
                | Some version \<Rightarrow>
                    (case ls of
                       [] \<Rightarrow> Inl No_node_list
                     | node_line # _ \<Rightarrow>
                         (case parse_nodes resolve (split_ascii_whitespace node_line) [] of
                            Inl e \<Rightarrow> Inl e
                          | Inr nodes \<Rightarrow>
                              if nodes = [] then Inl No_nodes else Inr \<lparr>cc_version = version, cc_nodes = nodes\<rparr>))))"

text \<open>
  What a read returns: bytes (none of them is the end of the stream), the deadline, or another error. \<open>None\<close>:
  every read given is used up and the response is not complete. What is left of the reads goes to the next request.
\<close>

datatype read_event = Got string | Read_timeout | Read_failed

fun read_response :: "string \<Rightarrow> read_event list \<Rightarrow> (discovery_error + response \<times> read_event list) option" where
  "read_response buf evs =
     (case parse_response buf of
        Inl e \<Rightarrow> Some (Inl e)
      | Inr (Some r) \<Rightarrow> Some (Inr (r, evs))
      | Inr None \<Rightarrow>
          if length buf > MAX_RESPONSE then Some (Inl Response_too_long)
          else (case evs of
            [] \<Rightarrow> None
          | Got bs # evs \<Rightarrow> if bs = [] then Some (Inl Closed_early) else read_response (buf @ bs) evs
          | Read_timeout # evs \<Rightarrow> Some (Inl (if buf \<noteq> [] then Incomplete_at_deadline (length buf) else Timed_out))
          | Read_failed # evs \<Rightarrow> Some (Inl Io_failed)))"

declare read_response.simps [simp del]

text \<open>A request: it is written, unless the write failed with the error given, and its response read.\<close>

definition request :: "discovery_error option \<Rightarrow> read_event list \<Rightarrow> (discovery_error + response \<times> read_event list) option" where
  "request write_error evs = (case write_error of Some e \<Rightarrow> Some (Inl e) | None \<Rightarrow> read_response [] evs)"

definition query ::
  "(string \<Rightarrow> nat \<Rightarrow> socket_addr list option) \<Rightarrow> discovery_error option \<Rightarrow> discovery_error option \<Rightarrow> read_event list \<Rightarrow>
   (discovery_error + cluster_config) option" where
  "query resolve write_error\<^sub>1 write_error\<^sub>2 evs =
     (case request write_error\<^sub>1 evs of
        None \<Rightarrow> None
      | Some (Inl e) \<Rightarrow> Some (Inl e)
      | Some (Inr (Config_block body, evs)) \<Rightarrow> Some (parse_config resolve body)
      | Some (Inr (Empty_block, evs)) \<Rightarrow> Some (Inl No_configuration)
      | Some (Inr (Error_line l, evs)) \<Rightarrow>
          if l = ''ERROR'' then
            (case request write_error\<^sub>2 evs of
               None \<Rightarrow> None
             | Some (Inl e) \<Rightarrow> Some (Inl e)
             | Some (Inr (Config_block body, evs)) \<Rightarrow> Some (parse_config resolve body)
             | Some (Inr (Empty_block, evs)) \<Rightarrow> Some (Inl No_configuration)
             | Some (Inr (Error_line l, evs)) \<Rightarrow> Some (Inl (Server_said l)))
          else Some (Inl (Server_said l)))"

definition discover_nodes :: "(discovery_error + cluster_config) list \<Rightarrow> discovery_error option + cluster_config" where
  "discover_nodes outcomes = first_success None outcomes"

section \<open>The endpoints of a run\<close>

datatype resolve_error =
    Cluster_needs_resp | No_topology "topology_error option" | No_discovery "discovery_error option" | Too_few node_count_error

text \<open>
  \<open>resolve_endpoints\<close>: the seeds become the primaries or the nodes found, and the node counts are checked against
  them. \<open>resp\<close> is whether the protocol is RESP or RESP3. Auto discovery starts from the endpoints at that point.
\<close>

definition resolve_endpoints ::
  "bool \<Rightarrow> bool \<Rightarrow> bool \<Rightarrow> (socket_addr list \<Rightarrow> (topology_error + socket_addr list \<times> nat list) list) \<Rightarrow>
   (socket_addr list \<Rightarrow> (discovery_error + cluster_config) list) \<Rightarrow> (nat \<Rightarrow> node_count_error + unit) \<Rightarrow> socket_addr list \<Rightarrow>
   resolve_error + socket_addr list \<times> nat list option" where
  "resolve_endpoints cluster resp auto_discovery ask_cluster ask_nodes check seeds =
     (case (if cluster then
              if resp then
                (case discover_topology (ask_cluster seeds) of
                   Inl e \<Rightarrow> Inl (No_topology e)
                 | Inr (eps, table) \<Rightarrow> Inr (eps, Some table))
              else Inl Cluster_needs_resp
            else Inr (seeds, None)) of
        Inl e \<Rightarrow> Inl e
      | Inr (eps, table) \<Rightarrow>
          (case (if auto_discovery then
                   (case discover_nodes (ask_nodes eps) of Inl e \<Rightarrow> Inl (No_discovery e) | Inr c \<Rightarrow> Inr (cc_nodes c))
                 else Inr eps) of
             Inl e \<Rightarrow> Inl e
           | Inr eps \<Rightarrow> (case check (length eps) of Inl e \<Rightarrow> Inl (Too_few e) | Inr _ \<Rightarrow> Inr (eps, table))))"

section \<open>The slot table routes every key\<close>

definition covers :: "nat \<Rightarrow> slot_range \<Rightarrow> bool" where
  "covers s r \<longleftrightarrow> sl_start r \<le> s \<and> s \<le> sl_end r"

text \<open>The last range with a slot decides.\<close>

fun last_cover :: "nat \<Rightarrow> slot_range list \<Rightarrow> slot_range option" where
  "last_cover s [] = None"
| "last_cover s (r # rs) = (case last_cover s rs of Some q \<Rightarrow> Some q | None \<Rightarrow> if covers s r then Some r else None)"

lemma index_of_in: "a \<in> set xs \<Longrightarrow> index_of a xs < length xs \<and> xs ! index_of a xs = a"
  by (induction xs) auto

lemma collect_primaries_spec:
  "collect_primaries rs eps = Inr eps' \<Longrightarrow> distinct eps \<Longrightarrow>
    distinct eps' \<and> set eps \<subseteq> set eps' \<and> (\<forall>r\<in>set rs. \<exists>a\<in>set eps'. parse_socket_addr (sl_primary r) = Some a)"
proof (induction rs eps rule: collect_primaries.induct)
  case (2 r rs eps)
  then show ?case by (auto split: option.splits if_splits)
qed simp

lemma fill_slots_spec:
  "fill_slots eps rs table = Some (Inr table') \<Longrightarrow>
    length table' = length table \<and> (\<forall>s<length table. case last_cover s rs of
      None \<Rightarrow> table' ! s = table ! s
    | Some r \<Rightarrow> \<exists>a. parse_socket_addr (sl_primary r) = Some a \<and> table' ! s = index_of a eps mod 65536)"
proof (induction eps rs table rule: fill_slots.induct)
  case (2 eps r rs table)
  obtain a where a: "parse_socket_addr (sl_primary r) = Some a" using "2.prems" by (auto split: option.splits)
  obtain t where t: "fill_range (sl_start r) (sl_end r) (index_of a eps) table = Some t" "fill_slots eps rs t = Some (Inr table')"
    using "2.prems" a by (auto split: option.splits)
  have t': "length t = length table" "\<And>s. s < length table \<Longrightarrow> t ! s = (if covers s r then index_of a eps mod 65536 else table ! s)"
    using t(1) by (auto simp: fill_range_def covers_def split: if_splits)
  show ?case using "2.IH" [OF a t] t' a by (auto split: option.splits)
qed simp


lemma last_cover_in: "last_cover s rs = Some r \<Longrightarrow> r \<in> set rs \<and> covers s r"
  by (induction rs) (auto split: option.splits if_splits)

lemma build_topology_cases:
  assumes "build_topology value = Some (Inr (eps, table))"
  obtains ranges where "value = Slots ranges" "collect_primaries ranges [] = Inr eps"
    "fill_slots eps ranges (replicate SLOT_COUNT UNASSIGNED) = Some (Inr table)" "\<forall>x\<in>set table. x \<noteq> UNASSIGNED"
  using assms by (auto simp: build_topology_def Let_def filter_empty_conv split: slots_reply.splits if_splits sum.splits option.splits)

text \<open>
  C13. A topology that is accepted routes every key. If discovery returns endpoints and a slot table, then the endpoints
  are distinct, the table has every slot, and, with fewer than \<open>2^16\<close> primaries, the entry of each slot is the
  endpoint that is the primary of the last range of the reply with that slot. So with any slot hash the
  resulting router sends every key to an endpoint that exists, as the key queues and samplers require.
\<close>

theorem topology_routes:
  assumes ok: "build_topology value = Some (Inr (eps, table))" and few: "length eps \<le> 65535"
  shows "distinct eps \<and> length table = SLOT_COUNT \<and>
    (\<exists>ranges. value = Slots ranges \<and> (\<forall>s<SLOT_COUNT. \<exists>r. last_cover s ranges = Some r \<and> table ! s < length eps \<and>
       parse_socket_addr (sl_primary r) = Some (eps ! (table ! s)))) \<and>
    ((\<forall>key. hash_slot key < SLOT_COUNT) \<longrightarrow>
       router_ok \<lparr>rt_slot_table = Some table, rt_hash_slot = hash_slot, rt_ring = ring\<rparr> (length eps))"
proof -
  obtain ranges where v: "value = Slots ranges" and c: "collect_primaries ranges [] = Inr eps"
    and f: "fill_slots eps ranges (replicate SLOT_COUNT UNASSIGNED) = Some (Inr table)" and all: "\<forall>x\<in>set table. x \<noteq> UNASSIGNED"
    by (rule build_topology_cases [OF ok])
  have C: "distinct eps" "\<forall>r\<in>set ranges. \<exists>a\<in>set eps. parse_socket_addr (sl_primary r) = Some a"
    using collect_primaries_spec [OF c] by simp_all
  note F = fill_slots_spec [OF f]
  have len: "length table = SLOT_COUNT" using F by simp
  have slot: "\<exists>r. last_cover s ranges = Some r \<and> table ! s < length eps \<and> parse_socket_addr (sl_primary r) = Some (eps ! (table ! s))"
    if s: "s < SLOT_COUNT" for s
  proof -
    have in_table: "table ! s \<noteq> UNASSIGNED" using all s len by (metis nth_mem)
    have sp: "case last_cover s ranges of None \<Rightarrow> table ! s = replicate SLOT_COUNT UNASSIGNED ! s
      | Some r \<Rightarrow> \<exists>a. parse_socket_addr (sl_primary r) = Some a \<and> table ! s = index_of a eps mod 65536"
      using F s by simp
    have "replicate SLOT_COUNT UNASSIGNED ! s = UNASSIGNED" using s by (rule nth_replicate)
    then obtain r a where r: "last_cover s ranges = Some r" "parse_socket_addr (sl_primary r) = Some a" "table ! s = index_of a eps mod 65536"
      using sp in_table by (auto split: option.splits)
    then have "a \<in> set eps" using C last_cover_in [OF r(1)] by fastforce
    then have "index_of a eps < length eps" "eps ! index_of a eps = a" using index_of_in by metis+
    then show ?thesis using r few by simp
  qed
  have "router_ok \<lparr>rt_slot_table = Some table, rt_hash_slot = hash_slot, rt_ring = ring\<rparr> (length eps)"
    if "\<forall>key. hash_slot key < SLOT_COUNT"
    using that slot len by (force simp: router_ok_def route_partition_def)
  then show ?thesis using C len slot v by blast
qed

theorem topology_routes_witness:
  "\<exists>eps table. build_topology (Slots [\<lparr>sl_start = 0, sl_end = 8191, sl_primary = ''10.0.0.1:6379''\<rparr>,
      \<lparr>sl_start = 8192, sl_end = 16383, sl_primary = ''10.0.0.2:6379''\<rparr>]) = Some (Inr (eps, table)) \<and>
    length eps = 2 \<and> router_ok \<lparr>rt_slot_table = Some table, rt_hash_slot = (\<lambda>key. length key mod SLOT_COUNT), rt_ring = (\<lambda>_. 0)\<rparr> 2"
proof -
  let ?r1 = "\<lparr>sl_start = 0, sl_end = 8191, sl_primary = ''10.0.0.1:6379''\<rparr>"
  let ?r2 = "\<lparr>sl_start = 8192, sl_end = 16383, sl_primary = ''10.0.0.2:6379''\<rparr>"
  let ?a = "Socket_addr (V4 [10, 0, 0, 1]) 6379 0" and ?b = "Socket_addr (V4 [10, 0, 0, 2]) 6379 0"
  have p: "parse_socket_addr ''10.0.0.1:6379'' = Some ?a" "parse_socket_addr ''10.0.0.2:6379'' = Some ?b" by code_simp+
  have c: "collect_primaries [?r1, ?r2] [] = Inr [?a, ?b]" by (simp add: p)
  define t where "t = map (\<lambda>s. if s \<le> 8191 then 0 else 1 :: nat) [0..<SLOT_COUNT]"
  define t1 where "t1 = map (\<lambda>s. if s \<le> 8191 then 0 else UNASSIGNED) [0..<SLOT_COUNT]"
  have 1: "fill_range 0 8191 0 (replicate SLOT_COUNT UNASSIGNED) = Some t1"
    unfolding fill_range_def t1_def by (auto intro!: map_cong)
  have "length t1 = SLOT_COUNT" by (simp add: t1_def)
  then have 2: "fill_range 8192 16383 1 t1 = Some t"
    unfolding fill_range_def by (auto simp: t_def t1_def intro!: map_cong)
  have f: "fill_slots [?a, ?b] [?r1, ?r2] (replicate SLOT_COUNT UNASSIGNED) = Some (Inr t)"
    using 1 2 by (simp add: p)
  have "filter (\<lambda>x. x = UNASSIGNED) t = []" by (auto simp: t_def filter_empty_conv)
  then have b: "build_topology (Slots [?r1, ?r2]) = Some (Inr ([?a, ?b], t))"
    using c f by (simp add: build_topology_def Let_def)
  have len: "length [?a, ?b] = 2" by simp
  have "router_ok \<lparr>rt_slot_table = Some t, rt_hash_slot = (\<lambda>key. length key mod SLOT_COUNT), rt_ring = (\<lambda>_. 0)\<rparr> (length [?a, ?b])"
    using topology_routes [OF b] len by (auto simp del: list.size)
  then show ?thesis using b len by (intro exI [of _ "[?a, ?b]"] exI [of _ t]) (simp only: simp_thms)
qed


section \<open>A response does not depend on how its bytes arrive\<close>

lemma find_crlf_append: "find_crlf b = Some i \<Longrightarrow> find_crlf (b @ x) = Some i \<and> i + 2 \<le> length b"
  by (induction b arbitrary: i rule: find_crlf.induct) (auto split: if_splits)

lemma parse_response_stable:
  assumes "parse_response b \<noteq> Inr None"
  shows "parse_response (b @ x) = parse_response b"
proof -
  obtain i where i: "find_crlf b = Some i" using assms by (cases "find_crlf b") (auto simp: parse_response_def)
  note I = find_crlf_append [OF i, of x]
  define h where "h = take i b" define rest where "rest = drop (i + 2) b"
  have h: "take i (b @ x) = h" "drop (i + 2) (b @ x) = rest @ x" using I by (simp_all add: h_def rest_def)
  have tr: "take (length TRAILER) (drop n (rest @ x)) = take (length TRAILER) (drop n rest)" "take n (rest @ x) = take n rest"
    if "n + length TRAILER \<le> length rest" for n
    using that by simp_all
  show ?thesis
    using assms unfolding parse_response_def i I [THEN conjunct1] option.case Let_def h h_def [symmetric] rest_def [symmetric]
    by (auto simp: tr not_less split: sum.splits)
qed

text \<open>What a reply decides, with the reads left over.\<close>

lemma read_response_chunks:
  assumes "length (buf @ concat cs) \<le> MAX_RESPONSE" and "\<forall>c\<in>set cs. c \<noteq> []"
  shows "case parse_response (buf @ concat cs) of
      Inl e \<Rightarrow> read_response buf (map Got cs) = Some (Inl e)
    | Inr None \<Rightarrow> read_response buf (map Got cs) = None
    | Inr (Some r) \<Rightarrow> \<exists>rest. read_response buf (map Got cs) = Some (Inr (r, rest))"
  using assms
proof (induction cs arbitrary: buf)
  case Nil
  then show ?case by (auto simp: read_response.simps [of _ "[]"] split: sum.splits option.splits)
next
  case (Cons c cs)
  show ?case
  proof (cases "parse_response buf = Inr None")
    case True
    then have "read_response buf (map Got (c # cs)) = read_response (buf @ c) (map Got cs)"
      using Cons.prems by (subst read_response.simps) simp
    then show ?thesis using Cons.IH [of "buf @ c"] Cons.prems by (simp split: sum.splits option.splits)
  next
    case False
    then have "parse_response (buf @ concat (c # cs)) = parse_response buf" by (rule parse_response_stable)
    then show ?thesis using False
      by (subst (1 2 3) read_response.simps) (auto split: sum.splits option.splits)
  qed
qed

section \<open>A configuration reads back\<close>

definition printable :: "char \<Rightarrow> bool" where "printable c \<longleftrightarrow> byte_in 0x21 0x7E c"

definition a_word :: "string \<Rightarrow> bool" where "a_word w \<longleftrightarrow> w \<noteq> [] \<and> list_all printable w"

lemma printable_chars [simp]:
  "printable c \<Longrightarrow> \<not> ascii_space c" "printable c \<Longrightarrow> byte_in 0 0x7F c" "\<not> printable CR" "\<not> printable LF" "\<not> printable CHR '' ''"
  by (auto simp: printable_def byte_in_def ascii_space_def)

lemma utf8_ascii: "list_all (byte_in 0 0x7F) s \<Longrightarrow> utf8_valid s"
  by (induction s) simp_all

lemma utf8_text: "list_all (\<lambda>c. printable c \<or> c = CHR '' '' \<or> c = LF) s \<Longrightarrow> utf8_valid s"
  by (induction s) (auto simp: byte_in_def [of _ _ "CHR '' ''"] byte_in_def [of _ _ LF])

lemma white_space_bytes: "\<forall>w\<in>set white_spaces. w \<noteq> [] \<and> \<not> printable (hd w) \<and> \<not> printable (last w)"
  by code_simp

lemma strip_none:
  assumes "s \<noteq> []" "printable (hd s)" and "\<forall>w\<in>set ws. w \<noteq> [] \<and> \<not> printable (hd w)"
  shows "strip_all n ws s = s"
proof -
  have "take (length w) s \<noteq> w" if w: "w \<in> set ws" for w
  proof
    assume t: "take (length w) s = w"
    have "w \<noteq> []" using assms(3) w by blast
    then have "hd (take (length w) s) = hd s" by (simp add: hd_take)
    then show False using assms w t by metis
  qed
  then have "filter (\<lambda>w. take (length w) s = w) ws = []" by (simp add: filter_empty_conv)
  then have "strip_any ws s = None" by (simp add: strip_any_def)
  then show ?thesis by (cases n) simp_all
qed

lemma str_trim_id:
  assumes "s \<noteq> []" "printable (hd s)" "printable (last s)"
  shows "str_trim s = s"
proof -
  have "strip_all (length s) white_spaces s = s" using strip_none [OF assms(1,2)] white_space_bytes by blast
  moreover have "strip_all (length s) (map rev white_spaces) (rev s) = rev s"
    by (rule strip_none) (use assms white_space_bytes in \<open>auto simp: hd_rev\<close>)
  ultimately show ?thesis by (simp add: str_trim_def)
qed

fun join_words :: "string list \<Rightarrow> string" where
  "join_words [] = []"
| "join_words [w] = w"
| "join_words (w # ws) = w @ CHR '' '' # join_words ws"

lemma ascii_words_word: "list_all printable v \<Longrightarrow> ascii_words w (v @ s) = ascii_words (w @ v) s"
  by (induction v arbitrary: w) simp_all

lemma split_join: "list_all a_word ws \<Longrightarrow> split_ascii_whitespace (join_words ws) = ws"
proof (induction ws rule: join_words.induct)
  case (2 w)
  then show ?case using ascii_words_word [of w "[]" "[]"] by (simp add: split_ascii_whitespace_def a_word_def)
next
  case (3 w v ws)
  then have "ascii_words [] (w @ CHR '' '' # join_words (v # ws)) = ascii_words w (CHR '' '' # join_words (v # ws))"
    using ascii_words_word [of w "[]"] by (simp add: a_word_def)
  also have "\<dots> = w # ascii_words [] (join_words (v # ws))" using 3(2) by (simp add: a_word_def ascii_space_def)
  finally show ?case using 3 by (simp add: split_ascii_whitespace_def)
qed (simp add: split_ascii_whitespace_def)

lemma join_words_ends:
  "ws \<noteq> [] \<Longrightarrow> list_all a_word ws \<Longrightarrow>
    join_words ws \<noteq> [] \<and> printable (hd (join_words ws)) \<and> printable (last (join_words ws)) \<and>
    list_all (\<lambda>c. printable c \<or> c = CHR '' '') (join_words ws)"
  by (induction ws rule: join_words.induct) (auto simp: a_word_def list_all_iff)

lemma find_crlf_at: "CR \<notin> set h \<Longrightarrow> find_crlf (h @ CR # LF # r) = Some (length h)"
proof (induction h)
  case (Cons c h)
  then show ?case by (cases h) auto
qed simp


text \<open>Decimal numbers, as the address parser reads them.\<close>

lemma to_digit_10: "is_digit c \<Longrightarrow> to_digit 10 c = Some (digit_val c)"
  by (auto simp: is_digit_def digit_val_def to_digit_def Let_def)

lemma to_digit_none: "\<not> is_digit c \<Longrightarrow> to_digit 10 c = None"
  by (auto simp: is_digit_def to_digit_def Let_def)

lemma decimal_value: "foldl (\<lambda>acc c. acc * 10 + the (to_digit 10 c)) 0 (decimal n) = n"
proof (induction n rule: decimal.induct)
  case (1 n)
  have d: "the (to_digit 10 (digit_char k)) = k" if "k < 10" for k using digit_char_val [OF that] to_digit_10 by simp
  show ?case using 1 d by (cases "n < 10") (simp_all add: decimal.simps [of n])
qed

lemma decimal_len: "n < 10 ^ k \<Longrightarrow> 0 < k \<Longrightarrow> length (decimal n) \<le> k"
proof (induction k arbitrary: n)
  case (Suc k)
  show ?case
  proof (cases "n < 10")
    case False
    then have "0 < k" using Suc.prems by (cases k) auto
    then have "length (decimal (n div 10)) \<le> k" using Suc by (simp add: less_mult_imp_div_less mult.commute)
    then show ?thesis using False by (simp add: decimal.simps [of n])
  qed (simp add: decimal.simps [of n])
qed simp

lemma decimal_zero: "hd (decimal n) = CHR ''0'' \<Longrightarrow> n = 0"
proof (induction n rule: decimal.induct)
  case (1 n)
  show ?case
  proof (cases "n < 10")
    case True
    then have "digit_val (digit_char n) = 0" using 1(2) by (simp add: decimal.simps [of n] digit_val_def)
    then show ?thesis using digit_char_val [OF True] by simp
  next
    case False
    then have "n div 10 = 0" using 1 decimal_nonempty [of "n div 10"] by (simp add: decimal.simps [of n])
    then show ?thesis using False by simp
  qed
qed

lemma read_number_decimal:
  assumes "n \<le> mx" and "n < 10 ^ k" "0 < k" and "rest = [] \<or> \<not> is_digit (hd rest)"
  shows "read_number 10 (Some k) False mx (decimal n @ rest) = Some (n, rest)"
proof -
  have "\<forall>c\<in>set (decimal n). to_digit 10 c \<noteq> None" using decimal_digits [of n] to_digit_10 by simp
  moreover have "takeWhile (\<lambda>c. to_digit 10 c \<noteq> None) rest = []" using assms(4) to_digit_none by (cases rest) auto
  ultimately have t: "takeWhile (\<lambda>c. to_digit 10 c \<noteq> None) (decimal n @ rest) = decimal n" by (subst takeWhile_append2) auto
  have "length (decimal n) \<le> 1" if "hd (decimal n) = CHR ''0''" using decimal_zero [OF that] by (simp add: decimal.simps)
  then show ?thesis
    using t decimal_value [of n] assms(1) decimal_len [OF assms(2,3)] decimal_nonempty [of n]
    by (auto simp: read_number_def Let_def)
qed

definition render_ip :: "nat \<Rightarrow> nat \<Rightarrow> nat \<Rightarrow> nat \<Rightarrow> string" where
  "render_ip a b c d = decimal a @ CHR ''.'' # decimal b @ CHR ''.'' # decimal c @ CHR ''.'' # decimal d"

lemma parse_render_ip:
  assumes "a \<le> 255" "b \<le> 255" "c \<le> 255" "d \<le> 255"
  shows "parse_ip (render_ip a b c d) = Some (V4 [a, b, c, d])"
proof -
  have dot: "\<not> is_digit CHR ''.''" by (simp add: is_digit_def)
  have r: "read_number 10 (Some 3) False 255 (decimal n @ CHR ''.'' # s) = Some (n, CHR ''.'' # s)" if "n \<le> 255" for n s
    using read_number_decimal [of n 255 3 "CHR ''.'' # s"] that dot by simp
  have l: "read_number 10 (Some 3) False 255 (decimal n) = Some (n, [])" if "n \<le> 255" for n
    using read_number_decimal [of n 255 3 "[]"] that by simp
  have four: "(4 :: nat) = Suc (Suc (Suc (Suc 0)))" by simp
  have "read_ipv4 (render_ip a b c d) = Some ([a, b, c, d], [])"
    unfolding read_ipv4_def render_ip_def four
    by (simp only: read_octets.simps if_True if_False r [OF assms(1)] r [OF assms(2)] r [OF assms(3)] l [OF assms(4)] read_given_def
        list.case bind.bind_lunit option.case prod.case option.map simp_thms)
  then show ?thesis by (simp add: parse_ip_def)
qed


text \<open>A node as the server names it: its host, the four bytes of its address, its port.\<close>

type_synonym node_spec = "string \<times> (nat \<times> nat \<times> nat \<times> nat) \<times> nat"

fun node_ok :: "node_spec \<Rightarrow> bool" where
  "node_ok (host, (a, b, c, d), port) \<longleftrightarrow>
     list_all printable host \<and> CHR ''|'' \<notin> set host \<and> a \<le> 255 \<and> b \<le> 255 \<and> c \<le> 255 \<and> d \<le> 255 \<and> port \<le> 65535"

fun node_addr :: "node_spec \<Rightarrow> socket_addr" where
  "node_addr (host, (a, b, c, d), port) = Socket_addr (V4 [a, b, c, d]) port 0"

fun render_node :: "node_spec \<Rightarrow> string" where
  "render_node (host, (a, b, c, d), port) = host @ CHR ''|'' # render_ip a b c d @ CHR ''|'' # decimal port"

definition render_config :: "nat \<Rightarrow> node_spec list \<Rightarrow> string" where
  "render_config version nodes = decimal version @ LF # join_words (map render_node nodes) @ [LF]"

definition render_reply :: "string \<Rightarrow> string \<Rightarrow> string" where
  "render_reply flags body = ''CONFIG cluster '' @ flags @ CHR '' '' # decimal (length body) @ CRLF @ body @ TRAILER"

lemma digit_printable: "is_digit c \<Longrightarrow> printable c \<and> c \<noteq> CHR ''|''"
  by (auto simp: is_digit_def printable_def byte_in_def)

lemma decimal_word: "a_word (decimal n)" "CHR ''|'' \<notin> set (decimal n)"
  using decimal_digits [of n] decimal_nonempty [of n] digit_printable by (auto simp: a_word_def list_all_iff)

lemma render_ip_chars: "list_all printable (render_ip a b c d)" "CHR ''|'' \<notin> set (render_ip a b c d)" "render_ip a b c d \<noteq> []"
proof -
  have "printable CHR ''.''" by (simp add: printable_def byte_in_def)
  then show "list_all printable (render_ip a b c d)" "CHR ''|'' \<notin> set (render_ip a b c d)" "render_ip a b c d \<noteq> []"
    using decimal_word(1) decimal_word(2) by (auto simp: render_ip_def a_word_def)
qed

lemma render_node_word: "node_ok n \<Longrightarrow> a_word (render_node n)"
proof (induction n rule: render_node.induct)
  case (1 host a b c d port)
  have "printable CHR ''|''" by (simp add: printable_def byte_in_def)
  then show ?case using 1 render_ip_chars(1) [of a b c d] decimal_word(1) [of port] by (simp add: a_word_def)
qed

lemma parse_render_node: "node_ok n \<Longrightarrow> parse_node resolve (render_node n) = Inr (node_addr n)"
proof (induction n rule: render_node.induct)
  case (1 host a b c d port)
  have "split_on CHR ''|'' (render_node (host, (a, b, c, d), port)) = [host, render_ip a b c d, decimal port]"
    using 1 render_ip_chars(2) [of a b c d] decimal_word(2) [of port] by (simp add: split_on_append split_on_no_sep)
  then show ?case using 1 parse_render_ip [of a b c d] render_ip_chars(3) [of a b c d] by (simp add: parse_node_def)
qed

text \<open>The nodes, each once, in the order of their first entry.\<close>

definition first_occurrences :: "'a list \<Rightarrow> 'a list" where
  "first_occurrences xs = rev (remdups (rev xs))"

lemma parse_render_nodes:
  "list_all node_ok ns \<Longrightarrow> distinct acc \<Longrightarrow>
    parse_nodes resolve (map render_node ns) acc = Inr (first_occurrences (acc @ map node_addr ns))"
proof (induction ns arbitrary: acc)
  case Nil
  then show ?case by (simp add: first_occurrences_def distinct_remdups_id)
next
  case (Cons n ns)
  have "first_occurrences (acc @ a # xs) = first_occurrences ((if a \<in> set acc then acc else acc @ [a]) @ xs)" for a xs
    by (induction xs rule: rev_induct) (auto simp: first_occurrences_def)
  then show ?case using Cons by (simp add: parse_render_node)
qed

lemma str_lines_two: "LF \<notin> set a \<Longrightarrow> LF \<notin> set b \<Longrightarrow> str_lines (a @ LF # b @ [LF]) = [strip_cr a, strip_cr b]"
  using split_on_append [of LF b "[]"] by (simp add: str_lines_def split_on_append)

lemma parse_render_config:
  assumes "version \<le> U64_MAX" and "nodes \<noteq> []" and "list_all node_ok nodes"
  shows "parse_config resolve (render_config version nodes) =
    Inr \<lparr>cc_version = version, cc_nodes = first_occurrences (map node_addr nodes)\<rparr>"
proof -
  let ?line = "join_words (map render_node nodes)"
  have words: "list_all a_word (map render_node nodes)" using assms(3) render_node_word by (auto simp: list_all_iff)
  have line: "?line \<noteq> []" "printable (hd ?line)" "printable (last ?line)" "list_all (\<lambda>c. printable c \<or> c = CHR '' '') ?line"
    using join_words_ends [OF _ words] assms(2) by simp_all
  have ver: "decimal version \<noteq> []" "list_all printable (decimal version)" using decimal_word(1) [of version] by (simp_all add: a_word_def)
  then have ver': "printable (hd (decimal version))" "printable (last (decimal version))" by (simp_all add: list_all_iff)
  have lf: "LF \<notin> set (decimal version)" "LF \<notin> set ?line" using ver(2) line(4) by (auto simp: list_all_iff)
  have cr: "strip_cr (decimal version) = decimal version" "strip_cr ?line = ?line"
    using ver' line by (auto simp: strip_cr_def)
  have "utf8_valid (render_config version nodes)"
    by (rule utf8_ascii) (use ver(2) line(4) in \<open>auto simp: render_config_def list_all_iff byte_in_def [of _ _ "CHR '' ''"] byte_in_def [of _ _ LF]\<close>)
  moreover have "map str_trim (str_lines (render_config version nodes)) = [decimal version, ?line]"
    using str_lines_two [OF lf] cr ver ver' line by (simp add: render_config_def str_trim_id)
  moreover have "first_occurrences (map node_addr nodes) \<noteq> []" using assms(2) by (simp add: first_occurrences_def)
  ultimately show ?thesis
    using assms ver line(1) split_join [OF words] parse_render_nodes [OF assms(3), of "[]" resolve]
    by (simp add: parse_config_def)
qed

lemma parse_render_reply:
  assumes "length body \<le> MAX_RESPONSE" and flags: "a_word flags"
  shows "parse_response (render_reply flags body) = Inr (Some (Config_block body))"
proof -
  let ?header = "''CONFIG cluster '' @ flags @ CHR '' '' # decimal (length body)"
  have n: "list_all printable (decimal (length body))" using decimal_word(1) by (simp add: a_word_def)
  have f: "list_all printable flags" using flags by (simp add: a_word_def)
  have lit: "list_all (\<lambda>c. printable c \<or> c = CHR '' '') ''CONFIG cluster ''" by (simp add: printable_def byte_in_def)
  have hdr: "list_all (\<lambda>c. printable c \<or> c = CHR '' '') ?header" using n f lit by (auto simp: list_all_iff)
  have "CR \<notin> set ?header"
  proof
    assume "CR \<in> set ?header"
    then have "printable CR \<or> CR = CHR '' ''" using hdr unfolding list_all_iff by (rule bspec [rotated])
    then show False by simp
  qed
  then have crlf: "find_crlf (render_reply flags body) = Some (length ?header)"
    using find_crlf_at [of ?header "body @ TRAILER"] by (simp add: render_reply_def CRLF_def)
  have rest: "take (length ?header) (render_reply flags body) = ?header" "drop (length ?header + 2) (render_reply flags body) = body @ TRAILER"
    by (simp_all add: render_reply_def CRLF_def numeral_3_eq_3)
  have utf: "utf8_valid ?header"
    by (rule utf8_text) (rule list.pred_mono_strong [OF hdr], blast)
  have "split_ascii_whitespace ?header = split_ascii_whitespace (join_words [''CONFIG'', ''cluster'', flags, decimal (length body)])"
    by simp
  also have "\<dots> = [''CONFIG'', ''cluster'', flags, decimal (length body)]"
    using flags decimal_word(1) [of "length body"] by (intro split_join) (simp add: a_word_def printable_def byte_in_def)
  finally have len: "header_len ?header = Inr (length body)" using assms(1) by (simp add: header_len_def)
  have kind: "?header \<noteq> ''END''" "?header \<noteq> ''ERROR''" "strip_prefix ''CLIENT_ERROR'' ?header = None" "strip_prefix ''SERVER_ERROR'' ?header = None"
    by (simp_all add: strip_prefix_def)
  show ?thesis
    unfolding parse_response_def crlf option.case Let_def rest
    using utf len kind assms(1) by simp
qed


text \<open>
  C40. A cluster's node list reads back, however it arrives. Let a configuration endpoint answer \<open>config get cluster\<close>
  with a version and the nodes it has, in the protocol's framing, and let the answer come in pieces of any size. Then
  discovery ends without an error and returns the version and the address and port of every node,
  each once, in the order of their first entry. The bound is the one of the response buffer.
\<close>

theorem autodiscovery_reads_back:
  assumes "version \<le> U64_MAX" and "nodes \<noteq> []" and "list_all node_ok nodes" and "a_word flags"
    and pieces: "concat cs = render_reply flags (render_config version nodes)" "\<forall>c\<in>set cs. c \<noteq> []"
    and short: "length (concat cs) \<le> MAX_RESPONSE"
  shows "query resolve None err (map Got cs) =
    Some (Inr \<lparr>cc_version = version, cc_nodes = first_occurrences (map node_addr nodes)\<rparr>)"
proof -
  have "length (render_config version nodes) \<le> MAX_RESPONSE" using short pieces(1) by (simp add: render_reply_def)
  from parse_render_reply [OF this assms(4)] have "parse_response (concat cs) = Inr (Some (Config_block (render_config version nodes)))"
    using pieces(1) by simp
  then obtain rest where "read_response [] (map Got cs) = Some (Inr (Config_block (render_config version nodes), rest))"
    using read_response_chunks [of "[]" cs] short pieces(2) by auto
  then show ?thesis using parse_render_config [OF assms(1-3)] by (simp add: query_def request_def)
qed

theorem autodiscovery_reads_back_witness:
  "query (\<lambda>_ _. None) None None [Got ''CONFIG cluster 0 3'', Got (''7'' @ CRLF @ ''12'' @ [LF] @ ''a|10.0.0.1|11211 b''),
      Got (''|10.0.0.1|11211'' @ [LF] @ TRAILER)] =
    Some (Inr \<lparr>cc_version = 12, cc_nodes = [Socket_addr (V4 [10, 0, 0, 1]) 11211 0]\<rparr>)"
proof -
  let ?nodes = "[(''a'', (10, 0, 0, 1), 11211), (''b'', (10, 0, 0, 1), 11211)] :: node_spec list"
  let ?cs = "[''CONFIG cluster 0 3'', ''7'' @ CRLF @ ''12'' @ [LF] @ ''a|10.0.0.1|11211 b'', ''|10.0.0.1|11211'' @ [LF] @ TRAILER]"
  have 1: "(12 :: nat) \<le> U64_MAX" "?nodes \<noteq> []" by simp_all
  have 2: "list_all node_ok ?nodes" "a_word ''0''" by code_simp+
  have 3: "concat ?cs = render_reply ''0'' (render_config 12 ?nodes)" "\<forall>c\<in>set ?cs. c \<noteq> []" "length (concat ?cs) \<le> MAX_RESPONSE" by code_simp+
  have 4: "first_occurrences (map node_addr ?nodes) = [Socket_addr (V4 [10, 0, 0, 1]) 11211 0]" by code_simp
  show ?thesis using autodiscovery_reads_back [OF 1 2 3, of "\<lambda>_ _. None" None] 4 by simp
qed

end
