(* ===== verification/Spec2Isabelle.thy ===== *)
theory Spec2Isabelle
  imports Byte_Buffer Counters Sizing Trace_Replay Conn_Task Keydist Discovery
begin

text \<open>
  \<^bold>\<open>A verification development for cachecannon\<close>, a benchmark for Redis- and memcache-protocol
  servers. Paths below are under \<open>src/src/\<close>.

  \<^bold>\<open>The program.\<close> A main thread (\<open>runner.rs\<close>) reads and validates a configuration
  (\<open>config/mod.rs\<close>), sizes the I/O runtime, partitions the keys over the endpoints, starts worker
  threads, and moves the run through its phases. Each worker (\<open>worker.rs\<close>) runs a task per connection
  on one thread; a connection pipelines requests, paced by the worker's share of a global rate
  (\<open>limiters.rs\<close>): directly, through the worker's token dispatcher when it is starved, or, in routed
  mode, from per-node queues a routed dispatcher fills. Replies are counted into sharded counters
  (\<open>sharded_counter.rs\<close>) and histograms; a saturation search (\<open>saturation.rs\<close>) may steer the rate by
  them. Worker and main thread share a phase and a few counters (\<open>SharedState\<close>). Before the run the nodes may be
  discovered (\<open>cluster.rs\<close>, \<open>autodiscovery.rs\<close>); during it, keys are drawn from a distribution (\<open>keydist.rs\<close>),
  an append stream may extend the keyspace through writer connections of its own, or a trace of KV-cache
  requests (\<open>kvreplay.rs\<close>) or of objects (\<open>tracereplay.rs\<close>) replaces the generated workload.

  \<^bold>\<open>The theories.\<close>
  \<^item> \<open>Prelude\<close>, \<open>F64\<close>, \<open>F64_Order\<close>, \<open>Text\<close>: machine integers as the release build computes with them (saturating,
    wrapping, panics as \<open>None\<close>), binary64 arithmetic as correctly rounded rationals, its monotonicity, and what is
    used of the standard library's strings.
  \<^item> \<open>Limiters\<close> (\<open>limiters.rs\<close>): the split of a rate over the workers is exact, starts staggered, and
    survives restarts and rate changes. The token bucket is the crate ratelimit: a record of its
    operations with its documented behaviour as \<open>ratelimit_laws\<close>.
  \<^item> \<open>Dispatch\<close> (\<open>worker.rs\<close>, \<open>TokenDispatcher\<close>): claims are funded in order and in full, and in every
    interleaving of the tasks of a worker none is left stranded.
  \<^item> \<open>In_Flight\<close> (\<open>worker.rs\<close>, \<open>InFlight\<close>, \<open>recv_with_timeout\<close>): the two deques refine one queue of
    requests; a bounded wait ends, and exactly when the oldest request has outlived its timeout.
  \<^item> \<open>Shared_State\<close>, \<open>Runner\<close> (\<open>worker.rs\<close>, \<open>runner.rs\<close>): the phases, and one pass of the main loop with
    its precheck, prefill, warmup and recording. A run ends in time; phases only move forward; the
    append stream publishes only keys that are stored.
  \<^item> \<open>Config\<close>, \<open>Sizing\<close> (\<open>config/mod.rs\<close>, \<open>runner.rs\<close>): what a validated configuration guarantees, the
    CPU list parser, and that the send pool asked for is enough when the check on it is silent.
  \<^item> \<open>Keys\<close>, \<open>Endpoints\<close> (\<open>worker.rs\<close>): rendering of keys, seeds, the partition of the keyspace over the
    endpoints, requeueing after failures, and the placement of connections on nodes.
  \<^item> \<open>Routed\<close> (\<open>worker.rs\<close>, \<open>RoutedQueues\<close>): a push wakes the waiter that has waited longest, and every
    token the dispatcher takes is a queued or a counted dropped request.
  \<^item> \<open>Requests\<close>, \<open>Connection\<close> (\<open>worker.rs\<close>, \<open>drive_resp_workload\<close>, \<open>drive_memcache_workload\<close> and the reply
    mapping): one iteration of a connection's loop cut at its awaits, and the handling of a reply. No
    prefill key is lost or written twice whatever fails; the receive paths agree; counters and latencies add up.
  \<^item> \<open>Append_Writer\<close> (\<open>worker.rs\<close>, \<open>drive_resp_append\<close>, \<open>drive_memcache_append\<close>): the writers of the append
    stream, composed with the passes of the main thread. Every id below the published head is stored, every id handed
    out is in one place, and no step gets stuck.
  \<^item> \<open>Conn_Task\<close> (\<open>worker.rs\<close>, \<open>on_start\<close>, \<open>on_tick\<close>, the five \<open>..._task\<close> functions, \<open>drive_ping_workload\<close>): what a worker
    starts, and its tasks as one state machine around the drive loops. The starts spawn every connection of
    the run; the gauges and counts the main thread waits for are true in every interleaving.
  \<^item> \<open>Keydist\<close> (\<open>keydist.rs\<close>): the samplers, from the configuration. A picked key routes to the connection's
    endpoint, a recency draw follows its weights, and, with \<open>Append_Writer\<close>, reads only what is stored. The contract the
    samplers share is the locale \<open>key_sampler\<close>.
  \<^item> \<open>Discovery\<close> (\<open>cluster.rs\<close>, \<open>autodiscovery.rs\<close>, \<open>runner.rs\<close>): an accepted topology routes every key; a node list
    reads back however its bytes arrive.
  \<^item> \<open>Kv_Request\<close>, \<open>Kv_Dispatch\<close> (\<open>kvreplay.rs\<close>): one request of a KV-cache trace, and its reader thread, dispatchers and
    connections as interleaved steps. Each request of the trace is in one place, and finishes once.
  \<^item> \<open>Trace_Replay\<close> (\<open>tracereplay.rs\<close>): the reader, the claimed and returned rows and the connections. Each row is
    in one place or counted with its outcome.
  \<^item> \<open>Saturation\<close> (\<open>saturation.rs\<close>): the search terminates and reports the highest rate that passed; a
    step is judged on a full window of its own traffic.
  \<^item> \<open>Byte_Buffer\<close>, \<open>Counters\<close> (\<open>buffer/mod.rs\<close>, \<open>sharded_counter.rs\<close>, \<open>read_values.rs\<close>): a byte queue, and
    counters that lose no update.

  \<^bold>\<open>How code becomes definitions.\<close> A struct is a \<open>record\<close>, an enum a \<open>datatype\<close>, a method a function
  that returns the updated state; a panic is \<open>None\<close>, an \<open>Err\<close> is \<open>Inl\<close>. Code of an \<open>async\<close> function is cut
  at its awaits; what happens in between is one step of its worker's thread. Crates, the clock, random
  draws and sockets are arguments. A time is a number of nanoseconds.

  \<^bold>\<open>Bounds and fuel.\<close> The prefill loop takes as fuel one more than the keys in its endpoint's queue, which
  is shown to be enough, since every round that goes on has taken one of them for good; so does the loop of an
  append writer. \<open>trim\<close> takes as many rounds as the text has bytes. The workload
  loop recurses on its tokens, the rejection loop on its attempts, the dispatcher's batch on its size.
  The rate search is bounded by \<open>search_bound\<close>; its rates are at most 2^53, below which a rate is exact
  as a float. Where a theorem needs counters not to wrap, it says so. The ids of the append stream are to stay below 2^61,
  where user data carries its markers; the key lists of several endpoints hold 32-bit ids.

  \<^bold>\<open>Not modelled.\<close> Sockets, TLS, name resolution, timers and the task runtime (the crate ringline), random
  generators and the zipf and alias samplers (rand, rand_distr), the slot map and ring (resp-proto, ketama): their
  operations are arguments. Reading TOML, Parquet traces and JSON; the display and report formats (\<open>output/\<close>), the
  metrics registry (\<open>metrics.rs\<close>) and endpoints (\<open>admin/\<close>) and the viewer (\<open>viewer/\<close>), which present what is
  counted; the command line (\<open>main.rs\<close>, \<open>valkey_lab.rs\<close>); the vector search benchmark (\<open>search/\<close>); the RDMA
  path (\<open>dma/\<close>), a build option over a fabric library. Of \<open>runner.rs\<close>, the set-up of threads and limiters and the
  printing of samples are left out.
\<close>

end
